(* ===== verification/Arbitro_Prelude.thy ===== *)
theory Arbitro_Prelude
  imports Main "HOL-Library.Word" "HOL-Library.AList"
begin

text \<open>
  Vocabulary shared by the component theories: the types that stand for the
  machine types of the Rust sources, the \<^verbatim>\<open>Vec\<close> and \<^verbatim>\<open>HashMap\<close> operations
  the sources use, and the generic lemmas on them.

  Integers. \<^verbatim>\<open>u64\<close> and \<^verbatim>\<open>usize\<close> values are natural numbers: sequence numbers,
  millisecond clocks and lengths stay far below \<open>2 ^ 64\<close> in every run. On
  \<^verbatim>\<open>u32\<close> and narrower values the wrap of a release build is written out
  (\<open>u32_add\<close>, or \<open>mod 2 ^ w\<close> in place), and theorems that need the absence
  of a wrap say so. \<^verbatim>\<open>saturating_sub\<close> is subtraction of naturals.

  Collections. A \<^verbatim>\<open>Vec\<close> is a list. A \<^verbatim>\<open>HashMap\<close> is an association list with
  distinct keys: lookups go through \<open>map_of\<close>, and an iteration visits the
  entries in list order, one of the orders a hash map may produce; the
  theorems that involve an iteration are stated on sets or multisets.
\<close>

section \<open>Types\<close>

type_synonym byte = "8 word"
type_synonym bytes = "byte list"
type_synonym u32 = nat
type_synonym u64 = nat
type_synonym usize = nat
type_synonym ('k, 'v) hmap = "('k \<times> 'v) list"

text \<open>Fixed-width arithmetic: \<open>u32_add\<close> and \<open>u32_sub\<close> wrap as a release build does.\<close>

definition u32_add :: "u32 \<Rightarrow> u32 \<Rightarrow> u32" where
  "u32_add a b = (a + b) mod 2 ^ 32"

definition u32_sub :: "u32 \<Rightarrow> u32 \<Rightarrow> u32" where
  "u32_sub a b = (a + 2 ^ 32 - b) mod 2 ^ 32"

definition checked_mul64 :: "u64 \<Rightarrow> u64 \<Rightarrow> u64 option" where
  "checked_mul64 a b = (if a * b < 2 ^ 64 then Some (a * b) else None)"

definition u32_max :: u32 where
  "u32_max = 2 ^ 32 - 1"

lemma u32_add_exact [simp]: "a + b < 2 ^ 32 \<Longrightarrow> u32_add a b = a + b"
  by (simp add: u32_add_def)

lemma u32_sub_exact [simp]:
  assumes "b \<le> a" "a < 2 ^ 32"
  shows "u32_sub a b = a - b"
proof -
  have "a + 2 ^ 32 - b = (a - b) + 2 ^ 32" using assms(1) by (rule add_diff_assoc2 [symmetric])
  moreover have "a - b < 2 ^ 32" using assms(2) by (rule less_imp_diff_less)
  ultimately show ?thesis unfolding u32_sub_def by (metis mod_add_self2 mod_less)
qed

section \<open>Vectors\<close>

text \<open>\<^verbatim>\<open>v.get(i)\<close>; also \<^verbatim>\<open>v[i]\<close>, where \<open>None\<close> is the panic.\<close>

definition vec_get :: "'a list \<Rightarrow> usize \<Rightarrow> 'a option" where
  "vec_get xs i = (if i < length xs then Some (xs ! i) else None)"

text \<open>Changing \<^verbatim>\<open>v[i]\<close> in place, which panics when the index is out of range.\<close>

definition slot_update :: "('a \<Rightarrow> 'a) \<Rightarrow> nat \<Rightarrow> 'a list \<Rightarrow> 'a list option" where
  "slot_update f i xs = (if i < length xs then Some (xs[i := f (xs ! i)]) else None)"

text \<open>\<^verbatim>\<open>v.resize(n, d)\<close>.\<close>

definition vec_resize :: "'a list \<Rightarrow> usize \<Rightarrow> 'a \<Rightarrow> 'a list" where
  "vec_resize xs n d = take n xs @ replicate (n - length xs) d"

text \<open>\<^verbatim>\<open>v.swap_remove(i)\<close>: the last element takes the place of the removed one.\<close>

definition swap_remove :: "'a list \<Rightarrow> usize \<Rightarrow> 'a list" where
  "swap_remove xs i = butlast (xs[i := last xs])"

text \<open>\<^verbatim>\<open>v.iter().position(p)\<close>.\<close>

fun position :: "('a \<Rightarrow> bool) \<Rightarrow> 'a list \<Rightarrow> usize option" where
  "position p [] = None"
| "position p (x # xs) = (if p x then Some 0 else map_option Suc (position p xs))"

lemma vec_get_Some_iff: "vec_get xs i = Some x \<longleftrightarrow> i < length xs \<and> xs ! i = x"
  by (auto simp: vec_get_def)

lemma length_vec_resize [simp]: "length (vec_resize xs n d) = n"
  by (simp add: vec_resize_def)

lemma nth_vec_resize:
  "i < n \<Longrightarrow> vec_resize xs n d ! i = (if i < length xs then xs ! i else d)"
  by (auto simp: vec_resize_def nth_append)

text \<open>Growing a vector with a default before writing an element, writing an element only
  when it exists (\<^verbatim>\<open>if let Some(x) = v.get_mut(i)\<close>), and \<^verbatim>\<open>v.get(i).unwrap_or(d)\<close>.\<close>

definition vec_put :: "usize \<Rightarrow> 'a \<Rightarrow> 'a \<Rightarrow> 'a list \<Rightarrow> 'a list" where
  "vec_put i d v xs = (if i \<ge> length xs then vec_resize xs (i + 1) d else xs)[i := v]"

definition vec_or :: "'a list \<Rightarrow> usize \<Rightarrow> 'a \<Rightarrow> 'a" where
  "vec_or xs i d = (if i < length xs then xs ! i else d)"

lemma vec_get_put:
  "vec_get (vec_put i d v xs) j =
    (if j = i then Some v else if length xs \<le> j \<and> j < i then Some d else vec_get xs j)"
  by (auto simp: vec_put_def vec_get_def nth_list_update nth_vec_resize)

lemma vec_or_put: "vec_or (vec_put i d v xs) j d = (if j = i then v else vec_or xs j d)"
  by (auto simp: vec_put_def vec_or_def nth_list_update nth_vec_resize)

lemma vec_or_update: "vec_or (xs[i := v]) j d = (if j = i \<and> i < length xs then v else vec_or xs j d)"
  by (auto simp: vec_or_def nth_list_update)

text \<open>\<^verbatim>\<open>&v[a..b]\<close> and \<^verbatim>\<open>v[a..b].copy_from_slice(ys)\<close> with \<open>b = a + length ys\<close>;
  \<open>None\<close> is the panic of a range that is not inside the vector.\<close>

definition slice :: "'a list \<Rightarrow> usize \<Rightarrow> usize \<Rightarrow> 'a list option" where
  "slice xs a b = (if a \<le> b \<and> b \<le> length xs then Some (take (b - a) (drop a xs)) else None)"

definition write_slice :: "'a list \<Rightarrow> usize \<Rightarrow> 'a list \<Rightarrow> 'a list option" where
  "write_slice xs a ys =
    (if a + length ys \<le> length xs then Some (take a xs @ ys @ drop (a + length ys) xs) else None)"

lemma length_write_slice: "write_slice xs a ys = Some zs \<Longrightarrow> length zs = length xs"
  by (auto simp: write_slice_def split: if_splits)

lemma take_write_slice:
  "write_slice xs a ys = Some zs \<Longrightarrow> take (a + length ys) zs = take a xs @ ys"
  by (auto simp: write_slice_def split: if_splits)

text \<open>\<^verbatim>\<open>v.binary_search_by_key(&x, key)\<close> on a sorted vector: \<open>Inr\<close> the index of a hit,
  \<open>Inl\<close> the place where the key would be inserted.\<close>

function bsearch :: "('a \<Rightarrow> nat) \<Rightarrow> nat \<Rightarrow> 'a list \<Rightarrow> nat \<Rightarrow> nat \<Rightarrow> nat + nat" where
  "bsearch key x xs lo hi =
    (if lo < hi then
       let mid = (lo + hi) div 2 in
       if key (xs ! mid) = x then Inr mid
       else if key (xs ! mid) < x then bsearch key x xs (mid + 1) hi
       else bsearch key x xs lo mid
     else Inl lo)"
  by pat_completeness auto
termination
  by (relation "measure (\<lambda>(key, x, xs, lo, hi). hi - lo)") auto

declare bsearch.simps [simp del]

definition binary_search_by_key :: "('a \<Rightarrow> nat) \<Rightarrow> nat \<Rightarrow> 'a list \<Rightarrow> nat + nat" where
  "binary_search_by_key key x xs = bsearch key x xs 0 (length xs)"

lemma bsearch_sorted:
  assumes "sorted_wrt (\<lambda>a b. key a < key b) xs" "hi \<le> length xs" "lo \<le> hi"
    and "\<forall>i < lo. key (xs ! i) < x" "\<forall>i < length xs. hi \<le> i \<longrightarrow> x < key (xs ! i)"
  shows "case bsearch key x xs lo hi of
      Inr i \<Rightarrow> i < length xs \<and> key (xs ! i) = x
    | Inl i \<Rightarrow> i \<le> length xs \<and> (\<forall>j < i. key (xs ! j) < x) \<and> (\<forall>j < length xs. i \<le> j \<longrightarrow> x < key (xs ! j))"
  using assms
proof (induction key x xs lo hi rule: bsearch.induct)
  case (1 key x xs lo hi)
  let ?mid = "(lo + hi) div 2"
  show ?case
  proof (cases "lo < hi")
    case False
    then show ?thesis using "1.prems" by (subst bsearch.simps) auto
  next
    case True
    then have mid: "lo \<le> ?mid" "?mid < hi" "?mid < length xs" using "1.prems" by auto
    have lt: "key (xs ! i) < key (xs ! j)" if "i < j" "j < length xs" for i j
      using "1.prems"(1) that by (simp add: sorted_wrt_iff_nth_less)
    consider "key (xs ! ?mid) = x" | "key (xs ! ?mid) < x" | "x < key (xs ! ?mid)" by linarith
    then show ?thesis
    proof cases
      case 1
      then show ?thesis using True mid by (subst bsearch.simps) (simp add: Let_def)
    next
      case 2
      have e: "bsearch key x xs lo hi = bsearch key x xs (?mid + 1) hi"
        using True 2 by (subst bsearch.simps) (simp add: Let_def)
      have "\<forall>i < ?mid + 1. key (xs ! i) < x"
        using 2 lt [of _ ?mid] mid(3) by (metis less_Suc_eq less_trans Suc_eq_plus1)
      then show ?thesis unfolding e using "1.IH"(1) [OF True refl] 2 "1.prems" mid by simp
    next
      case 3
      have e: "bsearch key x xs lo hi = bsearch key x xs lo ?mid"
        using True 3 by (subst bsearch.simps) (simp add: Let_def)
      have "\<forall>i < length xs. ?mid \<le> i \<longrightarrow> x < key (xs ! i)"
        using 3 lt [of ?mid] by (metis le_eq_less_or_eq less_trans)
      then show ?thesis unfolding e using "1.IH"(2) [OF True refl] 3 "1.prems" mid by simp
    qed
  qed
qed

text \<open>A loop whose body may panic.\<close>

fun ofold :: "('a \<Rightarrow> 's \<Rightarrow> 's option) \<Rightarrow> 'a list \<Rightarrow> 's \<Rightarrow> 's option" where
  "ofold f [] s = Some s"
| "ofold f (x # xs) s = (case f x s of None \<Rightarrow> None | Some s' \<Rightarrow> ofold f xs s')"

lemma ofold_append:
  "ofold f (xs @ ys) s = (case ofold f xs s of None \<Rightarrow> None | Some s' \<Rightarrow> ofold f ys s')"
  by (induction xs arbitrary: s) (auto split: option.splits)

section \<open>Hash maps\<close>

named_theorems hm_simps \<open>lookup and domain laws of the hash-map operations\<close>

definition hm_get :: "('k, 'v) hmap \<Rightarrow> 'k \<Rightarrow> 'v option" where
  "hm_get m k = map_of m k"

definition hm_insert :: "'k \<Rightarrow> 'v \<Rightarrow> ('k, 'v) hmap \<Rightarrow> ('k, 'v) hmap" where
  "hm_insert k v m = AList.update k v m"

definition hm_remove :: "'k \<Rightarrow> ('k, 'v) hmap \<Rightarrow> ('k, 'v) hmap" where
  "hm_remove k m = AList.delete k m"

definition hm_contains :: "('k, 'v) hmap \<Rightarrow> 'k \<Rightarrow> bool" where
  "hm_contains m k = (map_of m k \<noteq> None)"

definition hm_ok :: "('k, 'v) hmap \<Rightarrow> bool" where
  "hm_ok m = distinct (map fst m)"

lemma hm_get_Nil [hm_simps, simp]: "hm_get [] k = None"
  by (simp add: hm_get_def)

lemma hm_get_insert [hm_simps]:
  "hm_get (hm_insert k v m) k' = (if k' = k then Some v else hm_get m k')"
  by (simp add: hm_get_def hm_insert_def update_conv')

lemma hm_get_remove [hm_simps]:
  "hm_get (hm_remove k m) k' = (if k' = k then None else hm_get m k')"
  by (simp add: hm_get_def hm_remove_def delete_conv')

lemma hm_contains_get [hm_simps]: "hm_contains m k \<longleftrightarrow> hm_get m k \<noteq> None"
  by (simp add: hm_contains_def hm_get_def)

lemma hm_ok_Nil [hm_simps, simp]: "hm_ok []"
  by (simp add: hm_ok_def)

lemma hm_ok_insert [hm_simps]: "hm_ok m \<Longrightarrow> hm_ok (hm_insert k v m)"
  by (simp add: hm_ok_def hm_insert_def distinct_update)

lemma hm_ok_remove [hm_simps]: "hm_ok m \<Longrightarrow> hm_ok (hm_remove k m)"
  by (simp add: hm_ok_def hm_remove_def distinct_delete)

lemma hm_get_in_set: "hm_ok m \<Longrightarrow> hm_get m k = Some v \<longleftrightarrow> (k, v) \<in> set m"
  by (simp add: hm_ok_def hm_get_def)

text \<open>\<^verbatim>\<open>get(k).unwrap_or(d)\<close>, and \<^verbatim>\<open>if let Some(v) = get_mut(k)\<close> with an update of \<open>v\<close>.\<close>

definition get_or :: "('k, 'v) hmap \<Rightarrow> 'k \<Rightarrow> 'v \<Rightarrow> 'v" where
  "get_or m k d = (case hm_get m k of Some v \<Rightarrow> v | None \<Rightarrow> d)"

definition hm_modify :: "'k \<Rightarrow> ('v \<Rightarrow> 'v) \<Rightarrow> ('k, 'v) hmap \<Rightarrow> ('k, 'v) hmap" where
  "hm_modify k f m = (case hm_get m k of Some v \<Rightarrow> hm_insert k (f v) m | None \<Rightarrow> m)"

lemma get_or_insert: "get_or (hm_insert k v m) k' d = (if k' = k then v else get_or m k' d)"
  by (simp add: get_or_def hm_get_insert)

lemma get_or_remove: "get_or (hm_remove k m) k' d = (if k' = k then d else get_or m k' d)"
  by (simp add: get_or_def hm_get_remove)

lemma hm_get_modify [hm_simps]:
  "hm_get (hm_modify k f m) k' = (if k' = k then map_option f (hm_get m k) else hm_get m k')"
  by (simp add: hm_modify_def hm_get_insert split: option.splits)

lemma get_or_modify:
  "f d = d \<Longrightarrow> get_or (hm_modify k f m) k' d = (if k' = k then f (get_or m k d) else get_or m k' d)"
  by (simp add: get_or_def hm_get_modify split: option.splits)

lemma hm_ok_modify [hm_simps]: "hm_ok m \<Longrightarrow> hm_ok (hm_modify k f m)"
  by (simp add: hm_modify_def hm_ok_insert split: option.splits)

lemma hm_get_None_iff: "hm_get m k = None \<longleftrightarrow> k \<notin> fst ` set m"
  by (simp add: hm_get_def map_of_eq_None_iff)

lemma hm_finite: "finite {k. \<exists>v. hm_get m k = Some v \<and> P k v}"
  by (rule finite_subset [of _ "fst ` set m"]) (auto simp: hm_get_def dest!: map_of_SomeD intro: rev_image_eqI)

lemma hm_range_insert:
  assumes "hm_get m k = None"
  shows "{v. \<exists>k'. hm_get (hm_insert k x m) k' = Some v} = insert x {v. \<exists>k'. hm_get m k' = Some v}"
proof (intro set_eqI iffI)
  fix v assume "v \<in> insert x {v. \<exists>k'. hm_get m k' = Some v}"
  then consider "v = x" | k' where "hm_get m k' = Some v" by blast
  then show "v \<in> {v. \<exists>k'. hm_get (hm_insert k x m) k' = Some v}"
  proof cases
    case 1
    then show ?thesis by (auto simp: hm_get_insert intro: exI [of _ k])
  next
    case (2 k')
    then show ?thesis using assms by (auto simp: hm_get_insert intro: exI [of _ k'])
  qed
qed (auto simp: hm_get_insert split: if_splits)

lemma hm_range_remove:
  assumes "hm_get m k = Some x" "\<And>k'. hm_get m k' = Some x \<Longrightarrow> k' = k"
  shows "{v. \<exists>k'. hm_get (hm_remove k m) k' = Some v} = {v. \<exists>k'. hm_get m k' = Some v} - {x}"
proof (intro set_eqI iffI)
  fix v assume "v \<in> {v. \<exists>k'. hm_get m k' = Some v} - {x}"
  then obtain k' where "hm_get m k' = Some v" "v \<noteq> x" by blast
  moreover from this have "k' \<noteq> k" using assms(1) by auto
  ultimately show "v \<in> {v. \<exists>k'. hm_get (hm_remove k m) k' = Some v}"
    by (auto simp: hm_get_remove intro: exI [of _ k'])
qed (use assms(2) in \<open>auto simp: hm_get_remove split: if_splits\<close>)

section \<open>Slot vectors\<close>

text \<open>\<^verbatim>\<open>Vec<Option<T>>\<close> indexed by dense identifiers: \<^verbatim>\<open>get(i).and_then(|s| s.as_ref())\<close>,
  and the growing of the vector before a write.\<close>

definition slot_get :: "'a option list \<Rightarrow> usize \<Rightarrow> 'a option" where
  "slot_get xs i = (if i < length xs then xs ! i else None)"

definition slot_grow :: "usize \<Rightarrow> usize \<Rightarrow> 'a option list \<Rightarrow> 'a option list" where
  "slot_grow i extra xs = (if i \<ge> length xs then vec_resize xs (i + extra) None else xs)"

lemma slot_get_grow [simp]: "slot_get (slot_grow i n xs) j = slot_get xs j"
  by (auto simp: slot_get_def slot_grow_def nth_vec_resize)

lemma length_slot_grow: "0 < n \<Longrightarrow> i < length (slot_grow i n xs)"
  by (simp add: slot_grow_def)

lemma slot_get_update: "slot_get (xs[i := v]) j = (if j = i \<and> i < length xs then v else slot_get xs j)"
  by (auto simp: slot_get_def)

lemma slot_get_grow_update:
  "0 < n \<Longrightarrow> slot_get ((slot_grow i n xs)[i := v]) j = (if j = i then v else slot_get xs j)"
  by (simp add: slot_get_update length_slot_grow)

end
