(* ===== verification/Subject.thy ===== *)
theory Subject
  imports Arbitro_Prelude
begin

text \<open>
  Subjects and patterns (\<^verbatim>\<open>arbitro-engine/src/common/subject.rs\<close> and
  \<^verbatim>\<open>validate_pattern\<close> of \<^verbatim>\<open>trie.rs\<close>): byte strings whose tokens are separated
  by dots, \<open>*\<close> for one token and \<open>>\<close> for one or more at the end.  The loops of
  the source are recursive functions on the remaining bytes; the lemmas relate
  them to a token-list reading and show that the three relations between
  patterns decide inclusion and overlap of the sets of subjects matched.
\<close>

section \<open>The source functions\<close>

definition dot :: byte where "dot = 46"
definition star_tok :: bytes where "star_tok = [42]"
definition gt_tok :: bytes where "gt_tok = [62]"

definition next_token :: "bytes \<Rightarrow> bytes \<times> bytes" where
  "next_token s = (case position (\<lambda>b. b = dot) s of
      Some i \<Rightarrow> (take i s, drop (i + 1) s)
    | None \<Rightarrow> (s, []))"

lemma next_token_Nil [simp]: "next_token [] = ([], [])"
  by (simp add: next_token_def)

lemma position_Some_lt: "position p xs = Some i \<Longrightarrow> i < length xs"
  by (induction xs arbitrary: i) (auto split: if_splits)

lemma next_token_rest_le: "next_token s = (t, r) \<Longrightarrow> length r \<le> length s"
  by (auto simp: next_token_def split: option.splits)

lemma next_token_rest_lt:
  "next_token s = (t, r) \<Longrightarrow> t \<noteq> [] \<Longrightarrow> length r < length s"
  by (auto simp: next_token_def split: option.splits dest: position_Some_lt)

lemma next_token_rest_lt':
  "next_token s = (t, r) \<Longrightarrow> s \<noteq> [] \<Longrightarrow> length r < length s"
  by (auto simp: next_token_def split: option.splits dest: position_Some_lt)

function subject_matches :: "bytes \<Rightarrow> bytes \<Rightarrow> bool" where
  "subject_matches pat sub =
    (let (ptok, prest) = next_token pat; (stok, srest) = next_token sub in
     if ptok = gt_tok \<and> stok \<noteq> [] then True
     else if ptok = star_tok \<and> stok \<noteq> [] then subject_matches prest srest
     else if ptok = stok \<and> ptok \<noteq> [] then subject_matches prest srest
     else if ptok = [] \<and> stok = [] then prest = [] \<and> srest = []
     else False)"
  by auto
termination
  by (relation "measure (\<lambda>(p, s). length s)") (auto dest: next_token_rest_lt [OF sym])

function subject_covers :: "bytes \<Rightarrow> bytes \<Rightarrow> bool" where
  "subject_covers w n =
    (let (wtok, wrest) = next_token w; (ntok, nrest) = next_token n in
     if wtok = gt_tok \<and> ntok \<noteq> [] then True
     else if ntok = gt_tok then False
     else if wtok = star_tok \<and> ntok \<noteq> [] then subject_covers wrest nrest
     else if wtok = ntok \<and> wtok \<noteq> [] then subject_covers wrest nrest
     else if wtok = [] \<and> ntok = [] then wrest = [] \<and> nrest = []
     else False)"
  by auto
termination
  by (relation "measure (\<lambda>(w, n). length n)") (auto dest: next_token_rest_lt [OF sym])

function subjects_overlap :: "bytes \<Rightarrow> bytes \<Rightarrow> bool" where
  "subjects_overlap x y =
    (let (xt, xr) = next_token x; (yt, yr) = next_token y in
     if xt = gt_tok \<and> yt \<noteq> [] \<or> yt = gt_tok \<and> xt \<noteq> [] then True
     else if xt = star_tok \<and> yt \<noteq> [] \<or> yt = star_tok \<and> xt \<noteq> [] then subjects_overlap xr yr
     else if xt = yt \<and> xt \<noteq> [] then subjects_overlap xr yr
     else if xt = [] \<and> yt = [] then xr = [] \<and> yr = []
     else False)"
  by auto
termination
  by (relation "measure (\<lambda>(x, y). length x)")
    (auto simp: star_tok_def dest: next_token_rest_lt [OF sym])

abbreviation strictly_nested :: "bytes \<Rightarrow> bytes \<Rightarrow> bool" where
  "strictly_nested narrow wide \<equiv> subject_covers wide narrow \<and> \<not> subject_covers narrow wide"

datatype pattern_error = Empty | EmptyToken | TokensAfterGt

function validate_tokens :: "bytes \<Rightarrow> pattern_error + unit" where
  "validate_tokens p =
    (if p = [] then Inr ()
     else let (token, rest) = next_token p in
       if token = [] then Inl EmptyToken
       else if token = gt_tok \<and> rest \<noteq> [] then Inl TokensAfterGt
       else validate_tokens rest)"
  by auto
termination
  by (relation "measure length") (auto dest: next_token_rest_lt' [OF sym])

definition validate_pattern :: "bytes \<Rightarrow> pattern_error + unit" where
  "validate_pattern pattern =
    (if pattern = [] then Inl Empty
     else if hd pattern = dot \<or> last pattern = dot then Inl EmptyToken
     else validate_tokens pattern)"

declare subject_matches.simps [simp del] subject_covers.simps [simp del]
  subjects_overlap.simps [simp del] validate_tokens.simps [simp del]

section \<open>Token lists\<close>

function toks :: "bytes \<Rightarrow> bytes list" where
  "toks s = (if s = [] then [] else fst (next_token s) # toks (snd (next_token s)))"
  by auto
termination
  by (relation "measure length") (auto intro: next_token_rest_lt' [OF prod.collapse [symmetric]])

declare toks.simps [simp del]

fun tmatch :: "bytes list \<Rightarrow> bytes list \<Rightarrow> bool" where
  "tmatch [] ts = (ts = [])"
| "tmatch (p # ps) [] = False"
| "tmatch (p # ps) (t # ts) =
    (p = gt_tok \<or> (p = star_tok \<or> p = t) \<and> tmatch ps ts)"

fun tcovers :: "bytes list \<Rightarrow> bytes list \<Rightarrow> bool" where
  "tcovers [] ns = (ns = [])"
| "tcovers (w # ws) [] = False"
| "tcovers (w # ws) (n # ns) =
    (w = gt_tok \<or> n \<noteq> gt_tok \<and> (w = star_tok \<or> w = n) \<and> tcovers ws ns)"

fun toverlap :: "bytes list \<Rightarrow> bytes list \<Rightarrow> bool" where
  "toverlap [] ys = (ys = [])"
| "toverlap (x # xs) [] = False"
| "toverlap (x # xs) (y # ys) =
    (x = gt_tok \<or> y = gt_tok \<or> (x = star_tok \<or> y = star_tok \<or> x = y) \<and> toverlap xs ys)"

text \<open>A clean byte string has no empty token.\<close>

definition clean :: "bytes \<Rightarrow> bool" where
  "clean s \<longleftrightarrow> [] \<notin> set (toks s)"

text \<open>\<open>>\<close> occurs at the end only.\<close>

fun gt_last :: "bytes list \<Rightarrow> bool" where
  "gt_last [] = True"
| "gt_last (t # ts) = ((t = gt_tok \<longrightarrow> ts = []) \<and> gt_last ts)"

lemma toks_Nil [simp]: "toks [] = []"
  by (simp add: toks.simps)

lemma toks_eq_Nil [simp]: "toks s = [] \<longleftrightarrow> s = []"
  by (subst toks.simps) simp

lemma toks_next: "s \<noteq> [] \<Longrightarrow> next_token s = (t, r) \<Longrightarrow> toks s = t # toks r"
  by (subst toks.simps) simp

lemma clean_Nil [simp]: "clean []"
  by (simp add: clean_def)

lemma clean_next:
  "clean s \<Longrightarrow> s \<noteq> [] \<Longrightarrow> next_token s = (t, r) \<Longrightarrow> t \<noteq> [] \<and> clean r"
  by (auto simp: clean_def toks_next)

lemma tok_consts [simp]: "gt_tok \<noteq> []" "star_tok \<noteq> []" "[] \<noteq> gt_tok" "[] \<noteq> star_tok"
  "gt_tok \<noteq> star_tok" "star_tok \<noteq> gt_tok"
  by (simp_all add: gt_tok_def star_tok_def)

lemma subject_matches_step:
  assumes "next_token p = (pt, pr)" "next_token s = (st, sr)"
  shows "subject_matches p s =
    (if pt = gt_tok \<and> st \<noteq> [] then True
     else if (pt = star_tok \<or> pt = st) \<and> st \<noteq> [] then subject_matches pr sr
     else pt = [] \<and> st = [] \<and> pr = [] \<and> sr = [])"
  by (subst subject_matches.simps) (auto simp: assms)

lemma subject_covers_step:
  assumes "next_token w = (wt, wr)" "next_token n = (nt, nr)"
  shows "subject_covers w n =
    (if wt = gt_tok \<and> nt \<noteq> [] then True
     else if nt = gt_tok then False
     else if (wt = star_tok \<or> wt = nt) \<and> nt \<noteq> [] then subject_covers wr nr
     else wt = [] \<and> nt = [] \<and> wr = [] \<and> nr = [])"
  by (subst subject_covers.simps) (auto simp: assms)

lemma subjects_overlap_step:
  assumes "next_token x = (xt, xr)" "next_token y = (yt, yr)"
  shows "subjects_overlap x y =
    (if xt = [] \<or> yt = [] then xt = [] \<and> yt = [] \<and> xr = [] \<and> yr = []
     else xt = gt_tok \<or> yt = gt_tok \<or>
       (xt = star_tok \<or> yt = star_tok \<or> xt = yt) \<and> subjects_overlap xr yr)"
  by (subst subjects_overlap.simps) (auto simp: assms)

lemma subject_matches_toks:
  "clean p \<Longrightarrow> clean s \<Longrightarrow> subject_matches p s = tmatch (toks p) (toks s)"
proof (induction s arbitrary: p rule: toks.induct)
  case (1 s)
  obtain pt pr st sr where e: "next_token p = (pt, pr)" "next_token s = (st, sr)"
    by fastforce
  show ?case
    using 1 e clean_next [OF 1(2) _ e(1)] clean_next [OF 1(3) _ e(2)]
    unfolding subject_matches_step [OF e]
    by (cases "p = []"; cases "s = []") (auto simp: toks_next)
qed

lemma subject_covers_toks:
  "clean w \<Longrightarrow> clean n \<Longrightarrow> subject_covers w n = tcovers (toks w) (toks n)"
proof (induction n arbitrary: w rule: toks.induct)
  case (1 n)
  obtain wt wr nt nr where e: "next_token w = (wt, wr)" "next_token n = (nt, nr)"
    by fastforce
  show ?case
    using 1 e clean_next [OF 1(2) _ e(1)] clean_next [OF 1(3) _ e(2)]
    unfolding subject_covers_step [OF e]
    by (cases "w = []"; cases "n = []") (auto simp: toks_next)
qed

lemma subjects_overlap_toks:
  "clean x \<Longrightarrow> clean y \<Longrightarrow> subjects_overlap x y = toverlap (toks x) (toks y)"
proof (induction x arbitrary: y rule: toks.induct)
  case (1 x)
  obtain xt xr yt yr where e: "next_token x = (xt, xr)" "next_token y = (yt, yr)"
    by fastforce
  show ?case
    using 1 e clean_next [OF 1(2) _ e(1)] clean_next [OF 1(3) _ e(2)]
    unfolding subjects_overlap_step [OF e]
    by (cases "x = []"; cases "y = []") (simp_all add: toks_next)
qed

lemma validate_tokens_step:
  assumes "p \<noteq> []" "next_token p = (t, r)"
  shows "validate_tokens p =
    (if t = [] then Inl EmptyToken
     else if t = gt_tok \<and> r \<noteq> [] then Inl TokensAfterGt else validate_tokens r)"
  using assms by (subst validate_tokens.simps) simp

lemma validate_tokens_iff:
  "validate_tokens p = Inr () \<longleftrightarrow> clean p \<and> gt_last (toks p)"
proof (induction p rule: toks.induct)
  case (1 p)
  obtain t r where e: "next_token p = (t, r)" by fastforce
  show ?case
  proof (cases "p = []")
    case True
    then show ?thesis by (simp add: validate_tokens.simps)
  next
    case False
    then show ?thesis
      using 1 e by (auto simp: validate_tokens_step toks_next clean_def)
  qed
qed

section \<open>Concrete subjects\<close>

definition plain_tok :: "bytes \<Rightarrow> bool" where
  "plain_tok t \<longleftrightarrow> t \<noteq> [] \<and> dot \<notin> set t \<and> t \<noteq> star_tok \<and> t \<noteq> gt_tok"

text \<open>What a publisher may name: at least one token, none empty, none a wildcard.\<close>

definition wf_subject :: "bytes \<Rightarrow> bool" where
  "wf_subject s \<longleftrightarrow> s \<noteq> [] \<and> list_all plain_tok (toks s)"

fun join_toks :: "bytes list \<Rightarrow> bytes" where
  "join_toks [] = []"
| "join_toks [t] = t"
| "join_toks (t # ts) = t @ dot # join_toks ts"

lemma position_None_iff: "position p xs = None \<longleftrightarrow> (\<forall>x \<in> set xs. \<not> p x)"
  by (induction xs) auto

lemma position_append_hit:
  "(\<forall>x \<in> set xs. \<not> p x) \<Longrightarrow> p y \<Longrightarrow> position p (xs @ y # ys) = Some (length xs)"
  by (induction xs) auto

lemma position_Some_prefix: "position p xs = Some i \<Longrightarrow> x \<in> set (take i xs) \<Longrightarrow> \<not> p x"
  by (induction xs arbitrary: i) (auto split: if_splits)

lemma next_token_last: "dot \<notin> set t \<Longrightarrow> next_token t = (t, [])"
  using position_None_iff [of "\<lambda>b. b = dot" t] by (auto simp: next_token_def)

lemma next_token_cons: "dot \<notin> set t \<Longrightarrow> next_token (t @ dot # r) = (t, r)"
  by (subst next_token_def, subst position_append_hit) auto

lemma next_token_nodot: "next_token s = (t, r) \<Longrightarrow> dot \<notin> set t"
  by (auto simp: next_token_def position_None_iff split: option.splits
      dest: position_Some_prefix)

lemma toks_nodot: "t \<in> set (toks s) \<Longrightarrow> dot \<notin> set t"
proof (induction s rule: toks.induct)
  case (1 s)
  then show ?case
    by (cases "s = []") (auto simp: toks_next [OF _ prod.collapse [symmetric]]
        next_token_nodot [OF prod.collapse [symmetric]])
qed

lemma toks_join:
  "list_all plain_tok ts \<Longrightarrow> toks (join_toks ts) = ts"
proof (induction ts rule: join_toks.induct)
  case (2 t)
  then show ?case by (simp add: plain_tok_def toks_next next_token_last)
next
  case (3 t u ts)
  then show ?case by (simp add: toks_next [OF _ next_token_cons] plain_tok_def)
qed simp

lemma wf_subject_join: "list_all plain_tok ts \<Longrightarrow> ts \<noteq> [] \<Longrightarrow> wf_subject (join_toks ts)"
  by (metis toks_join toks_Nil wf_subject_def)

lemma wf_subject_clean: "wf_subject s \<Longrightarrow> clean s"
  by (auto simp: wf_subject_def clean_def list_all_iff plain_tok_def)

section \<open>Valid patterns\<close>

definition pat_toks_ok :: "bytes list \<Rightarrow> bool" where
  "pat_toks_ok ps \<longleftrightarrow> gt_last ps \<and> (\<forall>p \<in> set ps. p \<noteq> [] \<and> dot \<notin> set p)"

lemma pat_toks_ok_simps [simp]:
  "pat_toks_ok []"
  "pat_toks_ok (p # ps) \<longleftrightarrow>
     p \<noteq> [] \<and> dot \<notin> set p \<and> (p = gt_tok \<longrightarrow> ps = []) \<and> pat_toks_ok ps"
  by (auto simp: pat_toks_ok_def)

lemma validate_pattern_ok:
  assumes "validate_pattern p = Inr ()"
  shows "p \<noteq> []" and "clean p" and "pat_toks_ok (toks p)"
proof -
  have "p \<noteq> [] \<and> validate_tokens p = Inr ()"
    using assms by (auto simp: validate_pattern_def split: if_splits)
  then show "p \<noteq> []" "clean p" "pat_toks_ok (toks p)"
    by (auto simp: validate_tokens_iff pat_toks_ok_def clean_def dest: toks_nodot)
qed

text \<open>Every token list of a valid pattern has an instance over plain tokens.\<close>

definition inst_tok :: "bytes \<Rightarrow> bytes \<Rightarrow> bytes" where
  "inst_tok f p = (if p = star_tok \<or> p = gt_tok then f else p)"

lemma inst_tok_plain [simp]:
  "plain_tok f \<Longrightarrow> p \<noteq> [] \<Longrightarrow> dot \<notin> set p \<Longrightarrow> plain_tok (inst_tok f p)"
  by (auto simp: inst_tok_def plain_tok_def)

lemma tmatch_inst:
  "pat_toks_ok ps \<Longrightarrow> tmatch ps (map (inst_tok f) ps)"
  by (induction ps) (auto simp: inst_tok_def)

lemma inst_plain:
  "plain_tok f \<Longrightarrow> pat_toks_ok ps \<Longrightarrow> list_all plain_tok (map (inst_tok f) ps)"
  by (induction ps) auto

lemma tcovers_sound: "tcovers ws ns \<Longrightarrow> tmatch ns ts \<Longrightarrow> tmatch ws ts"
proof (induction ws ns arbitrary: ts rule: tcovers.induct)
  case (3 w ws n ns)
  then show ?case by (cases ts) auto
qed auto

lemma plain_tokD: "plain_tok f \<Longrightarrow> f \<noteq> [] \<and> dot \<notin> set f \<and> f \<noteq> star_tok \<and> f \<noteq> gt_tok"
  by (simp add: plain_tok_def)

lemma plain_tokI: "f \<noteq> [] \<Longrightarrow> dot \<notin> set f \<Longrightarrow> f \<noteq> star_tok \<Longrightarrow> f \<noteq> gt_tok \<Longrightarrow> plain_tok f"
  by (simp add: plain_tok_def)

lemma tcovers_complete:
  assumes "\<not> tcovers ws ns" "pat_toks_ok ws" "pat_toks_ok ns" "plain_tok f" "f \<notin> set ws"
  shows "\<exists>ts. list_all plain_tok ts \<and> tmatch ns ts \<and> \<not> tmatch ws ts"
  using assms
proof (induction ws ns rule: tcovers.induct)
  case (1 ns)
  then show ?case
    by (intro exI [of _ "map (inst_tok f) ns"]) (auto simp: tmatch_inst inst_plain)
next
  case (2 w ws)
  then show ?case by (intro exI [of _ "[]"]) auto
next
  case (3 w ws n ns)
  have w: "w \<noteq> gt_tok" and f: "plain_tok f" "f \<noteq> w" "f \<notin> set ws"
    using 3(2,5,6) by auto
  show ?case
  proof (cases "n = gt_tok")
    case True
    then have "ns = []" using 3(4) by simp
    then show ?thesis
      using w f True plain_tokD [OF f(1)]
      by (intro exI [of _ "if ws = [] then [f, f] else [f]"]) (cases ws; simp)
  next
    case n: False
    show ?thesis
    proof (cases "w = star_tok \<or> w = n")
      case True
      then have "\<not> tcovers ws ns" using 3(2) n by simp
      then obtain ts where "list_all plain_tok ts" "tmatch ns ts" "\<not> tmatch ws ts"
        using 3(1) [OF _ _ _ f(1,3)] 3(3,4) by auto
      then show ?thesis
        using w n True 3(4) f
        by (intro exI [of _ "inst_tok f n # ts"]) (auto simp: inst_tok_def intro: plain_tokI)
    next
      case False
      then have "\<not> tmatch (w # ws) (map (inst_tok f) (n # ns))"
        using w f(2) by (auto simp: inst_tok_def)
      then show ?thesis
        using inst_plain [OF f(1) 3(4)] tmatch_inst [OF 3(4)] by blast
    qed
  qed
qed

lemma toverlap_sound: "tmatch xs ts \<Longrightarrow> tmatch ys ts \<Longrightarrow> toverlap xs ys"
proof (induction xs ys arbitrary: ts rule: toverlap.induct)
  case (1 ys)
  then show ?case by (cases ys) auto
next
  case (3 x xs y ys)
  then show ?case by (cases ts) auto
qed auto

lemma toverlap_complete:
  assumes "toverlap xs ys" "pat_toks_ok xs" "pat_toks_ok ys" "plain_tok f"
  shows "\<exists>ts. list_all plain_tok ts \<and> tmatch xs ts \<and> tmatch ys ts"
  using assms
proof (induction xs ys rule: toverlap.induct)
  case (1 ys)
  then show ?case by (intro exI [of _ "[]"]) auto
next
  case (3 x xs y ys)
  show ?case
  proof (cases "x = gt_tok \<or> y = gt_tok")
    case True
    let ?z = "if x = gt_tok then y # ys else x # xs"
    have "tmatch (x # xs) (map (inst_tok f) ?z)" "tmatch (y # ys) (map (inst_tok f) ?z)"
      using True tmatch_inst [OF 3(3), of f] tmatch_inst [OF 3(4), of f] by auto
    then show ?thesis
      using inst_plain [OF 3(5,3)] inst_plain [OF 3(5,4)]
      by (intro exI [of _ "map (inst_tok f) ?z"]) (simp split: if_splits)
  next
    case False
    then obtain ts where "list_all plain_tok ts" "tmatch xs ts" "tmatch ys ts"
      and c: "x = star_tok \<or> y = star_tok \<or> x = y"
      using 3 by auto
    then show ?thesis
      using False 3(3-5)
      by (intro exI [of _ "inst_tok f (if x = star_tok then y else x) # ts"])
        (auto simp: inst_tok_def intro: plain_tokI)
  qed
qed auto

text \<open>A token longer than every token of a list is fresh for it.\<close>

lemma fresh_tok: "\<exists>f. plain_tok f \<and> f \<notin> set ws"
proof -
  let ?n = "Suc (Suc (sum_list (map length ws)))"
  let ?f = "replicate ?n (97 :: byte)"
  have "plain_tok ?f"
    by (auto simp: plain_tok_def dot_def star_tok_def gt_tok_def)
  moreover have "?f \<notin> set ws"
  proof
    assume "?f \<in> set ws"
    then have "length ?f \<in> set (map length ws)"
      by (simp only: set_map imageI)
    then have "length ?f \<le> sum_list (map length ws)"
      by (rule member_le_sum_list) simp
    then show False by simp
  qed
  ultimately show ?thesis by blast
qed

lemma subject_covers_sound:
  "subject_covers w n \<Longrightarrow> subject_matches n s \<Longrightarrow> subject_matches w s"
proof (induction s arbitrary: w n rule: toks.induct)
  case (1 s)
  obtain wt wr where e1: "next_token w = (wt, wr)" by fastforce
  obtain nt nr where e2: "next_token n = (nt, nr)" by fastforce
  obtain st sr where e3: "next_token s = (st, sr)" by fastforce
  note e = e1 e2 e3
  have IH: "st \<noteq> [] \<Longrightarrow> subject_covers wr nr \<Longrightarrow> subject_matches nr sr \<Longrightarrow> subject_matches wr sr"
    using 1(1) [of wr nr] e(3) by (cases "s = []") auto
  show ?case
    using 1(2,3) IH
    unfolding subject_covers_step [OF e(1,2)] subject_matches_step [OF e(1,3)]
      subject_matches_step [OF e(2,3)] by (metis tok_consts(3,4,6))
qed

lemma subjects_overlap_sound:
  "subject_matches x s \<Longrightarrow> subject_matches y s \<Longrightarrow> subjects_overlap x y"
proof (induction s arbitrary: x y rule: toks.induct)
  case (1 s)
  obtain xt xr where e1: "next_token x = (xt, xr)" by fastforce
  obtain yt yr where e2: "next_token y = (yt, yr)" by fastforce
  obtain st sr where e3: "next_token s = (st, sr)" by fastforce
  note e = e1 e2 e3
  have IH: "st \<noteq> [] \<Longrightarrow> subject_matches xr sr \<Longrightarrow> subject_matches yr sr \<Longrightarrow> subjects_overlap xr yr"
    using 1(1) [of xr yr] e(3) by (cases "s = []") auto
  show ?case
    using 1(2,3) IH tok_consts
    unfolding subjects_overlap_step [OF e(1,2)] subject_matches_step [OF e(1,3)]
      subject_matches_step [OF e(2,3)]
    by (cases "st = []"; cases "xt = []"; cases "yt = []"; cases "xt = gt_tok"; cases "yt = gt_tok") metis+
qed

lemma valid_instance:
  assumes "validate_pattern p = Inr ()" "list_all plain_tok ts"
  shows "tmatch (toks p) ts \<longleftrightarrow> subject_matches p (join_toks ts)"
  using validate_pattern_ok [OF assms(1)] toks_join [OF assms(2)] assms(2)
  by (subst subject_matches_toks) (auto simp: clean_def list_all_iff plain_tok_def)

lemma valid_instance_wf:
  assumes "validate_pattern p = Inr ()" "list_all plain_tok ts" "tmatch (toks p) ts"
  shows "wf_subject (join_toks ts)"
  using validate_pattern_ok [OF assms(1)] assms wf_subject_join by (cases ts; cases "toks p") auto

text \<open>C26. On valid patterns \<^verbatim>\<open>subject_covers\<close> decides inclusion: it answers true
  exactly when every concrete subject the narrow pattern matches is matched by
  the wide one too.\<close>

theorem subject_covers_iff:
  assumes w: "validate_pattern w = Inr ()" and n: "validate_pattern n = Inr ()"
  shows "subject_covers w n \<longleftrightarrow>
    (\<forall>s. wf_subject s \<longrightarrow> subject_matches n s \<longrightarrow> subject_matches w s)"
proof
  show "subject_covers w n \<Longrightarrow>
    \<forall>s. wf_subject s \<longrightarrow> subject_matches n s \<longrightarrow> subject_matches w s"
    using subject_covers_sound by blast
  assume all: "\<forall>s. wf_subject s \<longrightarrow> subject_matches n s \<longrightarrow> subject_matches w s"
  obtain f where f: "plain_tok f" "f \<notin> set (toks w)" using fresh_tok by blast
  show "subject_covers w n"
    using tcovers_complete [OF _ validate_pattern_ok(3) [OF w] validate_pattern_ok(3) [OF n] f]
      subject_covers_toks [OF validate_pattern_ok(2) [OF w] validate_pattern_ok(2) [OF n]]
      all valid_instance [OF w] valid_instance [OF n] valid_instance_wf [OF n]
    by blast
qed

theorem subject_covers_iff_witness:
  "subject_covers [42, 46, 62] [97, 46, 62] \<and> subject_matches [42, 46, 62] [97, 46, 98] \<and>
   (\<exists>s. wf_subject s \<and> subject_matches [42, 46, 62] s \<and> \<not> subject_matches [97, 46, 62] s)"
proof -
  have "validate_pattern [42, 46, 62] = Inr ()" "validate_pattern [97, 46, 62] = Inr ()"
    "subject_covers [42, 46, 62] [97, 46, 62]" "\<not> subject_covers [97, 46, 62] [42, 46, 62]"
    "wf_subject [97, 46, 98]" "subject_matches [97, 46, 62] [97, 46, 98]"
    by code_simp+
  then show ?thesis
    using subject_covers_iff by blast
qed

text \<open>C27. On valid patterns \<^verbatim>\<open>subjects_overlap\<close> decides intersection: it answers
  true exactly when some concrete subject matches both patterns.\<close>

theorem subjects_overlap_iff:
  assumes x: "validate_pattern x = Inr ()" and y: "validate_pattern y = Inr ()"
  shows "subjects_overlap x y \<longleftrightarrow>
    (\<exists>s. wf_subject s \<and> subject_matches x s \<and> subject_matches y s)"
proof
  show "\<exists>s. wf_subject s \<and> subject_matches x s \<and> subject_matches y s \<Longrightarrow> subjects_overlap x y"
    using subjects_overlap_sound by blast
  assume o: "subjects_overlap x y"
  obtain f where f: "plain_tok f" using fresh_tok by blast
  show "\<exists>s. wf_subject s \<and> subject_matches x s \<and> subject_matches y s"
    using toverlap_complete [OF _ validate_pattern_ok(3) [OF x] validate_pattern_ok(3) [OF y] f]
      subjects_overlap_toks [OF validate_pattern_ok(2) [OF x] validate_pattern_ok(2) [OF y]]
      o valid_instance [OF x] valid_instance [OF y] valid_instance_wf [OF x]
    by blast
qed

theorem subjects_overlap_iff_witness:
  "\<exists>s. wf_subject s \<and> subject_matches [97, 46, 42] s \<and> subject_matches [42, 46, 98] s"
proof -
  have "validate_pattern [97, 46, 42] = Inr ()" "validate_pattern [42, 46, 98] = Inr ()"
    "subjects_overlap [97, 46, 42] [42, 46, 98]"
    by code_simp+
  then show ?thesis
    using subjects_overlap_iff by blast
qed

end
