(* ===== verification/Subject_Trie.thy ===== *)
theory Subject_Trie
  imports Subject
begin

text \<open>
  The arena trie of \<^verbatim>\<open>arbitro-engine/src/common/trie.rs\<close>.  Nodes live in one
  vector and refer to each other by index; insertion walks and extends the
  arena, matching runs an explicit stack.  An index out of range is the panic
  of the source and is the value \<open>None\<close>.  The main result is that for valid
  patterns the matcher reports exactly the identifiers of the inserted
  patterns that match the subject, and never panics.
\<close>

section \<open>The source functions\<close>

record trie_node =
  literals :: "(bytes \<times> u32) list"
  wildcard_star :: "u32 option"
  wildcard_gt :: "u32 list"
  subs :: "u32 list"

type_synonym subject_trie = "trie_node list"

definition trie_node_default :: trie_node where
  "trie_node_default = \<lparr>literals = [], wildcard_star = None, wildcard_gt = [], subs = []\<rparr>"

definition trie_new :: subject_trie where
  "trie_new = [trie_node_default]"

definition trie_clear :: "subject_trie \<Rightarrow> subject_trie" where
  "trie_clear nodes = [trie_node_default]"

definition find_literal :: "(bytes \<times> u32) list \<Rightarrow> bytes \<Rightarrow> u32 option" where
  "find_literal ls token = map_option snd (find (\<lambda>(t, _). t = token) ls)"

function insert_loop :: "trie_node list \<Rightarrow> usize \<Rightarrow> bytes \<Rightarrow> u32 \<Rightarrow> trie_node list option" where
  "insert_loop nodes cur p sub_id =
    (case vec_get nodes cur of
       None \<Rightarrow> None
     | Some node \<Rightarrow>
       if p = [] then Some (nodes[cur := node\<lparr>subs := subs node @ [sub_id]\<rparr>])
       else let (token, rest) = next_token p in
         if token = gt_tok then
           Some (nodes[cur := node\<lparr>wildcard_gt := wildcard_gt node @ [sub_id]\<rparr>])
         else if token = star_tok then
           (case wildcard_star node of
              Some idx \<Rightarrow> insert_loop nodes idx rest sub_id
            | None \<Rightarrow> let idx = length nodes in
                insert_loop ((nodes @ [trie_node_default])[cur := node\<lparr>wildcard_star := Some idx\<rparr>])
                  idx rest sub_id)
         else
           (case find_literal (literals node) token of
              Some idx \<Rightarrow> insert_loop nodes idx rest sub_id
            | None \<Rightarrow> let idx = length nodes in
                insert_loop ((nodes @ [trie_node_default])
                    [cur := node\<lparr>literals := literals node @ [(token, idx)]\<rparr>])
                  idx rest sub_id))"
  by auto
termination
  by (relation "measure (\<lambda>(n, c, p, s). length p)") (auto dest: next_token_rest_lt' [OF sym])

definition trie_insert :: "subject_trie \<Rightarrow> bytes \<Rightarrow> u32 \<Rightarrow> subject_trie option" where
  "trie_insert nodes pattern sub_id = insert_loop nodes 0 pattern sub_id"

text \<open>The worklist of \<^verbatim>\<open>find_matches\<close>, head of the list on top; the result is the
  sequence of calls to \<^verbatim>\<open>on_match\<close>.\<close>

definition push_children ::
  "trie_node \<Rightarrow> bytes \<Rightarrow> bytes \<Rightarrow> (u32 \<times> bytes) list \<Rightarrow> (u32 \<times> bytes) list" where
  "push_children node token rest st =
    (let st1 = (case find_literal (literals node) token of Some idx \<Rightarrow> (idx, rest) # st | None \<Rightarrow> st)
     in (case wildcard_star node of Some idx \<Rightarrow> (idx, rest) # st1 | None \<Rightarrow> st1))"

definition stack_weight :: "(u32 \<times> bytes) list \<Rightarrow> nat" where
  "stack_weight st = (\<Sum>(i, s) \<leftarrow> st. 3 ^ length s)"

lemma stack_weight_Cons [simp]: "stack_weight ((i, s) # st) = 3 ^ length s + stack_weight st"
  by (simp add: stack_weight_def)

lemma push_children_weight:
  assumes "next_token s = (t, r)" "s \<noteq> []"
  shows "stack_weight (push_children node t r st) < 3 ^ length s + stack_weight st"
proof -
  have lt: "length r < length s" using next_token_rest_lt' [OF assms] .
  then have "(3::nat) ^ Suc (length r) \<le> 3 ^ length s"
    by (intro power_increasing) auto
  then have "3 * (3::nat) ^ length r \<le> 3 ^ length s" by simp
  moreover have "0 < (3::nat) ^ length r" by simp
  ultimately have "(3::nat) ^ length r + 3 ^ length r < 3 ^ length s" by linarith
  then show ?thesis
    using lt by (auto simp: push_children_def split: option.splits)
qed

function find_loop :: "trie_node list \<Rightarrow> (u32 \<times> bytes) list \<Rightarrow> u32 list \<Rightarrow> u32 list option" where
  "find_loop nodes [] acc = Some acc"
| "find_loop nodes ((node_idx, sub) # st) acc =
    (case vec_get nodes node_idx of
       None \<Rightarrow> None
     | Some node \<Rightarrow>
       let acc1 = (if sub \<noteq> [] \<and> wildcard_gt node \<noteq> [] then acc @ wildcard_gt node else acc) in
       if sub = [] then find_loop nodes st (acc1 @ subs node)
       else let (token, rest) = next_token sub in
         find_loop nodes (push_children node token rest st) acc1)"
  by pat_completeness auto
termination
  by (relation "measure (\<lambda>(n, st, a). stack_weight st)")
    (auto intro: push_children_weight)

definition find_matches :: "subject_trie \<Rightarrow> bytes \<Rightarrow> u32 list option" where
  "find_matches nodes subject = find_loop nodes [(0, subject)] []"

abbreviation node_count :: "subject_trie \<Rightarrow> usize" where
  "node_count nodes \<equiv> length nodes"

declare insert_loop.simps [simp del] find_loop.simps(2) [simp del]

section \<open>Representation\<close>

text \<open>
  \<open>trie_inv nodes paths\<close>: the arena is a tree whose node \<open>i\<close> is reached from the
  root by the token path \<open>paths ! i\<close>; paths are distinct and every node other than
  the root has its parent edge.
\<close>

definition edge :: "trie_node \<Rightarrow> bytes \<Rightarrow> u32 \<Rightarrow> bool" where
  "edge node x j \<longleftrightarrow>
    (if x = star_tok then wildcard_star node = Some j
     else x \<noteq> gt_tok \<and> find_literal (literals node) x = Some j)"

definition trie_inv :: "trie_node list \<Rightarrow> bytes list list \<Rightarrow> bool" where
  "trie_inv nodes paths \<longleftrightarrow>
    nodes \<noteq> [] \<and> length paths = length nodes \<and> distinct paths \<and> paths ! 0 = [] \<and>
    (\<forall>i < length nodes. \<forall>x j. edge (nodes ! i) x j \<longrightarrow> j < length nodes \<and> paths ! j = paths ! i @ [x]) \<and>
    (\<forall>i < length nodes. find_literal (literals (nodes ! i)) star_tok = None \<and>
       find_literal (literals (nodes ! i)) gt_tok = None) \<and>
    (\<forall>k < length nodes. \<forall>q x. paths ! k = q @ [x] \<longrightarrow>
       (\<exists>i < length nodes. paths ! i = q \<and> edge (nodes ! i) x k))"

text \<open>The patterns held: token path and identifier.\<close>

definition contents :: "trie_node list \<Rightarrow> bytes list list \<Rightarrow> (bytes list \<times> u32) set" where
  "contents nodes paths =
    {(q, sid). (\<exists>k < length nodes. q = paths ! k \<and> sid \<in> set (subs (nodes ! k))) \<or>
       (\<exists>k < length nodes. q = paths ! k @ [gt_tok] \<and> sid \<in> set (wildcard_gt (nodes ! k)))}"

lemma trie_invD:
  assumes "trie_inv nodes paths"
  shows "nodes \<noteq> []" "length paths = length nodes" "distinct paths" "paths ! 0 = []"
    "i < length nodes \<Longrightarrow> edge (nodes ! i) x j \<Longrightarrow> j < length nodes \<and> paths ! j = paths ! i @ [x]"
    "i < length nodes \<Longrightarrow> find_literal (literals (nodes ! i)) star_tok = None"
    "i < length nodes \<Longrightarrow> find_literal (literals (nodes ! i)) gt_tok = None"
    "k < length nodes \<Longrightarrow> paths ! k = q @ [x] \<Longrightarrow>
       \<exists>i < length nodes. paths ! i = q \<and> edge (nodes ! i) x k"
  using assms unfolding trie_inv_def by blast+

lemma trie_inv_inj:
  "trie_inv nodes paths \<Longrightarrow> i < length nodes \<Longrightarrow> j < length nodes \<Longrightarrow>
    paths ! i = paths ! j \<longleftrightarrow> i = j"
  using nth_eq_iff_index_eq [OF trie_invD(3), of nodes paths i j] trie_invD(2) [of nodes paths]
  by simp

lemma trie_inv_no_gt:
  assumes "trie_inv nodes paths" "k < length nodes"
  shows "gt_tok \<notin> set (paths ! k)"
  using assms(2)
proof (induction "paths ! k" arbitrary: k rule: rev_induct)
  case Nil
  from Nil(1) [symmetric] show ?case by simp
next
  case (snoc x q)
  obtain i where "i < length nodes" "paths ! i = q" "edge (nodes ! i) x k"
    using trie_invD(8) [OF assms(1) snoc(3) snoc(2) [symmetric]] by blast
  then show ?case
    using snoc(1) [of i] snoc(2) [symmetric] by (auto simp: edge_def split: if_splits)
qed

lemma trie_inv_child:
  assumes inv: "trie_inv nodes paths" and i: "i < length nodes"
  shows "k < length nodes \<Longrightarrow> paths ! k = paths ! i @ x # r \<Longrightarrow> \<exists>j. edge (nodes ! i) x j"
proof (induction r arbitrary: k rule: rev_induct)
  case Nil
  then show ?case
    using trie_invD(8) [OF inv Nil(1), of "paths ! i" x] trie_inv_inj [OF inv _ i] by auto
next
  case (snoc y r)
  then show ?case
    using trie_invD(8) [OF inv snoc(2), of "paths ! i @ x # r" y] by auto
qed

section \<open>Matching\<close>

text \<open>What the worklist collects from one entry, as a recursion over the tokens.\<close>

fun reach_ids :: "trie_node list \<Rightarrow> u32 \<Rightarrow> bytes list \<Rightarrow> u32 set" where
  "reach_ids nodes i [] = set (subs (nodes ! i))"
| "reach_ids nodes i (t # ts) = set (wildcard_gt (nodes ! i)) \<union>
     (case find_literal (literals (nodes ! i)) t of Some j \<Rightarrow> reach_ids nodes j ts | None \<Rightarrow> {}) \<union>
     (case wildcard_star (nodes ! i) of Some j \<Rightarrow> reach_ids nodes j ts | None \<Rightarrow> {})"

lemma literal_edge:
  assumes "trie_inv nodes paths" "i < length nodes"
  shows "find_literal (literals (nodes ! i)) t = Some j \<longleftrightarrow> t \<noteq> star_tok \<and> edge (nodes ! i) t j"
  using trie_invD(6,7) [OF assms] by (auto simp: edge_def)

lemma star_edge: "wildcard_star node = Some j \<longleftrightarrow> edge node star_tok j"
  by (simp add: edge_def)

lemma push_children_ok:
  assumes "trie_inv nodes paths" "i < length nodes" "\<forall>x \<in> set st. fst x < length nodes"
  shows "\<forall>x \<in> set (push_children (nodes ! i) t r st). fst x < length nodes"
proof -
  have "find_literal (literals (nodes ! i)) t = Some j \<or> wildcard_star (nodes ! i) = Some j \<Longrightarrow>
    j < length nodes" for j
    using trie_invD(5) [OF assms(1,2)] literal_edge [OF assms(1,2)] star_edge by blast
  then show ?thesis
    using assms(3) by (auto simp: push_children_def Let_def split: option.splits)
qed

lemma find_loop_correct:
  assumes inv: "trie_inv nodes paths"
  shows "\<forall>x \<in> set st. fst x < length nodes \<Longrightarrow>
    \<exists>r. find_loop nodes st acc = Some r \<and>
      set r = set acc \<union> (\<Union>x \<in> set st. reach_ids nodes (fst x) (toks (snd x)))"
  using inv
proof (induction nodes st acc rule: find_loop.induct)
  case (2 nodes i sub st acc)
  have i: "i < length nodes" using 2(3) by simp
  obtain token rest where e: "next_token sub = (token, rest)" by fastforce
  show ?case
  proof (cases "sub = []")
    case True
    then obtain r where "find_loop nodes st (acc @ subs (nodes ! i)) = Some r"
      "set r = set (acc @ subs (nodes ! i)) \<union> (\<Union>x \<in> set st. reach_ids nodes (fst x) (toks (snd x)))"
      using 2(1) [of "nodes ! i" acc] 2(3,4) i by (auto simp: vec_get_def)
    then show ?thesis
      using True i by (auto simp: find_loop.simps(2) vec_get_def)
  next
    case False
    let ?acc = "if wildcard_gt (nodes ! i) \<noteq> [] then acc @ wildcard_gt (nodes ! i) else acc"
    let ?st = "push_children (nodes ! i) token rest st"
    obtain r where r: "find_loop nodes ?st ?acc = Some r"
      "set r = set ?acc \<union> (\<Union>x \<in> set ?st. reach_ids nodes (fst x) (toks (snd x)))"
      using 2(2) [of "nodes ! i" ?acc _ token rest] push_children_ok [OF 2(4) i, of st] 2(3,4) i e False
      by (auto simp: vec_get_def)
    have "(\<Union>x \<in> set ?st. reach_ids nodes (fst x) (toks (snd x))) \<union> set (wildcard_gt (nodes ! i)) =
      reach_ids nodes i (token # toks rest) \<union> (\<Union>x \<in> set st. reach_ids nodes (fst x) (toks (snd x)))"
      by (auto simp: push_children_def split: option.splits)
    then show ?thesis
      using r i e False by (auto simp: find_loop.simps(2) vec_get_def toks_next)
  qed
qed simp

lemma contents_iff:
  "(q, sid) \<in> contents nodes paths \<longleftrightarrow>
    (\<exists>k < length nodes. q = paths ! k \<and> sid \<in> set (subs (nodes ! k))) \<or>
    (\<exists>k < length nodes. q = paths ! k @ [gt_tok] \<and> sid \<in> set (wildcard_gt (nodes ! k)))"
  by (simp add: contents_def)

lemma contents_subs:
  assumes "trie_inv nodes paths" "i < length nodes"
  shows "(paths ! i, sid) \<in> contents nodes paths \<longleftrightarrow> sid \<in> set (subs (nodes ! i))"
proof -
  have "paths ! i \<noteq> paths ! k @ [gt_tok]" for k
    using trie_inv_no_gt [OF assms] by auto
  then show ?thesis
    using trie_inv_inj [OF assms] assms(2) by (auto simp: contents_iff)
qed

lemma contents_gt:
  assumes "trie_inv nodes paths" "i < length nodes"
  shows "(paths ! i @ gt_tok # r, sid) \<in> contents nodes paths \<longleftrightarrow>
    r = [] \<and> sid \<in> set (wildcard_gt (nodes ! i))"
proof -
  have "paths ! i @ gt_tok # r \<noteq> paths ! k" if "k < length nodes" for k
    using trie_inv_no_gt [OF assms(1) that] by (metis in_set_conv_decomp)
  then have "(paths ! i @ gt_tok # r, sid) \<in> contents nodes paths \<longleftrightarrow>
    (\<exists>k < length nodes. paths ! i @ gt_tok # r = paths ! k @ [gt_tok] \<and>
       sid \<in> set (wildcard_gt (nodes ! k)))"
    unfolding contents_iff by blast
  also have "\<dots> \<longleftrightarrow> r = [] \<and> sid \<in> set (wildcard_gt (nodes ! i))"
  proof
    assume "\<exists>k < length nodes. paths ! i @ gt_tok # r = paths ! k @ [gt_tok] \<and>
       sid \<in> set (wildcard_gt (nodes ! k))"
    then obtain k where k: "k < length nodes" "paths ! i @ gt_tok # r = paths ! k @ [gt_tok]"
      "sid \<in> set (wildcard_gt (nodes ! k))" by blast
    have "r = []"
    proof (cases r rule: rev_cases)
      case (snoc ys y)
      then have "paths ! k = paths ! i @ gt_tok # ys" using k(2) by simp
      then show ?thesis using trie_inv_no_gt [OF assms(1) k(1)] by simp
    qed
    then show "r = [] \<and> sid \<in> set (wildcard_gt (nodes ! i))"
      using k trie_inv_inj [OF assms(1) k(1) assms(2)] by auto
  qed (use assms(2) in auto)
  finally show ?thesis .
qed

lemma contents_step:
  assumes "trie_inv nodes paths" "i < length nodes" "x \<noteq> gt_tok"
    "(paths ! i @ x # r, sid) \<in> contents nodes paths"
  shows "\<exists>j. edge (nodes ! i) x j"
proof -
  consider k where "k < length nodes" "paths ! k = paths ! i @ x # r"
    | k where "k < length nodes" "paths ! i @ x # r = paths ! k @ [gt_tok]"
    using assms(4) unfolding contents_iff by metis
  then show ?thesis
  proof cases
    case 1
    then show ?thesis using trie_inv_child [OF assms(1,2)] by blast
  next
    case 2
    then obtain q where "r = q @ [gt_tok]"
      using assms(3) by (cases r rule: rev_cases) auto
    then show ?thesis using 2 trie_inv_child [OF assms(1,2) 2(1), of x q] by simp
  qed
qed

lemma contents_edge:
  assumes "trie_inv nodes paths" "i < length nodes" "edge (nodes ! i) x j"
  shows "(paths ! i @ x # r, sid) \<in> contents nodes paths \<longleftrightarrow> (paths ! j @ r, sid) \<in> contents nodes paths"
  using trie_invD(5) [OF assms] by simp

lemma reach_ids_contents:
  assumes inv: "trie_inv nodes paths"
  shows "i < length nodes \<Longrightarrow>
    sid \<in> reach_ids nodes i ts \<longleftrightarrow> (\<exists>r. (paths ! i @ r, sid) \<in> contents nodes paths \<and> tmatch r ts)"
proof (induction ts arbitrary: i)
  case Nil
  have "tmatch r [] \<longleftrightarrow> r = []" for r by (cases r) auto
  then show ?case using contents_subs [OF inv Nil, of sid] by simp
next
  case (Cons t ts)
  let ?C = "contents nodes paths"
  have split: "(\<exists>r. (paths ! i @ r, sid) \<in> ?C \<and> tmatch r (t # ts)) \<longleftrightarrow>
    (\<exists>r. (paths ! i @ gt_tok # r, sid) \<in> ?C) \<or>
    (\<exists>r. (paths ! i @ star_tok # r, sid) \<in> ?C \<and> tmatch r ts) \<or>
    (\<exists>r. t \<noteq> star_tok \<and> t \<noteq> gt_tok \<and> (paths ! i @ t # r, sid) \<in> ?C \<and> tmatch r ts)" (is "?l = ?r")
  proof
    assume ?l
    then obtain r where r: "(paths ! i @ r, sid) \<in> ?C" "tmatch r (t # ts)" by blast
    then obtain p ps where "r = p # ps" by (cases r) auto
    then show ?r using r by auto
  next
    assume ?r
    then show ?l by (meson tmatch.simps(3))
  qed
  have child: "(\<exists>r. (paths ! i @ x # r, sid) \<in> ?C \<and> tmatch r ts) \<longleftrightarrow>
      (\<exists>j. edge (nodes ! i) x j \<and> sid \<in> reach_ids nodes j ts)" if "x \<noteq> gt_tok" for x
    using that Cons.IH contents_step [OF inv Cons.prems that] contents_edge [OF inv Cons.prems]
      trie_invD(5) [OF inv Cons.prems] by blast
  have lit: "(case find_literal (literals (nodes ! i)) t of Some j \<Rightarrow> reach_ids nodes j ts | None \<Rightarrow> {}) =
      {sid. t \<noteq> star_tok \<and> t \<noteq> gt_tok \<and> (\<exists>j. edge (nodes ! i) t j \<and> sid \<in> reach_ids nodes j ts)}"
    using trie_invD(6,7) [OF inv Cons.prems] by (auto simp: edge_def split: option.splits)
  have star: "(case wildcard_star (nodes ! i) of Some j \<Rightarrow> reach_ids nodes j ts | None \<Rightarrow> {}) =
      {sid. \<exists>j. edge (nodes ! i) star_tok j \<and> sid \<in> reach_ids nodes j ts}"
    by (auto simp: edge_def split: option.splits)
  show ?case
    unfolding split reach_ids.simps lit star
    using contents_gt [OF inv Cons.prems, of _ sid] child [of star_tok] child [of t] by auto
qed

lemma find_matches_contents:
  assumes inv: "trie_inv nodes paths"
  shows "\<exists>r. find_matches nodes s = Some r \<and>
    set r = {sid. \<exists>q. (q, sid) \<in> contents nodes paths \<and> tmatch q (toks s)}"
proof -
  have "{sid. \<exists>q. (q, sid) \<in> contents nodes paths \<and> tmatch q (toks s)} = reach_ids nodes 0 (toks s)"
    using trie_invD(1,4) [OF inv] reach_ids_contents [OF inv, of 0 _ "toks s"] by auto
  then show ?thesis
    using find_loop_correct [OF inv, of "[(0, s)]" "[]"] trie_invD(1) [OF inv]
    by (simp add: find_matches_def)
qed

section \<open>Insertion\<close>

lemma trie_inv_update:
  assumes inv: "trie_inv nodes paths" and i: "i < length nodes"
    and same: "literals node = literals (nodes ! i)" "wildcard_star node = wildcard_star (nodes ! i)"
  shows "trie_inv (nodes[i := node]) paths"
proof -
  have e: "edge (nodes[i := node] ! k) x j = edge (nodes ! k) x j" for k x j
    using i same by (cases "k = i") (auto simp: edge_def)
  have l: "literals (nodes[i := node] ! k) = literals (nodes ! k)" for k
    using i same by (cases "k = i") auto
  show ?thesis
    using inv unfolding trie_inv_def by (simp add: e l)
qed

lemma contents_update_subs:
  assumes "i < length nodes"
  shows "contents (nodes[i := (nodes ! i)\<lparr>subs := subs (nodes ! i) @ [sid]\<rparr>]) paths =
    insert (paths ! i, sid) (contents nodes paths)"
  using assms by (auto simp: contents_def nth_list_update)

lemma contents_update_gt:
  assumes "i < length nodes"
  shows "contents (nodes[i := (nodes ! i)\<lparr>wildcard_gt := wildcard_gt (nodes ! i) @ [sid]\<rparr>]) paths =
    insert (paths ! i @ [gt_tok], sid) (contents nodes paths)"
  using assms by (auto simp: contents_def nth_list_update)

lemma find_literal_append:
  "find_literal (ls @ [(t, j)]) x =
    (case find_literal ls x of Some k \<Rightarrow> Some k | None \<Rightarrow> if x = t then Some j else None)"
  by (induction ls) (auto simp: find_literal_def split: option.splits)

lemma edge_default [simp]: "\<not> edge trie_node_default x j"
  by (simp add: edge_def trie_node_default_def find_literal_def)

lemma default_sel: "subs trie_node_default = []" "wildcard_gt trie_node_default = []"
  by (simp_all add: trie_node_default_def)

lemma trie_inv_extend:
  assumes inv: "trie_inv nodes paths" and i: "i < length nodes"
    and free: "\<And>j. \<not> edge (nodes ! i) x j" and x: "x \<noteq> gt_tok"
    and e: "\<And>y j. edge node y j \<longleftrightarrow> edge (nodes ! i) y j \<or> y = x \<and> j = length nodes"
    and l: "find_literal (literals node) star_tok = None" "find_literal (literals node) gt_tok = None"
  shows "trie_inv ((nodes @ [trie_node_default])[i := node]) (paths @ [paths ! i @ [x]])"
proof -
  let ?n = "(nodes @ [trie_node_default])[i := node]" and ?p = "paths @ [paths ! i @ [x]]"
  have len: "length paths = length nodes" by (rule trie_invD(2) [OF inv])
  have new: "paths ! i @ [x] \<notin> set paths"
    using trie_inv_child [OF inv i, of _ x "[]"] free len by (metis in_set_conv_nth)
  have node: "?n ! k = (if k = i then node else if k < length nodes then nodes ! k else trie_node_default)"
    if "k < Suc (length nodes)" for k
    using that i by (auto simp: nth_list_update nth_append less_Suc_eq)
  have path: "?p ! k = (if k < length nodes then paths ! k else paths ! i @ [x])"
    if "k < Suc (length nodes)" for k
    using that len by (auto simp: nth_append less_Suc_eq)
  have edges: "j < Suc (length nodes) \<and> ?p ! j = ?p ! k @ [y]"
    if "k < Suc (length nodes)" "edge (?n ! k) y j" for k y j
    using that node [OF that(1)] path [OF that(1)] path [of j] i e trie_invD(5) [OF inv, of k y j]
    by (auto split: if_splits)
  have lits: "find_literal (literals (?n ! k)) star_tok = None \<and>
      find_literal (literals (?n ! k)) gt_tok = None" if "k < Suc (length nodes)" for k
    using node [OF that] l trie_invD(6,7) [OF inv, of k]
    by (auto simp: trie_node_default_def find_literal_def split: if_splits)
  have parent: "\<exists>m < Suc (length nodes). ?p ! m = q \<and> edge (?n ! m) y k"
    if k: "k < Suc (length nodes)" "?p ! k = q @ [y]" for k q y
  proof (cases "k < length nodes")
    case True
    then obtain m where "m < length nodes" "paths ! m = q" "edge (nodes ! m) y k"
      using trie_invD(8) [OF inv True, of q y] k path [OF k(1)] by auto
    then show ?thesis
      using node [of m] path [of m] e by (intro exI [of _ m]) auto
  next
    case False
    then show ?thesis
      using k i node [of i] path [of i] path [of k] e by (intro exI [of _ i]) auto
  qed
  show ?thesis
    unfolding trie_inv_def
    using trie_invD(1,3,4) [OF inv] new len edges lits parent
    by (simp add: nth_append)
qed

lemma contents_extend:
  assumes "trie_inv nodes paths" "i < length nodes"
    "subs node = subs (nodes ! i)" "wildcard_gt node = wildcard_gt (nodes ! i)"
  shows "contents ((nodes @ [trie_node_default])[i := node]) (paths @ [q]) = contents nodes paths"
proof -
  have a: "(\<exists>k < Suc n. P k) \<longleftrightarrow> P n \<or> (\<exists>k < n. P k)" for n and P :: "nat \<Rightarrow> bool"
    by (auto simp: less_Suc_eq)
  let ?n = "(nodes @ [trie_node_default])[i := node]"
  have k: "subs (?n ! k) = subs (nodes ! k)" "wildcard_gt (?n ! k) = wildcard_gt (nodes ! k)"
    "(paths @ [q]) ! k = paths ! k" if "k < length nodes" for k
    using that assms(3,4) trie_invD(2) [OF assms(1)]
    by (cases "k = i"; simp add: nth_append)+
  have "?n ! length nodes = trie_node_default"
    using assms(2) by (simp add: nth_append)
  then show ?thesis
    by (simp add: contents_def a k default_sel cong: conj_cong)
qed

lemma insert_loop_step:
  assumes "c < length nodes"
  shows "insert_loop nodes c [] sid = Some (nodes[c := (nodes ! c)\<lparr>subs := subs (nodes ! c) @ [sid]\<rparr>])"
    and "p \<noteq> [] \<Longrightarrow> next_token p = (gt_tok, r) \<Longrightarrow> insert_loop nodes c p sid =
      Some (nodes[c := (nodes ! c)\<lparr>wildcard_gt := wildcard_gt (nodes ! c) @ [sid]\<rparr>])"
    and "p \<noteq> [] \<Longrightarrow> next_token p = (t, r) \<Longrightarrow> edge (nodes ! c) t j \<Longrightarrow>
      insert_loop nodes c p sid = insert_loop nodes j r sid"
    and "p \<noteq> [] \<Longrightarrow> next_token p = (t, r) \<Longrightarrow> t \<noteq> gt_tok \<Longrightarrow> \<forall>j. \<not> edge (nodes ! c) t j \<Longrightarrow>
      insert_loop nodes c p sid =
        insert_loop ((nodes @ [trie_node_default])
          [c := if t = star_tok then (nodes ! c)\<lparr>wildcard_star := Some (length nodes)\<rparr>
                else (nodes ! c)\<lparr>literals := literals (nodes ! c) @ [(t, length nodes)]\<rparr>])
          (length nodes) r sid"
proof -
  assume a: "p \<noteq> []" "next_token p = (t, r)" "t \<noteq> gt_tok" "\<forall>j. \<not> edge (nodes ! c) t j"
  have "if t = star_tok then wildcard_star (nodes ! c) = None
    else find_literal (literals (nodes ! c)) t = None"
    using a(3,4) by (cases "t = star_tok") (auto simp: edge_def)
  then show "insert_loop nodes c p sid =
        insert_loop ((nodes @ [trie_node_default])
          [c := if t = star_tok then (nodes ! c)\<lparr>wildcard_star := Some (length nodes)\<rparr>
                else (nodes ! c)\<lparr>literals := literals (nodes ! c) @ [(t, length nodes)]\<rparr>])
          (length nodes) r sid"
    using assms a(1-3) by (simp add: insert_loop.simps [of nodes c p] vec_get_def Let_def split: if_splits)
qed (use assms in \<open>simp_all add: insert_loop.simps [of nodes c] vec_get_def edge_def split: if_splits\<close>)

lemma insert_loop_correct:
  assumes "trie_inv nodes paths" "c < length nodes" "pat_toks_ok (toks p)"
  shows "\<exists>nodes' paths'. insert_loop nodes c p sid = Some nodes' \<and> trie_inv nodes' paths' \<and>
    contents nodes' paths' = insert (paths ! c @ toks p, sid) (contents nodes paths)"
  using assms
proof (induction p arbitrary: nodes paths c rule: toks.induct)
  case (1 p)
  obtain t r where e: "next_token p = (t, r)" by fastforce
  show ?case
  proof (cases "p = []")
    case True
    show ?thesis
      using insert_loop_step(1) [OF 1(3)] trie_inv_update [OF 1(2,3)] contents_update_subs [OF 1(3)] True
      by (intro exI conjI) auto
  next
    case False
    have tp: "toks p = t # toks r" using False e by (rule toks_next)
    have IH: "trie_inv nodes paths \<Longrightarrow> c < length nodes \<Longrightarrow> pat_toks_ok (toks r) \<Longrightarrow>
      \<exists>nodes' paths'. insert_loop nodes c r sid = Some nodes' \<and> trie_inv nodes' paths' \<and>
        contents nodes' paths' = insert (paths ! c @ toks r, sid) (contents nodes paths)" for nodes paths c
      using 1(1) [OF False] e by simp
    have okr: "pat_toks_ok (toks r)" using 1(4) tp by simp
    consider "t = gt_tok" | j where "edge (nodes ! c) t j" | "t \<noteq> gt_tok" "\<forall>j. \<not> edge (nodes ! c) t j"
      by blast
    then show ?thesis
    proof cases
      case 1
      then have "toks r = []" using \<open>pat_toks_ok (toks p)\<close> tp by simp
      then show ?thesis
        using insert_loop_step(2) [OF \<open>c < length nodes\<close> False] e 1 tp
          trie_inv_update [OF \<open>trie_inv nodes paths\<close> \<open>c < length nodes\<close>]
          contents_update_gt [OF \<open>c < length nodes\<close>]
        by (intro exI conjI) auto
    next
      case (2 j)
      then show ?thesis
        using insert_loop_step(3) [OF 1(3) False e 2] trie_invD(5) [OF 1(2,3) 2] IH [OF 1(2) _ okr, of j] tp
        by simp
    next
      case 3
      let ?node = "if t = star_tok then (nodes ! c)\<lparr>wildcard_star := Some (length nodes)\<rparr>
                else (nodes ! c)\<lparr>literals := literals (nodes ! c) @ [(t, length nodes)]\<rparr>"
      let ?nodes = "(nodes @ [trie_node_default])[c := ?node]" and ?paths = "paths @ [paths ! c @ [t]]"
      have inv: "trie_inv ?nodes ?paths"
        using 3 trie_invD(6,7) [OF 1(2,3)]
        by (intro trie_inv_extend [OF 1(2,3)]) (auto simp: edge_def find_literal_append split: option.splits)
      have "?paths ! length nodes = paths ! c @ [t]"
        using trie_invD(2) [OF 1(2)] by (simp add: nth_append)
      then show ?thesis
        using insert_loop_step(4) [OF 1(3) False e 3, of sid] IH [OF inv _ okr, of "length nodes"] tp
          contents_extend [OF 1(2,3), of ?node "paths ! c @ [t]"]
        by simp
    qed
  qed
qed

section \<open>The index interface\<close>

text \<open>
  What a match table relies on: an index of patterns under identifiers that can
  be built without panicking and, asked for a subject, reports the identifiers
  of the patterns that match it.
\<close>

locale subject_index =
  fixes new_ix :: 'ix
    and insert_ix :: "'ix \<Rightarrow> bytes \<Rightarrow> u32 \<Rightarrow> 'ix option"
    and find_ix :: "'ix \<Rightarrow> bytes \<Rightarrow> u32 list option"
    and holds :: "'ix \<Rightarrow> (bytes \<times> u32) set \<Rightarrow> bool"
  assumes new_holds: "holds new_ix {}"
    and insert_holds: "holds ix ps \<Longrightarrow> validate_pattern p = Inr () \<Longrightarrow>
      \<exists>ix'. insert_ix ix p i = Some ix' \<and> holds ix' (insert (p, i) ps)"
    and find_holds: "holds ix ps \<Longrightarrow> clean s \<Longrightarrow>
      \<exists>r. find_ix ix s = Some r \<and> set r = {i. \<exists>p. (p, i) \<in> ps \<and> subject_matches p s}"
begin

lemma build_holds:
  "holds ix qs \<Longrightarrow> \<forall>(p, i) \<in> set ps. validate_pattern p = Inr () \<Longrightarrow>
    \<exists>ix'. ofold (\<lambda>(p, i) ix. insert_ix ix p i) ps ix = Some ix' \<and> holds ix' (set ps \<union> qs)"
proof (induction ps arbitrary: ix qs)
  case (Cons x ps)
  obtain p i where x: "x = (p, i)" by fastforce
  then obtain ix1 where "insert_ix ix p i = Some ix1" "holds ix1 (insert (p, i) qs)"
    using insert_holds [OF Cons(2), of p i] Cons(3) by auto
  then show ?case
    using Cons(1) [of ix1 "insert (p, i) qs"] Cons(3) x by auto
qed simp

lemma build_find:
  assumes "\<forall>(p, i) \<in> set ps. validate_pattern p = Inr ()" "clean s"
  shows "\<exists>ix r. ofold (\<lambda>(p, i) ix. insert_ix ix p i) ps new_ix = Some ix \<and> find_ix ix s = Some r \<and>
    set r = {i. \<exists>p. (p, i) \<in> set ps \<and> subject_matches p s}"
  using build_holds [OF new_holds assms(1)] find_holds [OF _ assms(2)] by fastforce

end

definition trie_holds :: "subject_trie \<Rightarrow> (bytes \<times> u32) set \<Rightarrow> bool" where
  "trie_holds nodes ps \<longleftrightarrow> (\<forall>(p, i) \<in> ps. clean p) \<and>
    (\<exists>paths. trie_inv nodes paths \<and> contents nodes paths = (\<lambda>(p, i). (toks p, i)) ` ps)"

interpretation trie_ix: subject_index trie_new trie_insert find_matches trie_holds
proof unfold_locales
  show "trie_holds trie_new {}"
    unfolding trie_holds_def trie_new_def
    by (intro conjI exI [of _ "[[]]"])
      (auto simp: trie_inv_def contents_def default_sel,
        auto simp: trie_node_default_def find_literal_def)
next
  fix ix ps p i
  assume h: "trie_holds ix ps" and v: "validate_pattern p = Inr ()"
  then obtain paths where paths: "trie_inv ix paths" "contents ix paths = (\<lambda>(p, i). (toks p, i)) ` ps"
    by (auto simp: trie_holds_def)
  obtain ix' paths' where "insert_loop ix 0 p i = Some ix'" "trie_inv ix' paths'"
    "contents ix' paths' = insert (toks p, i) (contents ix paths)"
    using insert_loop_correct [OF paths(1), of 0 p i] trie_invD(1,4) [OF paths(1)]
      validate_pattern_ok(3) [OF v] by auto
  then show "\<exists>ix'. trie_insert ix p i = Some ix' \<and> trie_holds ix' (insert (p, i) ps)"
    using h v paths by (auto simp: trie_insert_def trie_holds_def validate_pattern_ok(2))
next
  fix ix ps s
  assume h: "trie_holds ix ps" and c: "clean s"
  then obtain paths where paths: "trie_inv ix paths" "contents ix paths = (\<lambda>(p, i). (toks p, i)) ` ps"
    by (auto simp: trie_holds_def)
  have "(\<exists>q. (q, i) \<in> contents ix paths \<and> tmatch q (toks s)) \<longleftrightarrow>
      (\<exists>p. (p, i) \<in> ps \<and> subject_matches p s)" for i
    using h c unfolding paths(2) trie_holds_def by (fastforce simp: subject_matches_toks)
  then show "\<exists>r. find_matches ix s = Some r \<and> set r = {i. \<exists>p. (p, i) \<in> ps \<and> subject_matches p s}"
    using find_matches_contents [OF paths(1), of s] by simp
qed



end
