(* ===== verification/Match_Table.thy ===== *)
theory Match_Table
  imports Subject_Trie
begin

text \<open>
  The precomputed routing table of a stream
  (\<^verbatim>\<open>arbitro-engine/src/catalog/match_table.rs\<close>): literal filters under the hash
  of their subject, wildcard filters in a trie, subscriptions without filter in
  a catch-all list, each with its deduplication set.  \<^verbatim>\<open>wire_hash_32\<close> is the
  third-party \<^verbatim>\<open>foldhash\<close> and is an argument \<open>hash\<close> of the definitions that call
  it.  A trie field is \<open>None\<close> once an insertion into it has panicked; the
  invariant excludes that value.
\<close>

section \<open>Entries\<close>

record match_entry =
  me_consumer_id :: u32
  me_queue_id :: u32
  me_subscription_id :: u32
  me_connection_id :: u64
  binding_idx :: u32

definition binding_idx_unbound :: u32 where
  "binding_idx_unbound = u32_max"

text \<open>\<^verbatim>\<open>PartialEq\<close> and \<^verbatim>\<open>Hash\<close> of \<^verbatim>\<open>MatchEntry\<close> leave \<^verbatim>\<open>binding_idx\<close> out.\<close>

definition me_eq :: "match_entry \<Rightarrow> match_entry \<Rightarrow> bool" where
  "me_eq a b \<longleftrightarrow> me_consumer_id a = me_consumer_id b \<and> me_queue_id a = me_queue_id b \<and>
     me_subscription_id a = me_subscription_id b \<and> me_connection_id a = me_connection_id b"

text \<open>\<^verbatim>\<open>HashSet<MatchEntry>\<close> under that equality.\<close>

type_synonym match_set = "match_entry list"

definition hs_contains :: "match_set \<Rightarrow> match_entry \<Rightarrow> bool" where
  "hs_contains s e = list_ex (me_eq e) s"

definition hs_insert :: "match_set \<Rightarrow> match_entry \<Rightarrow> match_set \<times> bool" where
  "hs_insert s e = (if hs_contains s e then (s, False) else (s @ [e], True))"

definition hs_remove :: "match_set \<Rightarrow> match_entry \<Rightarrow> match_set" where
  "hs_remove s e = filter (\<lambda>x. \<not> me_eq x e) s"

section \<open>The table\<close>

record match_table =
  exact :: "(u32, match_entry list) hmap"
  exact_subjects :: "(u32, bytes) hmap"
  exact_dedup :: "(u32, match_set) hmap"
  catch_all :: "match_entry list"
  catch_all_dedup :: match_set
  patterns :: "(bytes \<times> match_entry) list"
  pattern_trie :: "subject_trie option"
  pattern_entries :: "match_entry list"
  limit_patterns :: "(bytes \<times> u32) list"
  limit_trie :: "subject_trie option"
  limit_values :: "u32 list"
  max_subject_inflights :: "(u32, u32) hmap"

definition match_table_new :: match_table where
  "match_table_new = \<lparr>exact = [], exact_subjects = [], exact_dedup = [], catch_all = [],
     catch_all_dedup = [], patterns = [], pattern_trie = Some trie_new, pattern_entries = [],
     limit_patterns = [], limit_trie = Some trie_new, limit_values = [],
     max_subject_inflights = []\<rparr>"

definition add_catch_all :: "match_entry \<Rightarrow> match_table \<Rightarrow> match_table" where
  "add_catch_all entry t =
    (let (s, fresh) = hs_insert (catch_all_dedup t) entry;
         t1 = t\<lparr>catch_all_dedup := s\<rparr>
     in if fresh then t1\<lparr>catch_all := catch_all t1 @ [entry]\<rparr> else t1)"

definition add_exact :: "u32 \<Rightarrow> bytes \<Rightarrow> match_entry \<Rightarrow> match_table \<Rightarrow> match_table" where
  "add_exact subject_hash subject entry t =
    (let (s, fresh) = hs_insert (get_or (exact_dedup t) subject_hash []) entry;
         t1 = t\<lparr>exact_dedup := hm_insert subject_hash s (exact_dedup t)\<rparr>;
         t2 = (if fresh then
                 t1\<lparr>exact := hm_insert subject_hash (get_or (exact t1) subject_hash [] @ [entry]) (exact t1)\<rparr>
               else t1)
     in t2\<lparr>exact_subjects :=
          hm_insert subject_hash (get_or (exact_subjects t2) subject_hash subject) (exact_subjects t2)\<rparr>)"

definition add_pattern :: "bytes \<Rightarrow> match_entry \<Rightarrow> match_table \<Rightarrow> match_table" where
  "add_pattern pattern entry t =
    (let idx = length (pattern_entries t)
     in t\<lparr>pattern_entries := pattern_entries t @ [entry],
          pattern_trie := Option.bind (pattern_trie t) (\<lambda>tr. trie_insert tr pattern idx),
          patterns := patterns t @ [(pattern, entry)]\<rparr>)"

text \<open>The two rebuild loops insert pattern \<open>i\<close> of the vector under identifier \<open>i\<close>.\<close>

definition rebuild_trie :: "bytes list \<Rightarrow> subject_trie option \<Rightarrow> subject_trie option" where
  "rebuild_trie ps trie = Option.bind trie (\<lambda>tr.
     ofold (\<lambda>(p, i) t. trie_insert t p i) (zip ps [0..<length ps]) (trie_clear tr))"

definition rebuild_pattern_trie :: "match_table \<Rightarrow> match_table" where
  "rebuild_pattern_trie t = t\<lparr>pattern_trie := rebuild_trie (map fst (patterns t)) (pattern_trie t),
     pattern_entries := map snd (patterns t)\<rparr>"

definition rebuild_limit_trie :: "match_table \<Rightarrow> match_table" where
  "rebuild_limit_trie t = t\<lparr>limit_trie := rebuild_trie (map fst (limit_patterns t)) (limit_trie t),
     limit_values := map snd (limit_patterns t)\<rparr>"

definition retain_buckets :: "u32 \<Rightarrow> (u32, match_entry list) hmap \<Rightarrow> (u32, match_entry list) hmap" where
  "retain_buckets sub m = filter (\<lambda>(h, es). es \<noteq> [])
     (map (\<lambda>(h, es). (h, filter (\<lambda>e. me_subscription_id e \<noteq> sub) es)) m)"

definition mt_remove_subscription :: "u32 \<Rightarrow> match_table \<Rightarrow> match_table" where
  "mt_remove_subscription sub t =
    (let t1 = t\<lparr>catch_all := filter (\<lambda>e. me_subscription_id e \<noteq> sub) (catch_all t),
                catch_all_dedup := filter (\<lambda>e. me_subscription_id e \<noteq> sub) (catch_all_dedup t),
                exact := retain_buckets sub (exact t),
                exact_dedup := retain_buckets sub (exact_dedup t)\<rparr>;
         t2 = t1\<lparr>exact_subjects := filter (\<lambda>(h, _). hm_contains (exact t1) h) (exact_subjects t1)\<rparr>;
         had_patterns = list_ex (\<lambda>(_, e). me_subscription_id e = sub) (patterns t2);
         t3 = t2\<lparr>patterns := filter (\<lambda>(_, e). me_subscription_id e \<noteq> sub) (patterns t2)\<rparr>
     in if had_patterns then rebuild_pattern_trie t3 else t3)"

definition update_set_for :: "u32 \<Rightarrow> u64 \<Rightarrow> match_entry list \<Rightarrow> match_set \<Rightarrow> match_set" where
  "update_set_for sub old_connection_id es s = fold (\<lambda>e s.
     if me_subscription_id e = sub
     then fst (hs_insert (hs_remove s (e\<lparr>me_connection_id := old_connection_id\<rparr>)) e)
     else s) es s"

definition update_dedup_for_subscription :: "u32 \<Rightarrow> u64 \<Rightarrow> match_table \<Rightarrow> match_table" where
  "update_dedup_for_subscription sub old_connection_id t =
     t\<lparr>catch_all_dedup := update_set_for sub old_connection_id (catch_all t) (catch_all_dedup t),
       exact_dedup := fold (\<lambda>(h, es) d. case hm_get d h of
           Some s \<Rightarrow> hm_insert h (update_set_for sub old_connection_id es s) d
         | None \<Rightarrow> d) (exact t) (exact_dedup t)\<rparr>"

record match_result =
  mr_exact :: "match_entry list"
  mr_catch_all :: "match_entry list"

definition mr_count :: "match_result \<Rightarrow> usize" where
  "mr_count r = length (mr_exact r) + length (mr_catch_all r)"

definition mr_is_empty :: "match_result \<Rightarrow> bool" where
  "mr_is_empty r \<longleftrightarrow> mr_exact r = [] \<and> mr_catch_all r = []"

definition mr_iter :: "match_result \<Rightarrow> match_entry list" where
  "mr_iter r = mr_exact r @ mr_catch_all r"

definition mt_lookup :: "match_table \<Rightarrow> u32 \<Rightarrow> match_result" where
  "mt_lookup t subject_hash =
    \<lparr>mr_exact = get_or (exact t) subject_hash [], mr_catch_all = catch_all t\<rparr>"

definition lookup_verified :: "match_table \<Rightarrow> u32 \<Rightarrow> bytes \<Rightarrow> match_result" where
  "lookup_verified t subject_hash subject =
    \<lparr>mr_exact = (case hm_get (exact_subjects t) subject_hash of
         Some stored \<Rightarrow> if stored = subject then get_or (exact t) subject_hash [] else []
       | None \<Rightarrow> []),
     mr_catch_all = catch_all t\<rparr>"

definition dedup_threshold :: usize where
  "dedup_threshold = 4"

definition resolve_patterns_readonly ::
  "match_table \<Rightarrow> bytes \<Rightarrow> match_entry list \<Rightarrow> match_entry list option" where
  "resolve_patterns_readonly t subject out =
    (case Option.bind (pattern_trie t) (\<lambda>tr. find_matches tr subject) of
       None \<Rightarrow> None
     | Some ids \<Rightarrow>
       if length out \<ge> dedup_threshold then
         let seen = fold (\<lambda>e s. fst (hs_insert s e)) out [] in
         map_option snd (ofold (\<lambda>idx (seen, out). case vec_get (pattern_entries t) idx of
             None \<Rightarrow> None
           | Some entry \<Rightarrow> (case hs_insert seen entry of (seen', fresh) \<Rightarrow>
               Some (seen', if fresh then out @ [entry] else out))) ids (seen, out))
       else
         ofold (\<lambda>idx out. case vec_get (pattern_entries t) idx of
             None \<Rightarrow> None
           | Some entry \<Rightarrow> Some (if list_ex (me_eq entry) out then out else out @ [entry])) ids out)"

section \<open>Subject limits\<close>

definition has_wildcard :: "bytes \<Rightarrow> bool" where
  "has_wildcard p \<longleftrightarrow> 42 \<in> set p \<or> 62 \<in> set p"

definition add_max_subject_inflight ::
  "(bytes \<Rightarrow> u32) \<Rightarrow> bytes \<Rightarrow> u32 \<Rightarrow> match_table \<Rightarrow> match_table" where
  "add_max_subject_inflight hash pattern max_inflight t =
    (if has_wildcard pattern then
       rebuild_limit_trie (t\<lparr>limit_patterns := limit_patterns t @ [(pattern, max_inflight)]\<rparr>)
     else t\<lparr>max_subject_inflights := hm_insert (hash pattern) max_inflight (max_subject_inflights t)\<rparr>)"

definition remove_max_subject_inflight :: "(bytes \<Rightarrow> u32) \<Rightarrow> bytes \<Rightarrow> match_table \<Rightarrow> match_table" where
  "remove_max_subject_inflight hash pattern t =
    (if has_wildcard pattern then
       rebuild_limit_trie (t\<lparr>limit_patterns := filter (\<lambda>(p, _). p \<noteq> pattern) (limit_patterns t)\<rparr>)
     else t\<lparr>max_subject_inflights := hm_remove (hash pattern) (max_subject_inflights t)\<rparr>)"

definition mt_max_subject_inflight :: "match_table \<Rightarrow> u32 \<Rightarrow> u32 option" where
  "mt_max_subject_inflight t subject_hash = hm_get (max_subject_inflights t) subject_hash"

text \<open>The outer option is the panic, the inner one the limit.\<close>

definition resolve_subject_limit_readonly ::
  "match_table \<Rightarrow> u32 \<Rightarrow> bytes \<Rightarrow> u32 option option" where
  "resolve_subject_limit_readonly t subject_hash subject =
    (case hm_get (max_subject_inflights t) subject_hash of
       Some limit \<Rightarrow> Some (Some limit)
     | None \<Rightarrow>
       if limit_patterns t = [] then Some None
       else (case Option.bind (limit_trie t) (\<lambda>tr. find_matches tr subject) of
           None \<Rightarrow> None
         | Some ids \<Rightarrow> ofold (\<lambda>idx min_limit. case vec_get (limit_values t) idx of
               None \<Rightarrow> None
             | Some max_inflight \<Rightarrow>
                 Some (Some (min (case min_limit of Some l \<Rightarrow> l | None \<Rightarrow> u32_max) max_inflight)))
             ids None))"

definition has_subject_limits :: "match_table \<Rightarrow> bool" where
  "has_subject_limits t \<longleftrightarrow> max_subject_inflights t \<noteq> [] \<or> limit_patterns t \<noteq> []"

section \<open>Binding\<close>

definition rebind :: "u32 \<Rightarrow> u64 \<Rightarrow> match_entry \<Rightarrow> match_entry" where
  "rebind sub connection_id e =
    (if me_subscription_id e = sub then e\<lparr>me_connection_id := connection_id\<rparr> else e)"

definition bind_subscription :: "u32 \<Rightarrow> u64 \<Rightarrow> match_table \<Rightarrow> match_table" where
  "bind_subscription sub connection_id t =
    (let old_connection_id = map_option me_connection_id
           (find (\<lambda>e. me_subscription_id e = sub) (catch_all t @ concat (map snd (exact t))));
         t1 = t\<lparr>exact := map (\<lambda>(h, es). (h, map (rebind sub connection_id) es)) (exact t),
                catch_all := map (rebind sub connection_id) (catch_all t),
                patterns := map (\<lambda>(p, e). (p, rebind sub connection_id e)) (patterns t),
                pattern_entries := map (rebind sub connection_id) (pattern_entries t)\<rparr>
     in case old_connection_id of
          Some old_cid \<Rightarrow> if old_cid \<noteq> connection_id
            then update_dedup_for_subscription sub old_cid t1 else t1
        | None \<Rightarrow> t1)"

definition unbind_subscription :: "u32 \<Rightarrow> match_table \<Rightarrow> match_table" where
  "unbind_subscription sub t = bind_subscription sub 0 t"

definition stamp :: "u32 \<Rightarrow> u64 \<Rightarrow> u32 \<Rightarrow> u32 \<Rightarrow> match_entry \<Rightarrow> match_entry" where
  "stamp consumer_id connection_id sub idx e =
    (if me_consumer_id e = consumer_id \<and> me_connection_id e = connection_id \<and>
        me_subscription_id e = sub
     then e\<lparr>binding_idx := idx\<rparr> else e)"

definition set_binding_idx_for :: "u32 \<Rightarrow> u64 \<Rightarrow> u32 \<Rightarrow> u32 \<Rightarrow> match_table \<Rightarrow> match_table" where
  "set_binding_idx_for consumer_id connection_id sub idx t =
    (let st = stamp consumer_id connection_id sub idx
     in t\<lparr>exact := map (\<lambda>(h, es). (h, map st es)) (exact t),
          catch_all := map st (catch_all t),
          patterns := map (\<lambda>(p, e). (p, st e)) (patterns t),
          pattern_entries := map st (pattern_entries t)\<rparr>)"

abbreviation exact_count :: "match_table \<Rightarrow> usize" where
  "exact_count t \<equiv> length (exact t)"

abbreviation catch_all_count :: "match_table \<Rightarrow> usize" where
  "catch_all_count t \<equiv> length (catch_all t)"

definition pattern_count :: "match_table \<Rightarrow> usize" where
  "pattern_count t = length (patterns t)"

text \<open>\<^verbatim>\<open>clear\<close> as written: the literal subjects of the buckets stay.\<close>

definition mt_clear :: "match_table \<Rightarrow> match_table" where
  "mt_clear t = t\<lparr>exact := [], exact_dedup := [], catch_all := [], catch_all_dedup := [],
     patterns := [], pattern_trie := map_option trie_clear (pattern_trie t), pattern_entries := [],
     limit_patterns := [], limit_trie := map_option trie_clear (limit_trie t), limit_values := [],
     max_subject_inflights := []\<rparr>"

section \<open>Abstract contents\<close>

text \<open>
  A table stands for a set of pairs of a filter (\<open>None\<close> for a catch-all) and the
  identity of an entry.  \<open>F\<close> is a set of literal subjects on which the hash does
  not collide.
\<close>

datatype mkey = MKey (key_consumer: u32) (key_queue: u32) (key_sub: u32) (key_conn: u64)

definition me_key :: "match_entry \<Rightarrow> mkey" where
  "me_key e = MKey (me_consumer_id e) (me_queue_id e) (me_subscription_id e) (me_connection_id e)"

definition keys :: "match_entry list \<Rightarrow> mkey set" where
  "keys es = me_key ` set es"

definition rekey :: "u32 \<Rightarrow> u64 \<Rightarrow> mkey \<Rightarrow> mkey" where
  "rekey sub conn k = (if key_sub k = sub then MKey (key_consumer k) (key_queue k) sub conn else k)"

type_synonym routes = "(bytes option \<times> mkey) set"

definition literals_at :: "(bytes \<Rightarrow> u32) \<Rightarrow> routes \<Rightarrow> u32 \<Rightarrow> mkey set" where
  "literals_at hash S h = {k. \<exists>f. (Some f, k) \<in> S \<and> \<not> has_wildcard f \<and> hash f = h}"

definition rep_wf :: "bytes set \<Rightarrow> routes \<Rightarrow> bool" where
  "rep_wf F S \<longleftrightarrow>
    (\<forall>f k. (Some f, k) \<in> S \<longrightarrow> validate_pattern f = Inr () \<and> (\<not> has_wildcard f \<longrightarrow> f \<in> F)) \<and>
    (\<forall>fo k fo' k'. (fo, k) \<in> S \<longrightarrow> (fo', k') \<in> S \<longrightarrow> key_sub k = key_sub k' \<longrightarrow> key_conn k = key_conn k')"

definition rep_catch :: "match_table \<Rightarrow> routes \<Rightarrow> bool" where
  "rep_catch t S \<longleftrightarrow> keys (catch_all t) = {k. (None, k) \<in> S} \<and>
     keys (catch_all_dedup t) = {k. (None, k) \<in> S}"

definition rep_exact :: "(bytes \<Rightarrow> u32) \<Rightarrow> bytes set \<Rightarrow> match_table \<Rightarrow> routes \<Rightarrow> bool" where
  "rep_exact hash F t S \<longleftrightarrow>
    hm_ok (exact t) \<and> hm_ok (exact_dedup t) \<and> hm_ok (exact_subjects t) \<and>
    (\<forall>h. keys (get_or (exact t) h []) = literals_at hash S h) \<and>
    (\<forall>h. keys (get_or (exact_dedup t) h []) = literals_at hash S h) \<and>
    (\<forall>h f. hm_get (exact_subjects t) h = Some f \<longrightarrow> f \<in> F \<and> hash f = h) \<and>
    (\<forall>h. hm_get (exact t) h \<noteq> None \<longrightarrow> hm_get (exact_subjects t) h \<noteq> None)"

definition trie_of :: "subject_trie option \<Rightarrow> bytes list \<Rightarrow> bool" where
  "trie_of trie ps \<longleftrightarrow> (\<exists>tr. trie = Some tr \<and> trie_holds tr (set (zip ps [0..<length ps])))"

definition rep_pat :: "match_table \<Rightarrow> routes \<Rightarrow> bool" where
  "rep_pat t S \<longleftrightarrow>
    pattern_entries t = map snd (patterns t) \<and> trie_of (pattern_trie t) (map fst (patterns t)) \<and>
    (\<forall>(p, e) \<in> set (patterns t). validate_pattern p = Inr () \<and> has_wildcard p) \<and>
    (\<lambda>(p, e). (p, me_key e)) ` set (patterns t) = {(f, k). (Some f, k) \<in> S \<and> has_wildcard f}"

definition mt_rep :: "(bytes \<Rightarrow> u32) \<Rightarrow> bytes set \<Rightarrow> match_table \<Rightarrow> routes \<Rightarrow> bool" where
  "mt_rep hash F t S \<longleftrightarrow> rep_wf F S \<and> rep_catch t S \<and> rep_exact hash F t S \<and> rep_pat t S"

lemma me_eq_key: "me_eq a b \<longleftrightarrow> me_key a = me_key b"
  by (simp add: me_eq_def me_key_def)

lemma keys_simps [simp]:
  "keys [] = {}" "keys (e # es) = insert (me_key e) (keys es)" "keys (es @ es') = keys es \<union> keys es'"
  by (auto simp: keys_def)

lemma hs_contains_keys: "hs_contains s e \<longleftrightarrow> me_key e \<in> keys s"
  by (auto simp: hs_contains_def keys_def list_ex_iff me_eq_key)

lemma hs_insert_keys [simp]:
  "keys (fst (hs_insert s e)) = insert (me_key e) (keys s)"
  "snd (hs_insert s e) \<longleftrightarrow> me_key e \<notin> keys s"
  by (auto simp: hs_insert_def hs_contains_keys)

lemma hs_remove_keys [simp]: "keys (hs_remove s e) = keys s - {me_key e}"
  by (auto simp: hs_remove_def keys_def me_eq_key)

lemma keys_filter_sub:
  "keys (filter (\<lambda>e. me_subscription_id e \<noteq> sub) es) = {k \<in> keys es. key_sub k \<noteq> sub}"
  by (auto simp: keys_def me_key_def)

lemma key_sub_me [simp]: "key_sub (me_key e) = me_subscription_id e"
  by (simp add: me_key_def)

lemma key_conn_me [simp]: "key_conn (me_key e) = me_connection_id e"
  by (simp add: me_key_def)

lemma mt_rep_new: "mt_rep hash F match_table_new {}"
  using trie_ix.new_holds
  by (auto simp: mt_rep_def rep_wf_def rep_catch_def rep_exact_def rep_pat_def match_table_new_def
      get_or_def literals_at_def trie_of_def)

lemma add_catch_all_sel:
  "keys (catch_all_dedup (add_catch_all e t)) = insert (me_key e) (keys (catch_all_dedup t))"
  "keys (catch_all_dedup t) = keys (catch_all t) \<Longrightarrow>
    keys (catch_all (add_catch_all e t)) = insert (me_key e) (keys (catch_all t))"
  "exact (add_catch_all e t) = exact t" "exact_dedup (add_catch_all e t) = exact_dedup t"
  "exact_subjects (add_catch_all e t) = exact_subjects t" "patterns (add_catch_all e t) = patterns t"
  "pattern_trie (add_catch_all e t) = pattern_trie t"
  "pattern_entries (add_catch_all e t) = pattern_entries t"
  by (simp_all add: add_catch_all_def Let_def case_prod_beta insert_absorb)

definition sub_conn_ok :: "match_entry \<Rightarrow> routes \<Rightarrow> bool" where
  "sub_conn_ok e S \<longleftrightarrow>
    (\<forall>fo k. (fo, k) \<in> S \<longrightarrow> key_sub k = me_subscription_id e \<longrightarrow> key_conn k = me_connection_id e)"

lemma rep_wf_insert:
  assumes "rep_wf F S" "sub_conn_ok e S"
    "\<And>f. fo = Some f \<Longrightarrow> validate_pattern f = Inr () \<and> (\<not> has_wildcard f \<longrightarrow> f \<in> F)"
  shows "rep_wf F (insert (fo, me_key e) S)"
proof -
  have old: "key_conn k = key_conn k'"
    if "(f1, k) \<in> S" "(f2, k') \<in> S" "key_sub k = key_sub k'" for f1 k f2 k'
    using assms(1) that unfolding rep_wf_def by blast
  have new: "key_conn k = me_connection_id e" if "(f1, k) \<in> S" "key_sub k = me_subscription_id e" for f1 k
    using assms(2) that unfolding sub_conn_ok_def by blast
  show ?thesis
    unfolding rep_wf_def
  proof (intro conjI allI impI)
    fix f k
    assume "(Some f, k) \<in> insert (fo, me_key e) S"
    then show "validate_pattern f = Inr ()" "\<not> has_wildcard f \<Longrightarrow> f \<in> F"
      using assms(1,3) unfolding rep_wf_def by auto
  next
    fix f1 k f2 k'
    assume "(f1, k) \<in> insert (fo, me_key e) S" "(f2, k') \<in> insert (fo, me_key e) S"
      "key_sub k = key_sub k'"
    then show "key_conn k = key_conn k'"
      using new [of f1 k] new [of f2 k'] old [of f1 k f2 k'] by (elim insertE) simp_all
  qed
qed

lemma mt_rep_add_catch_all:
  assumes "mt_rep hash F t S" "sub_conn_ok e S"
  shows "mt_rep hash F (add_catch_all e t) (insert (None, me_key e) S)"
  using assms rep_wf_insert [of F S e None]
  by (auto simp: mt_rep_def rep_catch_def rep_exact_def rep_pat_def literals_at_def add_catch_all_sel)

lemma add_exact_sel:
  "exact_dedup (add_exact h f e t) =
     hm_insert h (fst (hs_insert (get_or (exact_dedup t) h []) e)) (exact_dedup t)"
  "exact (add_exact h f e t) =
     (if me_key e \<notin> keys (get_or (exact_dedup t) h [])
      then hm_insert h (get_or (exact t) h [] @ [e]) (exact t) else exact t)"
  "exact_subjects (add_exact h f e t) =
     hm_insert h (get_or (exact_subjects t) h f) (exact_subjects t)"
  "catch_all (add_exact h f e t) = catch_all t"
  "catch_all_dedup (add_exact h f e t) = catch_all_dedup t" "patterns (add_exact h f e t) = patterns t"
  "pattern_trie (add_exact h f e t) = pattern_trie t"
  "pattern_entries (add_exact h f e t) = pattern_entries t"
  by (simp_all add: add_exact_def Let_def case_prod_beta)

lemma literals_at_insert:
  "\<not> has_wildcard f \<Longrightarrow> literals_at hash (insert (Some f, k) S) h =
    (if h = hash f then insert k (literals_at hash S h) else literals_at hash S h)"
  by (auto simp: literals_at_def)

lemma rep_exact_add:
  assumes "rep_exact hash F t S" "\<not> has_wildcard f" "f \<in> F"
  shows "rep_exact hash F (add_exact (hash f) f e t) (insert (Some f, me_key e) S)"
proof -
  let ?t = "add_exact (hash f) f e t"
  note r = assms(1) [unfolded rep_exact_def]
  have "keys (get_or (exact ?t) h []) = literals_at hash (insert (Some f, me_key e) S) h" for h
    using r by (simp add: add_exact_sel literals_at_insert [OF assms(2)] get_or_insert insert_absorb)
  moreover have "keys (get_or (exact_dedup ?t) h []) = literals_at hash (insert (Some f, me_key e) S) h" for h
    using r by (simp add: add_exact_sel literals_at_insert [OF assms(2)] get_or_insert)
  moreover have "f' \<in> F \<and> hash f' = h" if "hm_get (exact_subjects ?t) h = Some f'" for h f'
    using r that assms(3) by (auto simp: add_exact_sel hm_get_insert get_or_def split: if_splits option.splits)
  moreover have "hm_get (exact_subjects ?t) h \<noteq> None" if "hm_get (exact ?t) h \<noteq> None" for h
    using r that by (auto simp: add_exact_sel hm_get_insert split: if_splits)
  moreover have "hm_ok (exact ?t)" "hm_ok (exact_dedup ?t)" "hm_ok (exact_subjects ?t)"
    using r by (simp_all add: add_exact_sel hm_ok_insert)
  ultimately show ?thesis unfolding rep_exact_def by blast
qed

lemma mt_rep_add_exact:
  assumes "mt_rep hash F t S" "sub_conn_ok e S" "\<not> has_wildcard f" "f \<in> F" "validate_pattern f = Inr ()"
  shows "mt_rep hash F (add_exact (hash f) f e t) (insert (Some f, me_key e) S)"
proof -
  have "rep_catch (add_exact (hash f) f e t) (insert (Some f, me_key e) S)"
    using assms(1) by (simp add: mt_rep_def rep_catch_def add_exact_sel)
  moreover have "rep_pat (add_exact (hash f) f e t) (insert (Some f, me_key e) S)"
  proof -
    have "{(f', k). (Some f', k) \<in> insert (Some f, me_key e) S \<and> has_wildcard f'} =
      {(f', k). (Some f', k) \<in> S \<and> has_wildcard f'}" using assms(3) by auto
    then show ?thesis using assms(1) by (simp add: mt_rep_def rep_pat_def add_exact_sel)
  qed
  ultimately show ?thesis
    using assms rep_wf_insert [of F S e "Some f"] rep_exact_add [OF _ assms(3,4)]
    by (simp add: mt_rep_def)
qed

lemma trie_of_snoc:
  assumes "trie_of trie ps" "validate_pattern p = Inr ()"
  shows "trie_of (Option.bind trie (\<lambda>tr. trie_insert tr p (length ps))) (ps @ [p])"
proof -
  obtain tr where tr: "trie = Some tr" "trie_holds tr (set (zip ps [0..<length ps]))"
    using assms(1) by (auto simp: trie_of_def)
  have "set (zip (ps @ [p]) [0..<length (ps @ [p])]) = insert (p, length ps) (set (zip ps [0..<length ps]))"
    by simp
  then show ?thesis
    using trie_ix.insert_holds [OF tr(2) assms(2), of "length ps"] tr(1)
    by (auto simp: trie_of_def)
qed

lemma mt_rep_add_pattern:
  assumes "mt_rep hash F t S" "sub_conn_ok e S" "has_wildcard f" "validate_pattern f = Inr ()"
  shows "mt_rep hash F (add_pattern f e t) (insert (Some f, me_key e) S)"
proof -
  have r: "rep_catch t S" "rep_exact hash F t S" "rep_pat t S" "rep_wf F S"
    using assms(1) by (auto simp: mt_rep_def)
  have "literals_at hash (insert (Some f, me_key e) S) = literals_at hash S"
    using assms(3) by (auto simp: literals_at_def fun_eq_iff)
  then have "rep_exact hash F (add_pattern f e t) (insert (Some f, me_key e) S)"
    using r(2) by (simp add: rep_exact_def add_pattern_def)
  moreover have "rep_catch (add_pattern f e t) (insert (Some f, me_key e) S)"
    using r(1) by (simp add: rep_catch_def add_pattern_def)
  moreover have "rep_pat (add_pattern f e t) (insert (Some f, me_key e) S)"
  proof -
    have "trie_of (pattern_trie (add_pattern f e t)) (map fst (patterns (add_pattern f e t)))"
      using trie_of_snoc [of "pattern_trie t" "map fst (patterns t)" f] r(3) assms(4)
      by (simp add: add_pattern_def rep_pat_def)
    moreover have "{(f', k). (Some f', k) \<in> insert (Some f, me_key e) S \<and> has_wildcard f'} =
      insert (f, me_key e) {(f', k). (Some f', k) \<in> S \<and> has_wildcard f'}" using assms(3) by auto
    ultimately show ?thesis
      using r(3) assms(3,4) by (simp add: rep_pat_def add_pattern_def)
  qed
  ultimately show ?thesis
    using r(4) rep_wf_insert [of F S e "Some f"] assms(2-4) by (simp add: mt_rep_def)
qed

text \<open>Removal.\<close>

lemma hm_get_retain:
  assumes "hm_ok m"
  shows "hm_get (retain_buckets sub m) h =
    (case hm_get m h of None \<Rightarrow> None
     | Some es \<Rightarrow> if filter (\<lambda>e. me_subscription_id e \<noteq> sub) es = [] then None
                 else Some (filter (\<lambda>e. me_subscription_id e \<noteq> sub) es))"
  using assms
proof (induction m)
  case (Cons x m)
  have "hm_get m h = None" if "fst x = h"
    using Cons.prems that by (auto simp: hm_ok_def hm_get_def map_of_eq_None_iff)
  then show ?case
    using Cons by (cases x) (auto simp: retain_buckets_def hm_ok_def hm_get_def split: option.splits)
qed (simp add: retain_buckets_def)

lemma get_or_retain:
  "hm_ok m \<Longrightarrow> get_or (retain_buckets sub m) h [] =
    filter (\<lambda>e. me_subscription_id e \<noteq> sub) (get_or m h [])"
  by (simp add: get_or_def hm_get_retain split: option.splits)

lemma hm_ok_retain: "hm_ok m \<Longrightarrow> hm_ok (retain_buckets sub m)"
  unfolding hm_ok_def retain_buckets_def
  by (induction m) (auto simp: rev_image_eqI)

lemma hm_get_filter_key: "hm_get (filter (\<lambda>(h, _). Q h) m) h = (if Q h then hm_get m h else None)"
  by (induction m) (auto simp: hm_get_def)

lemma hm_ok_filter: "hm_ok m \<Longrightarrow> hm_ok (filter P m)"
  by (simp add: hm_ok_def distinct_map_filter)

lemma trie_clear_new: "trie_clear tr = trie_new"
  by (simp add: trie_clear_def trie_new_def)

lemma trie_of_rebuild:
  assumes "trie \<noteq> None" "\<forall>p \<in> set ps. validate_pattern p = Inr ()"
  shows "trie_of (rebuild_trie ps trie) ps"
proof -
  have "\<forall>(p, i) \<in> set (zip ps [0..<length ps]). validate_pattern p = Inr ()"
    using assms(2) by (auto dest: set_zip_leftD)
  then show ?thesis
    using trie_ix.build_holds [OF trie_ix.new_holds] assms(1)
    by (fastforce simp: rebuild_trie_def trie_of_def trie_clear_new)
qed

definition without :: "u32 \<Rightarrow> routes \<Rightarrow> routes" where
  "without sub S = {x \<in> S. key_sub (snd x) \<noteq> sub}"

lemma mt_remove_sel:
  "catch_all (mt_remove_subscription sub t) = filter (\<lambda>e. me_subscription_id e \<noteq> sub) (catch_all t)"
  "catch_all_dedup (mt_remove_subscription sub t) =
     filter (\<lambda>e. me_subscription_id e \<noteq> sub) (catch_all_dedup t)"
  "exact (mt_remove_subscription sub t) = retain_buckets sub (exact t)"
  "exact_dedup (mt_remove_subscription sub t) = retain_buckets sub (exact_dedup t)"
  "exact_subjects (mt_remove_subscription sub t) =
     filter (\<lambda>(h, _). hm_contains (retain_buckets sub (exact t)) h) (exact_subjects t)"
  "patterns (mt_remove_subscription sub t) =
     filter (\<lambda>(_, e). me_subscription_id e \<noteq> sub) (patterns t)"
  by (simp_all add: mt_remove_subscription_def rebuild_pattern_trie_def Let_def)

lemma mt_remove_rep_pat:
  assumes "rep_pat t S"
  shows "rep_pat (mt_remove_subscription sub t) (without sub S)"
proof -
  let ?t = "mt_remove_subscription sub t" and ?P = "\<lambda>(p :: bytes, e). me_subscription_id e \<noteq> sub"
  note r = assms [unfolded rep_pat_def]
  have tr: "pattern_entries ?t = map snd (filter ?P (patterns t)) \<and>
      trie_of (pattern_trie ?t) (map fst (filter ?P (patterns t)))"
  proof (cases "list_ex (\<lambda>(_, e). me_subscription_id e = sub) (patterns t)")
    case True
    then have "pattern_entries ?t = map snd (filter ?P (patterns t))"
      "pattern_trie ?t = rebuild_trie (map fst (filter ?P (patterns t))) (pattern_trie t)"
      by (simp_all add: mt_remove_subscription_def rebuild_pattern_trie_def Let_def)
    moreover have "pattern_trie t \<noteq> None" using r by (auto simp: trie_of_def)
    moreover have "\<forall>p \<in> set (map fst (filter ?P (patterns t))). validate_pattern p = Inr ()"
      using r by auto
    ultimately show ?thesis using trie_of_rebuild by metis
  next
    case False
    then have "filter ?P (patterns t) = patterns t"
      by (auto simp: list_ex_iff filter_id_conv)
    then show ?thesis
      using r False by (simp add: mt_remove_subscription_def Let_def)
  qed
  have "(\<lambda>(p, e). (p, me_key e)) ` set (filter ?P (patterns t)) =
      {x \<in> (\<lambda>(p, e). (p, me_key e)) ` set (patterns t). key_sub (snd x) \<noteq> sub}"
    by force
  also have "\<dots> = {(f, k). (Some f, k) \<in> without sub S \<and> has_wildcard f}"
    using r by (auto simp: without_def)
  finally show ?thesis
    using tr r unfolding rep_pat_def mt_remove_sel by auto
qed

lemma mt_rep_remove:
  assumes "mt_rep hash F t S"
  shows "mt_rep hash F (mt_remove_subscription sub t) (without sub S)"
proof -
  have r: "rep_catch t S" "rep_exact hash F t S" "rep_pat t S" "rep_wf F S"
    using assms by (auto simp: mt_rep_def)
  have "literals_at hash (without sub S) h = {k \<in> literals_at hash S h. key_sub k \<noteq> sub}" for h
    by (auto simp: literals_at_def without_def)
  then have "rep_exact hash F (mt_remove_subscription sub t) (without sub S)"
    using r(2) unfolding rep_exact_def mt_remove_sel
    by (auto simp: get_or_retain keys_filter_sub hm_ok_retain hm_ok_filter hm_get_filter_key
        hm_contains_get hm_get_retain split: option.splits if_splits)
  moreover have "rep_catch (mt_remove_subscription sub t) (without sub S)"
    using r(1) unfolding rep_catch_def mt_remove_sel keys_filter_sub by (auto simp: without_def)
  moreover have "rep_wf F (without sub S)"
    using r(4) unfolding rep_wf_def without_def by blast
  ultimately show ?thesis
    using mt_remove_rep_pat [OF r(3)] by (simp add: mt_rep_def)
qed

text \<open>Binding.\<close>

definition rebound :: "u32 \<Rightarrow> u64 \<Rightarrow> routes \<Rightarrow> routes" where
  "rebound sub conn S = map_prod id (rekey sub conn) ` S"

lemma me_key_rebind [simp]: "me_key (rebind sub conn e) = rekey sub conn (me_key e)"
  by (simp add: rebind_def rekey_def me_key_def)

lemma rebind_sel [simp]: "me_subscription_id (rebind sub conn e) = me_subscription_id e"
  "me_connection_id (rebind sub conn e) = (if me_subscription_id e = sub then conn else me_connection_id e)"
  by (simp_all add: rebind_def)

lemma keys_map_rebind [simp]: "keys (map (rebind sub conn) es) = rekey sub conn ` keys es"
  by (simp add: keys_def image_image)

lemma rekey_simps [simp]: "key_sub (rekey sub conn k) = key_sub k"
  "key_conn (rekey sub conn k) = (if key_sub k = sub then conn else key_conn k)"
  by (simp_all add: rekey_def)

lemma rekey_id: "(\<And>k. k \<in> K \<Longrightarrow> key_sub k = sub \<Longrightarrow> key_conn k = conn) \<Longrightarrow> rekey sub conn ` K = K"
  by (rule image_cong [of K K _ "\<lambda>k. k", simplified]) (auto simp: rekey_def intro: mkey.expand)

lemma hm_get_map_val: "hm_get (map (\<lambda>(h, es). (h, g es)) m) h = map_option g (hm_get m h)"
  by (induction m) (auto simp: hm_get_def)

lemma hm_ok_map_val: "hm_ok (map (\<lambda>(h, es). (h, g es)) m) = hm_ok m"
proof -
  have "map fst (map (\<lambda>(h, es). (h, g es)) m) = map fst m" by auto
  then show ?thesis by (simp only: hm_ok_def)
qed

lemma get_or_map_val: "g d = d \<Longrightarrow> get_or (map (\<lambda>(h, es). (h, g es)) m) h d = g (get_or m h d)"
  by (simp add: get_or_def hm_get_map_val split: option.splits)

lemma update_set_keys:
  assumes "\<forall>e \<in> set es. me_subscription_id e = sub \<longrightarrow> me_connection_id e \<noteq> old"
  shows "keys (update_set_for sub old es D) =
    keys D - {rekey sub old k | k. k \<in> keys es \<and> key_sub k = sub} \<union> {k \<in> keys es. key_sub k = sub}"
  using assms
proof (induction es arbitrary: D)
  case (Cons e es)
  show ?case
  proof (cases "me_subscription_id e = sub")
    case True
    let ?D = "fst (hs_insert (hs_remove D (e\<lparr>me_connection_id := old\<rparr>)) e)"
    have o: "me_key (e\<lparr>me_connection_id := old\<rparr>) = rekey sub old (me_key e)"
      using True by (simp add: rekey_def me_key_def)
    have ne: "me_key e \<noteq> rekey sub old k" if "key_sub k = sub" for k
      using Cons.prems True that by (metis key_conn_me list.set_intros(1) rekey_simps(2))
    have "keys (update_set_for sub old (e # es) D) = keys (update_set_for sub old es ?D)"
      using True by (simp add: update_set_for_def)
    also have "\<dots> = (insert (me_key e) (keys D - {rekey sub old (me_key e)})) -
        {rekey sub old k | k. k \<in> keys es \<and> key_sub k = sub} \<union> {k \<in> keys es. key_sub k = sub}"
      using Cons by (simp add: o)
    finally show ?thesis
      using True ne ne [symmetric] by auto
  next
    case False
    then show ?thesis using Cons by (auto simp: update_set_for_def)
  qed
qed (simp add: update_set_for_def)

lemma rekey_other: "key_sub k \<noteq> sub \<Longrightarrow> rekey sub conn k = k"
  by (simp add: rekey_def)

lemma rekey_back: "key_sub k = sub \<Longrightarrow> rekey sub (key_conn k) (rekey sub conn k) = k"
  by (cases k) (simp add: rekey_def)

lemma rekey_image_sub:
  assumes "\<And>k. k \<in> K \<Longrightarrow> key_sub k = sub \<Longrightarrow> key_conn k = old"
  shows "{rekey sub old k | k. k \<in> rekey sub conn ` K \<and> key_sub k = sub} = {k \<in> K. key_sub k = sub}"
    (is "?l = ?r")
proof
  show "?l \<subseteq> ?r"
  proof
    fix x assume "x \<in> ?l"
    then obtain k' where k': "x = rekey sub old k'" "k' \<in> rekey sub conn ` K" "key_sub k' = sub"
      by blast
    then obtain k where k: "k' = rekey sub conn k" "k \<in> K" by blast
    have "key_sub k = sub" using k(1) k'(3) rekey_simps(1) [of sub conn k] by metis
    then show "x \<in> ?r"
      using assms [OF k(2)] rekey_back [of k sub conn] k k'(1) by simp
  qed
  show "?r \<subseteq> ?l"
  proof
    fix k assume "k \<in> ?r"
    then have "k = rekey sub old (rekey sub conn k)" "rekey sub conn k \<in> rekey sub conn ` K"
      "key_sub (rekey sub conn k) = sub"
      using assms [of k] rekey_back [of k sub conn] by simp_all
    then show "k \<in> ?l" by blast
  qed
qed

lemma rekey_image_split:
  "rekey sub conn ` K = (K - {k \<in> K. key_sub k = sub}) \<union> {k \<in> rekey sub conn ` K. key_sub k = sub}"
    (is "?l = ?r")
proof
  show "?l \<subseteq> ?r"
  proof
    fix x assume "x \<in> ?l"
    then obtain k where k: "x = rekey sub conn k" "k \<in> K" by blast
    show "x \<in> ?r"
    proof (cases "key_sub k = sub")
      case True
      then show ?thesis using k by simp
    next
      case False
      then show ?thesis using k rekey_other [OF False, of conn] by simp
    qed
  qed
  show "?r \<subseteq> ?l"
  proof
    fix x assume "x \<in> ?r"
    then consider "x \<in> ?l" | "x \<in> K" "key_sub x \<noteq> sub" by blast
    then show "x \<in> ?l" using rekey_other [of x sub conn] by cases (simp_all add: rev_image_eqI)
  qed
qed

lemma update_set_rebound:
  assumes "keys D = keys es" "\<And>k. k \<in> keys es \<Longrightarrow> key_sub k = sub \<Longrightarrow> key_conn k = old" "conn \<noteq> old"
  shows "keys (update_set_for sub old (map (rebind sub conn) es) D) = rekey sub conn ` keys es"
proof -
  have "\<forall>e \<in> set (map (rebind sub conn) es). me_subscription_id e = sub \<longrightarrow> me_connection_id e \<noteq> old"
    using assms(3) by simp
  from update_set_keys [OF this, of D]
  have u: "keys (update_set_for sub old (map (rebind sub conn) es) D) =
    keys es - {rekey sub old k | k. k \<in> rekey sub conn ` keys es \<and> key_sub k = sub} \<union>
      {k \<in> rekey sub conn ` keys es. key_sub k = sub}"
    unfolding keys_map_rebind assms(1) .
  have "{rekey sub old k | k. k \<in> rekey sub conn ` keys es \<and> key_sub k = sub} =
      {k \<in> keys es. key_sub k = sub}"
    by (rule rekey_image_sub) (rule assms(2))
  then show ?thesis
    using u rekey_image_split [of sub conn "keys es"] by argo
qed

lemma hm_get_update_buckets:
  assumes "hm_ok m"
  shows "hm_get (fold (\<lambda>(h, es) d. case hm_get d h of
           Some s \<Rightarrow> hm_insert h (U es s) d | None \<Rightarrow> d) m d) h =
    (case hm_get m h of None \<Rightarrow> hm_get d h | Some es \<Rightarrow> map_option (U es) (hm_get d h))"
  using assms
proof (induction m arbitrary: d)
  case (Cons x m)
  obtain k es where x: "x = (k, es)" by fastforce
  have ok: "hm_ok m" and k: "hm_get m k = None"
    using Cons.prems x by (auto simp: hm_ok_def hm_get_def map_of_eq_None_iff)
  have g: "hm_get (x # m) h = (if h = k then Some es else hm_get m h)"
    by (simp add: x hm_get_def)
  show ?case
    using Cons.IH [OF ok] k x unfolding g
    by (auto simp: hm_get_insert split: option.splits)
qed simp

lemma hm_ok_update_buckets:
  "hm_ok d \<Longrightarrow> hm_ok (fold (\<lambda>(h, es) d. case hm_get d h of
     Some s \<Rightarrow> hm_insert h (U es s) d | None \<Rightarrow> d) m d)"
  by (induction m arbitrary: d) (auto simp: hm_ok_insert split: option.splits)

lemma bind_sel:
  "exact (bind_subscription sub conn t) = map (\<lambda>(h, es). (h, map (rebind sub conn) es)) (exact t)"
  "exact_subjects (bind_subscription sub conn t) = exact_subjects t"
  "catch_all (bind_subscription sub conn t) = map (rebind sub conn) (catch_all t)"
  "patterns (bind_subscription sub conn t) = map (\<lambda>(p, e). (p, rebind sub conn e)) (patterns t)"
  "pattern_entries (bind_subscription sub conn t) = map (rebind sub conn) (pattern_entries t)"
  "pattern_trie (bind_subscription sub conn t) = pattern_trie t"
  by (simp_all add: bind_subscription_def update_dedup_for_subscription_def Let_def split: option.splits)

lemma literals_at_rebound: "literals_at hash (rebound sub conn S) h = rekey sub conn ` literals_at hash S h"
  by (force simp: literals_at_def rebound_def)

text \<open>The deduplication sets follow a binding: either nothing changes for the
  subscription, or its old identities are replaced by the new ones.\<close>

definition held :: "match_table \<Rightarrow> match_entry list" where
  "held t = catch_all t @ concat (map snd (exact t))"

lemma held_bucket:
  assumes "hm_ok (exact t)" "e \<in> set (get_or (exact t) h [])"
  shows "e \<in> set (held t)"
proof -
  obtain es where "hm_get (exact t) h = Some es" "e \<in> set es"
    using assms(2) by (cases "hm_get (exact t) h") (auto simp: get_or_def)
  then have "(h, es) \<in> set (exact t)" "e \<in> set es"
    using assms(1) by (simp_all add: hm_get_in_set)
  then show ?thesis unfolding held_def by force
qed

definition conn_in :: "match_table \<Rightarrow> u32 \<Rightarrow> u64 \<Rightarrow> bool" where
  "conn_in t sub conn \<longleftrightarrow>
    (\<forall>e \<in> set (held t). me_subscription_id e = sub \<longrightarrow> me_connection_id e = conn)"

lemma bind_dedup_None:
  assumes "find (\<lambda>e. me_subscription_id e = sub) (held t) = None"
  shows "catch_all_dedup (bind_subscription sub conn t) = catch_all_dedup t"
    "exact_dedup (bind_subscription sub conn t) = exact_dedup t"
  using assms by (simp_all add: bind_subscription_def held_def Let_def)

lemma bind_dedup_Some:
  assumes "find (\<lambda>e. me_subscription_id e = sub) (held t) = Some e"
  shows "catch_all_dedup (bind_subscription sub conn t) =
      (if me_connection_id e = conn then catch_all_dedup t
       else update_set_for sub (me_connection_id e) (map (rebind sub conn) (catch_all t)) (catch_all_dedup t))"
    "exact_dedup (bind_subscription sub conn t) =
      (if me_connection_id e = conn then exact_dedup t
       else fold (\<lambda>(h, es) d. case hm_get d h of
           Some s \<Rightarrow> hm_insert h (update_set_for sub (me_connection_id e) es s) d | None \<Rightarrow> d)
         (map (\<lambda>(h, es). (h, map (rebind sub conn) es)) (exact t)) (exact_dedup t))"
  using assms
  by (simp_all add: bind_subscription_def update_dedup_for_subscription_def held_def Let_def)

lemma bind_dedup_cases:
  assumes old: "conn_in t sub old"
  shows "conn_in t sub conn \<and>
      catch_all_dedup (bind_subscription sub conn t) = catch_all_dedup t \<and>
      exact_dedup (bind_subscription sub conn t) = exact_dedup t \<or>
    conn \<noteq> old \<and>
      catch_all_dedup (bind_subscription sub conn t) =
         update_set_for sub old (map (rebind sub conn) (catch_all t)) (catch_all_dedup t) \<and>
      exact_dedup (bind_subscription sub conn t) = fold (\<lambda>(h, es) d. case hm_get d h of
           Some s \<Rightarrow> hm_insert h (update_set_for sub old es s) d | None \<Rightarrow> d)
         (map (\<lambda>(h, es). (h, map (rebind sub conn) es)) (exact t)) (exact_dedup t)"
proof (cases "find (\<lambda>e. me_subscription_id e = sub) (held t)")
  case None
  then have "conn_in t sub conn" by (auto simp: find_None_iff conn_in_def)
  then show ?thesis using bind_dedup_None [OF None] by blast
next
  case (Some e)
  then have "me_connection_id e = old"
    using old by (auto simp: find_Some_iff conn_in_def)
  then show ?thesis
    using bind_dedup_Some [OF Some, of conn] old by auto
qed

lemma conn_in_catch:
  "conn_in t sub old \<Longrightarrow> k \<in> keys (catch_all t) \<Longrightarrow> key_sub k = sub \<Longrightarrow> key_conn k = old"
  by (auto simp: keys_def held_def conn_in_def)

lemma conn_in_bucket:
  assumes "conn_in t sub old" "hm_ok (exact t)" "k \<in> keys (get_or (exact t) h [])" "key_sub k = sub"
  shows "key_conn k = old"
  using assms held_bucket [OF assms(2)] by (auto simp: keys_def conn_in_def)

lemma bind_dedup_catch:
  assumes old: "conn_in t sub old" and c: "keys (catch_all_dedup t) = keys (catch_all t)"
  shows "keys (catch_all_dedup (bind_subscription sub conn t)) = rekey sub conn ` keys (catch_all t)"
proof -
  have "conn_in t sub conn \<Longrightarrow> rekey sub conn ` keys (catch_all t) = keys (catch_all t)"
    using conn_in_catch by (intro rekey_id) blast
  moreover have "conn \<noteq> old \<Longrightarrow>
    keys (update_set_for sub old (map (rebind sub conn) (catch_all t)) (catch_all_dedup t)) =
      rekey sub conn ` keys (catch_all t)"
    using conn_in_catch [OF old] by (intro update_set_rebound c)
  ultimately show ?thesis
    using bind_dedup_cases [OF old, of conn] c by (elim disjE conjE) simp_all
qed

lemma bind_dedup_exact:
  assumes old: "conn_in t sub old" and ok: "hm_ok (exact t)"
    and d: "keys (get_or (exact_dedup t) h []) = keys (get_or (exact t) h [])"
  shows "keys (get_or (exact_dedup (bind_subscription sub conn t)) h []) =
      rekey sub conn ` keys (get_or (exact t) h [])"
  using bind_dedup_cases [OF old, of conn]
proof (elim disjE conjE)
  assume a: "conn_in t sub conn" "exact_dedup (bind_subscription sub conn t) = exact_dedup t"
  have "rekey sub conn ` keys (get_or (exact t) h []) = keys (get_or (exact t) h [])"
    using conn_in_bucket [OF a(1) ok] by (intro rekey_id) blast
  then show ?thesis using d a(2) by simp
next
  assume a: "conn \<noteq> old"
    "exact_dedup (bind_subscription sub conn t) = fold (\<lambda>(h, es) d. case hm_get d h of
           Some s \<Rightarrow> hm_insert h (update_set_for sub old es s) d | None \<Rightarrow> d)
         (map (\<lambda>(h, es). (h, map (rebind sub conn) es)) (exact t)) (exact_dedup t)"
  have "keys (update_set_for sub old (map (rebind sub conn) (get_or (exact t) h [])) (get_or (exact_dedup t) h [])) =
      rekey sub conn ` keys (get_or (exact t) h [])"
    using conn_in_bucket [OF old ok] a(1) by (intro update_set_rebound d)
  moreover have "hm_get (exact_dedup (bind_subscription sub conn t)) h =
    (case hm_get (exact t) h of None \<Rightarrow> hm_get (exact_dedup t) h
     | Some es \<Rightarrow> map_option (update_set_for sub old (map (rebind sub conn) es)) (hm_get (exact_dedup t) h))"
    unfolding a(2) using ok
    by (subst hm_get_update_buckets) (simp_all add: hm_ok_map_val hm_get_map_val split: option.splits)
  ultimately show ?thesis
    using d by (cases "hm_get (exact t) h"; cases "hm_get (exact_dedup t) h")
      (auto simp: get_or_def update_set_for_def)
qed

lemma mt_rep_conn_in:
  assumes "mt_rep hash F t S"
  shows "\<exists>old. conn_in t sub old"
proof -
  have r: "rep_catch t S" "rep_exact hash F t S" "rep_wf F S"
    using assms by (auto simp: mt_rep_def)
  have in_S: "\<exists>fo. (fo, me_key e) \<in> S" if e: "e \<in> set (held t)" for e
  proof (cases "e \<in> set (catch_all t)")
    case True
    then have "me_key e \<in> keys (catch_all t)" by (simp add: keys_def)
    then show ?thesis using r(1) unfolding rep_catch_def by blast
  next
    case False
    then obtain h es where "(h, es) \<in> set (exact t)" "e \<in> set es"
      using e by (auto simp: held_def)
    then have "me_key e \<in> keys (get_or (exact t) h [])"
      using r(2) hm_get_in_set [of "exact t" h es] by (simp add: rep_exact_def get_or_def keys_def)
    then show ?thesis using r(2) unfolding rep_exact_def literals_at_def by blast
  qed
  show ?thesis
  proof (cases "\<exists>e \<in> set (held t). me_subscription_id e = sub")
    case True
    then obtain e0 where e0: "e0 \<in> set (held t)" "me_subscription_id e0 = sub" by blast
    have "me_connection_id e = me_connection_id e0" if "e \<in> set (held t)" "me_subscription_id e = sub" for e
      using in_S [OF that(1)] in_S [OF e0(1)] r(3) that(2) e0(2) unfolding rep_wf_def
      by (metis key_conn_me key_sub_me)
    then show ?thesis unfolding conn_in_def by blast
  next
    case False
    then show ?thesis unfolding conn_in_def by blast
  qed
qed

lemma rebound_iff:
  "(fo, k) \<in> rebound sub conn S \<longleftrightarrow> (\<exists>k'. (fo, k') \<in> S \<and> k = rekey sub conn k')"
  by (force simp: rebound_def)

lemma rep_wf_rebound: "rep_wf F S \<Longrightarrow> rep_wf F (rebound sub conn S)"
  unfolding rep_wf_def rebound_iff by (metis rekey_simps)

lemma rep_pat_rebound:
  assumes "rep_pat t S"
  shows "rep_pat (bind_subscription sub conn t) (rebound sub conn S)"
proof -
  let ?g = "\<lambda>(p :: bytes, e). (p, rebind sub conn e)"
  have f: "map fst (map ?g ps) = map fst ps" "map snd (map ?g ps) = map (rebind sub conn) (map snd ps)" for ps
    by auto
  have "(\<lambda>(p, e). (p, me_key e)) ` ?g ` X = map_prod id (rekey sub conn) ` (\<lambda>(p, e). (p, me_key e)) ` X" for X
    by (force simp: image_image)
  moreover have "map_prod id (rekey sub conn) ` {(f, k). (Some f, k) \<in> S \<and> has_wildcard f} =
    {(f, k). (Some f, k) \<in> rebound sub conn S \<and> has_wildcard f}"
    unfolding rebound_iff by force
  ultimately show ?thesis
    using assms unfolding rep_pat_def bind_sel f set_map by auto
qed

lemma mt_rep_bind:
  assumes "mt_rep hash F t S"
  shows "mt_rep hash F (bind_subscription sub conn t) (rebound sub conn S)"
proof -
  let ?t = "bind_subscription sub conn t"
  have r: "rep_catch t S" "rep_exact hash F t S" "rep_pat t S" "rep_wf F S"
    using assms by (auto simp: mt_rep_def)
  obtain old where old: "conn_in t sub old" using mt_rep_conn_in [OF assms] by blast
  have "{k. (None, k) \<in> rebound sub conn S} = rekey sub conn ` {k. (None, k) \<in> S}"
    unfolding rebound_iff by blast
  then have "rep_catch ?t (rebound sub conn S)"
    using r(1) bind_dedup_catch [OF old, of conn] by (simp add: rep_catch_def bind_sel)
  moreover have "rep_exact hash F ?t (rebound sub conn S)"
  proof -
    note e = r(2) [unfolded rep_exact_def]
    have "hm_ok (exact_dedup ?t)"
      using bind_dedup_cases [OF old, of conn] e by (auto simp: hm_ok_update_buckets)
    moreover have "keys (get_or (exact_dedup ?t) h []) = literals_at hash (rebound sub conn S) h" for h
      using bind_dedup_exact [OF old, of h conn] e by (simp add: literals_at_rebound)
    moreover have "keys (get_or (exact ?t) h []) = literals_at hash (rebound sub conn S) h" for h
      using e by (simp add: bind_sel get_or_map_val literals_at_rebound)
    ultimately show ?thesis
      using e unfolding rep_exact_def bind_sel by (simp add: hm_ok_map_val hm_get_map_val)
  qed
  ultimately show ?thesis
    using rep_wf_rebound [OF r(4)] rep_pat_rebound [OF r(3)] by (simp add: mt_rep_def)
qed

text \<open>Stamping binding indices and setting limits leave the contents alone.\<close>

lemma me_key_stamp [simp]: "me_key (stamp c n s i e) = me_key e"
  by (simp add: stamp_def me_key_def)

lemma keys_map_stamp [simp]: "keys (map (stamp c n s i) es) = keys es"
  by (simp add: keys_def image_image)

lemma mt_rep_stamp:
  assumes "mt_rep hash F t S"
  shows "mt_rep hash F (set_binding_idx_for c n s i t) S"
proof -
  let ?t = "set_binding_idx_for c n s i t" and ?g = "\<lambda>(p :: bytes, e). (p, stamp c n s i e)"
  have sel: "exact ?t = map (\<lambda>(h, es). (h, map (stamp c n s i) es)) (exact t)"
    "catch_all ?t = map (stamp c n s i) (catch_all t)" "patterns ?t = map ?g (patterns t)"
    "pattern_entries ?t = map (stamp c n s i) (pattern_entries t)"
    "exact_dedup ?t = exact_dedup t" "exact_subjects ?t = exact_subjects t"
    "catch_all_dedup ?t = catch_all_dedup t" "pattern_trie ?t = pattern_trie t"
    by (simp_all add: set_binding_idx_for_def Let_def)
  have f: "map fst (map ?g ps) = map fst ps" "map snd (map ?g ps) = map (stamp c n s i) (map snd ps)" for ps
    by auto
  have "(\<lambda>(p, e). (p, me_key e)) ` ?g ` X = (\<lambda>(p, e). (p, me_key e)) ` X" for X
    by (force simp: image_image)
  then have "rep_pat ?t S"
    using assms unfolding mt_rep_def rep_pat_def sel f set_map by auto
  then show ?thesis
    using assms unfolding mt_rep_def rep_catch_def rep_exact_def sel
    by (simp add: hm_ok_map_val hm_get_map_val get_or_map_val)
qed

lemma mt_rep_limits:
  assumes "mt_rep hash F t S"
  shows "mt_rep hash F (add_max_subject_inflight h p n t) S"
    and "mt_rep hash F (remove_max_subject_inflight h p t) S"
  using assms
  by (simp_all add: mt_rep_def rep_catch_def rep_exact_def rep_pat_def add_max_subject_inflight_def
      remove_max_subject_inflight_def rebuild_limit_trie_def)

end
