(* ===== verification/Match_Queries.thy ===== *)
theory Match_Queries
  imports Match_Table
begin

text \<open>
  What the lookups of \<^verbatim>\<open>match_table.rs\<close> return: the pattern resolution with its two
  deduplication strategies, the verified literal lookup, the subject limits, and
  the routing theorem that puts them together.
\<close>

section \<open>Queries\<close>

text \<open>The linear scan is the reference; the hash-set variant of \<^verbatim>\<open>PERF-9\<close> computes
  the same vector.\<close>

definition push_new :: "match_entry list \<Rightarrow> match_entry list \<Rightarrow> match_entry list" where
  "push_new es out = fold (\<lambda>e out. if me_key e \<in> keys out then out else out @ [e]) es out"

lemma push_new_simps:
  "push_new [] out = out"
  "push_new (e # es) out = push_new es (if me_key e \<in> keys out then out else out @ [e])"
  by (simp_all add: push_new_def)

lemma keys_push_new: "keys (push_new es out) = keys out \<union> keys es"
  by (induction es arbitrary: out) (auto simp: push_new_simps)

lemma distinct_push_new:
  "distinct (map me_key out) \<Longrightarrow> distinct (map me_key (push_new es out))"
proof (induction es arbitrary: out)
  case (Cons e es)
  then show ?case by (simp add: push_new_simps Cons.IH keys_def image_iff)
qed (simp add: push_new_simps)

lemma list_ex_me_eq: "list_ex (me_eq e) out \<longleftrightarrow> me_key e \<in> keys out"
  using hs_contains_keys by (simp add: hs_contains_def)

lemma resolve_linear:
  "\<forall>i \<in> set ids. i < length pes \<Longrightarrow>
    ofold (\<lambda>idx out. case vec_get pes idx of
        None \<Rightarrow> None
      | Some entry \<Rightarrow> Some (if list_ex (me_eq entry) out then out else out @ [entry])) ids out =
    Some (push_new (map (\<lambda>i. pes ! i) ids) out)"
  by (induction ids arbitrary: out) (simp_all add: vec_get_def push_new_simps list_ex_me_eq)

lemma resolve_seen:
  "\<forall>i \<in> set ids. i < length pes \<Longrightarrow> keys seen = keys out \<Longrightarrow>
    map_option snd (ofold (\<lambda>idx (seen, out). case vec_get pes idx of
        None \<Rightarrow> None
      | Some entry \<Rightarrow> (case hs_insert seen entry of (seen', fresh) \<Rightarrow>
          Some (seen', if fresh then out @ [entry] else out))) ids (seen, out)) =
    Some (push_new (map (\<lambda>i. pes ! i) ids) out)"
proof (induction ids arbitrary: seen out)
  case (Cons i ids)
  have i: "vec_get pes i = Some (pes ! i)" and ids: "\<forall>i \<in> set ids. i < length pes"
    using Cons.prems(1) by (simp_all add: vec_get_def)
  show ?case
  proof (cases "me_key (pes ! i) \<in> keys out")
    case True
    then have "hs_insert seen (pes ! i) = (seen, False)"
      using Cons.prems(2) by (simp add: hs_insert_def hs_contains_keys)
    then show ?thesis
      using Cons.IH [OF ids Cons.prems(2)] i True by (simp add: push_new_simps)
  next
    case False
    then have h: "hs_insert seen (pes ! i) = (seen @ [pes ! i], True)"
      using Cons.prems(2) by (simp add: hs_insert_def hs_contains_keys)
    have "keys (seen @ [pes ! i]) = keys (out @ [pes ! i])" using Cons.prems(2) by simp
    from Cons.IH [OF ids this] show ?thesis
      using i False h by (simp add: push_new_simps)
  qed
qed (simp add: push_new_simps)

lemma keys_seen: "keys (fold (\<lambda>e s. fst (hs_insert s e)) es s) = keys s \<union> keys es"
  by (induction es arbitrary: s) auto

lemma resolve_patterns_push_new:
  assumes "rep_pat t S" "clean s"
  shows "\<exists>ids. resolve_patterns_readonly t s out =
      Some (push_new (map (\<lambda>i. snd (patterns t ! i)) ids) out) \<and>
    set ids = {i. i < length (patterns t) \<and> subject_matches (fst (patterns t ! i)) s}"
proof -
  obtain tr where tr: "pattern_trie t = Some tr"
    "trie_holds tr (set (zip (map fst (patterns t)) [0..<length (patterns t)]))"
    using assms(1) by (auto simp: rep_pat_def trie_of_def)
  obtain ids where ids: "find_matches tr s = Some ids"
    "set ids = {i. \<exists>p. (p, i) \<in> set (zip (map fst (patterns t)) [0..<length (patterns t)]) \<and> subject_matches p s}"
    using trie_ix.find_holds [OF tr(2) assms(2)] by blast
  have set: "set ids = {i. i < length (patterns t) \<and> subject_matches (fst (patterns t ! i)) s}"
    unfolding ids(2) by (force simp: in_set_zip)
  have pe: "pattern_entries t = map snd (patterns t)" using assms(1) by (simp add: rep_pat_def)
  have lt: "\<forall>i \<in> set ids. i < length (pattern_entries t)" using set pe by auto
  have m: "map (\<lambda>i. pattern_entries t ! i) ids = map (\<lambda>i. snd (patterns t ! i)) ids"
    using set pe by auto
  have "resolve_patterns_readonly t s out = Some (push_new (map (\<lambda>i. pattern_entries t ! i) ids) out)"
    unfolding resolve_patterns_readonly_def tr(1) bind.simps ids(1) option.case Let_def
    using resolve_linear [OF lt] resolve_seen [OF lt, of "fold (\<lambda>e s. fst (hs_insert s e)) out []" out]
    by (simp add: keys_seen)
  then show ?thesis using set m by auto
qed

text \<open>A literal filter matches its own subject only.\<close>

lemma no_wildcard_toks: "\<not> has_wildcard p \<Longrightarrow> t \<in> set (toks p) \<Longrightarrow> \<not> has_wildcard t"
proof (induction p rule: toks.induct)
  case (1 p)
  have "set (fst (next_token p)) \<subseteq> set p" "set (snd (next_token p)) \<subseteq> set p"
    by (auto simp: next_token_def split: option.splits dest: in_set_takeD in_set_dropD)
  then show ?case
    using 1 by (cases "p = []") (auto simp: has_wildcard_def toks_next [OF _ prod.collapse [symmetric]])
qed

lemma tmatch_literal: "\<forall>p \<in> set ps. \<not> has_wildcard p \<Longrightarrow> tmatch ps ts \<longleftrightarrow> ps = ts"
proof (induction ps ts rule: tmatch.induct)
  case (3 p ps t ts)
  then have "p \<noteq> gt_tok" "p \<noteq> star_tok" by (auto simp: has_wildcard_def gt_tok_def star_tok_def)
  then show ?case using 3 by auto
qed auto

lemma position_Some_nth: "position p xs = Some i \<Longrightarrow> p (xs ! i)"
  by (induction xs arbitrary: i) (auto split: if_splits)

lemma join_toks_inverse: "last s \<noteq> dot \<Longrightarrow> join_toks (toks s) = s"
proof (induction s rule: toks.induct)
  case (1 s)
  show ?case
  proof (cases "position (\<lambda>b. b = dot) s")
    case None
    then have "next_token s = (s, [])" by (simp add: next_token_def)
    then show ?thesis by (cases "s = []") (simp_all add: toks_next)
  next
    case (Some i)
    then have lt: "i < length s" and i: "s ! i = dot"
      by (auto dest: position_Some_lt position_Some_nth)
    then have "s \<noteq> []" by auto
    have e: "next_token s = (take i s, drop (Suc i) s)" using Some by (simp add: next_token_def)
    have s: "s = take i s @ dot # drop (Suc i) s" using id_take_nth_drop [OF lt] i by simp
    have ne: "drop (Suc i) s \<noteq> []"
      using 1(2) s by (metis last_snoc)
    then have "join_toks (toks (drop (Suc i) s)) = drop (Suc i) s"
      using 1(1) [OF \<open>s \<noteq> []\<close>] 1(2) e ne by simp
    moreover have "toks s = take i s # toks (drop (Suc i) s)" using e lt by (intro toks_next) auto
    moreover obtain u us where "toks (drop (Suc i) s) = u # us"
      using ne by (cases "toks (drop (Suc i) s)") auto
    ultimately show ?thesis using s by simp
  qed
qed

lemma subject_matches_literal:
  assumes "validate_pattern f = Inr ()" "validate_pattern s = Inr ()" "\<not> has_wildcard f"
  shows "subject_matches f s \<longleftrightarrow> f = s"
proof -
  have last: "last x \<noteq> dot" if "validate_pattern x = Inr ()" for x
    using that by (auto simp: validate_pattern_def split: if_splits)
  have "subject_matches f s \<longleftrightarrow> toks f = toks s"
    using subject_matches_toks [OF validate_pattern_ok(2) [OF assms(1)] validate_pattern_ok(2) [OF assms(2)]]
      tmatch_literal [of "toks f" "toks s"] no_wildcard_toks [OF assms(3)] by blast
  also have "\<dots> \<longleftrightarrow> f = s"
    by (metis join_toks_inverse [OF last [OF assms(1)]] join_toks_inverse [OF last [OF assms(2)]])
  finally show ?thesis .
qed

lemma lookup_exact_keys:
  assumes "mt_rep hash F t S" "inj_on hash F" "s \<in> F"
  shows "keys (mr_exact (lookup_verified t (hash s) s)) = {k. (Some s, k) \<in> S \<and> \<not> has_wildcard s}"
proof -
  have r: "rep_exact hash F t S" "rep_wf F S" using assms(1) by (auto simp: mt_rep_def)
  have lit: "literals_at hash S (hash s) = {k. (Some s, k) \<in> S \<and> \<not> has_wildcard s}"
  proof -
    have "f = s" if "(Some f, k) \<in> S" "\<not> has_wildcard f" "hash f = hash s" for f k
      using r(2) that assms(2,3) unfolding rep_wf_def inj_on_def by blast
    then show ?thesis unfolding literals_at_def by blast
  qed
  have bucket: "keys (get_or (exact t) (hash s) []) = literals_at hash S (hash s)"
    using r(1) unfolding rep_exact_def by blast
  show ?thesis
  proof (cases "hm_get (exact_subjects t) (hash s)")
    case None
    then have "hm_get (exact t) (hash s) = None" using r(1) unfolding rep_exact_def by blast
    then show ?thesis using bucket None lit by (simp add: lookup_verified_def get_or_def)
  next
    case (Some f)
    then have "f = s" using r(1) assms(2,3) unfolding rep_exact_def inj_on_def by blast
    then show ?thesis using Some bucket lit by (simp add: lookup_verified_def)
  qed
qed

text \<open>What a subject reaches.\<close>

definition routed :: "routes \<Rightarrow> bytes \<Rightarrow> mkey set" where
  "routed S s = {k. (None, k) \<in> S \<or> (\<exists>f. (Some f, k) \<in> S \<and> subject_matches f s)}"

lemma mt_routes:
  assumes rep: "mt_rep hash F t S" and F: "inj_on hash F" "s \<in> F" and s: "validate_pattern s = Inr ()"
  shows "\<exists>out. resolve_patterns_readonly t s (mr_iter (lookup_verified t (hash s) s)) = Some out \<and>
    keys out = routed S s"
proof -
  have r: "rep_catch t S" "rep_pat t S" "rep_wf F S" using rep by (auto simp: mt_rep_def)
  obtain ids where ids: "resolve_patterns_readonly t s (mr_iter (lookup_verified t (hash s) s)) =
      Some (push_new (map (\<lambda>i. snd (patterns t ! i)) ids) (mr_iter (lookup_verified t (hash s) s)))"
    "set ids = {i. i < length (patterns t) \<and> subject_matches (fst (patterns t ! i)) s}"
    using resolve_patterns_push_new [OF r(2) validate_pattern_ok(2) [OF s]] by blast
  have wild: "keys (map (\<lambda>i. snd (patterns t ! i)) ids) =
    {k. \<exists>f. (Some f, k) \<in> S \<and> has_wildcard f \<and> subject_matches f s}"
  proof -
    have "keys (map (\<lambda>i. snd (patterns t ! i)) ids) =
      {k. \<exists>f. (f, k) \<in> (\<lambda>(p, e). (p, me_key e)) ` set (patterns t) \<and> subject_matches f s}"
    proof -
      have "(\<lambda>i. snd (patterns t ! i)) ` set ids =
        snd ` {x \<in> set (patterns t). subject_matches (fst x) s}"
        unfolding ids(2) by (auto simp: in_set_conv_nth) (metis (mono_tags, lifting) fst_conv imageI mem_Collect_eq snd_conv)+
      then have "keys (map (\<lambda>i. snd (patterns t ! i)) ids) =
        me_key ` snd ` {x \<in> set (patterns t). subject_matches (fst x) s}"
        by (simp only: keys_def set_map)
      then show ?thesis by force
    qed
    then show ?thesis using r(2) unfolding rep_pat_def by simp
  qed
  have lit: "{k. (Some s, k) \<in> S \<and> \<not> has_wildcard s} =
    {k. \<exists>f. (Some f, k) \<in> S \<and> \<not> has_wildcard f \<and> subject_matches f s}"
    using subject_matches_literal [OF _ s] r(3) unfolding rep_wf_def by blast
  have "keys (mr_iter (lookup_verified t (hash s) s)) =
    {k. (Some s, k) \<in> S \<and> \<not> has_wildcard s} \<union> {k. (None, k) \<in> S}"
    using lookup_exact_keys [OF rep F] r(1) by (simp add: mr_iter_def rep_catch_def lookup_verified_def)
  then show ?thesis
    unfolding ids(1) routed_def using wild lit by (simp add: keys_push_new) blast
qed

section \<open>Subject limits\<close>

definition limit_ok :: "match_table \<Rightarrow> bool" where
  "limit_ok t \<longleftrightarrow> limit_values t = map snd (limit_patterns t) \<and>
     trie_of (limit_trie t) (map fst (limit_patterns t)) \<and>
     (\<forall>x \<in> set (limit_patterns t). validate_pattern (fst x) = Inr () \<and> snd x \<le> u32_max)"

lemma limit_ok_new: "limit_ok match_table_new"
  using trie_ix.new_holds by (simp add: limit_ok_def match_table_new_def trie_of_def)

lemma limit_ok_rebuild:
  assumes "limit_trie t \<noteq> None" "\<forall>x \<in> set (limit_patterns t). validate_pattern (fst x) = Inr () \<and> snd x \<le> u32_max"
  shows "limit_ok (rebuild_limit_trie t)"
proof -
  have "\<forall>p \<in> set (map fst (limit_patterns t)). validate_pattern p = Inr ()"
    using assms(2) by auto
  from trie_of_rebuild [OF assms(1) this] show ?thesis
    using assms(2) by (simp add: limit_ok_def rebuild_limit_trie_def)
qed

lemma limit_ok_trie: "limit_ok t \<Longrightarrow> limit_trie t \<noteq> None"
  by (auto simp: limit_ok_def trie_of_def)

lemma limit_ok_literals: "limit_ok (t\<lparr>max_subject_inflights := m\<rparr>) = limit_ok t"
  by (simp add: limit_ok_def)

lemma limit_ok_add:
  assumes "limit_ok t" "validate_pattern p = Inr ()" "n \<le> u32_max"
  shows "limit_ok (add_max_subject_inflight hash p n t)"
proof -
  have "limit_ok (rebuild_limit_trie (t\<lparr>limit_patterns := limit_patterns t @ [(p, n)]\<rparr>))"
    using assms limit_ok_trie [OF assms(1)]
    by (intro limit_ok_rebuild) (simp_all add: limit_ok_def ball_Un)
  then show ?thesis using assms(1) by (simp add: add_max_subject_inflight_def limit_ok_literals)
qed

lemma limit_ok_remove:
  assumes "limit_ok t"
  shows "limit_ok (remove_max_subject_inflight hash p t)"
proof -
  have "limit_ok (rebuild_limit_trie (t\<lparr>limit_patterns := filter (\<lambda>(q, _). q \<noteq> p) (limit_patterns t)\<rparr>))"
    using assms limit_ok_trie [OF assms(1)]
    by (intro limit_ok_rebuild) (simp_all add: limit_ok_def)
  then show ?thesis using assms(1) by (simp add: remove_max_subject_inflight_def limit_ok_literals)
qed

lemma ofold_min:
  "\<forall>i \<in> set ids. i < length vs \<and> vs ! i \<le> u32_max \<Longrightarrow> m = None \<or> (\<exists>l. m = Some l \<and> l \<le> u32_max) \<Longrightarrow>
    ofold (\<lambda>idx m. case vec_get vs idx of None \<Rightarrow> None
      | Some v \<Rightarrow> Some (Some (min (case m of Some l \<Rightarrow> l | None \<Rightarrow> u32_max) v))) ids m =
    Some (if ids = [] then m else Some (Min ((case m of Some l \<Rightarrow> {l} | None \<Rightarrow> {}) \<union> (\<lambda>i. vs ! i) ` set ids)))"
proof (induction ids arbitrary: m)
  case (Cons i ids)
  let ?m = "min (case m of Some l \<Rightarrow> l | None \<Rightarrow> u32_max) (vs ! i)"
  have m: "?m = Min ((case m of Some l \<Rightarrow> {l} | None \<Rightarrow> {}) \<union> {vs ! i})"
    using Cons.prems by (auto split: option.splits)
  have "?m \<le> u32_max" using Cons.prems(1) by (simp add: min.coboundedI2)
  then have IH: "ofold (\<lambda>idx m. case vec_get vs idx of None \<Rightarrow> None
      | Some v \<Rightarrow> Some (Some (min (case m of Some l \<Rightarrow> l | None \<Rightarrow> u32_max) v))) ids (Some ?m) =
    Some (if ids = [] then Some ?m else Some (Min ({?m} \<union> (\<lambda>i. vs ! i) ` set ids)))"
    using Cons.IH [of "Some ?m"] Cons.prems(1) by simp
  have "Min ({?m} \<union> (\<lambda>i. vs ! i) ` set ids) =
    Min ((case m of Some l \<Rightarrow> {l} | None \<Rightarrow> {}) \<union> (\<lambda>i. vs ! i) ` set (i # ids))" if "ids \<noteq> []"
    using that Cons.prems by (auto simp: Min_insert2 min.assoc min.commute split: option.splits)
  then show ?case
    using IH Cons.prems(1) m by (auto simp: vec_get_def split: option.splits)
qed simp

lemma matching_values:
  "(\<lambda>i. map snd ps ! i) ` {i. i < length ps \<and> P (fst (ps ! i))} = {n. \<exists>p. (p, n) \<in> set ps \<and> P p}"
proof (intro set_eqI iffI)
  fix n assume "n \<in> (\<lambda>i. map snd ps ! i) ` {i. i < length ps \<and> P (fst (ps ! i))}"
  then obtain i where i: "i < length ps" "P (fst (ps ! i))" "n = snd (ps ! i)" by auto
  then have "(fst (ps ! i), n) \<in> set ps" using nth_mem [OF i(1)] by simp
  then show "n \<in> {n. \<exists>p. (p, n) \<in> set ps \<and> P p}" using i(2) by blast
next
  fix n assume "n \<in> {n. \<exists>p. (p, n) \<in> set ps \<and> P p}"
  then obtain p where p: "(p, n) \<in> set ps" "P p" by blast
  then obtain i where "i < length ps" "ps ! i = (p, n)" by (metis in_set_conv_nth)
  then show "n \<in> (\<lambda>i. map snd ps ! i) ` {i. i < length ps \<and> P (fst (ps ! i))}" using p(2) by (intro image_eqI [of _ _ i]) simp_all
qed

text \<open>What the limit trie finds: in range, and the limits of exactly the patterns that match.\<close>

lemma limit_trie_hits:
  assumes "limit_ok t" "clean s"
  obtains tr ids where "limit_trie t = Some tr" "find_matches tr s = Some ids"
    "\<forall>i \<in> set ids. i < length (limit_values t) \<and> limit_values t ! i \<le> u32_max"
    "(\<lambda>i. limit_values t ! i) ` set ids = {n. \<exists>p. (p, n) \<in> set (limit_patterns t) \<and> subject_matches p s}"
proof -
  let ?ps = "limit_patterns t"
  obtain tr where tr: "limit_trie t = Some tr" "trie_holds tr (set (zip (map fst ?ps) [0..<length ?ps]))"
    using assms(1) by (auto simp: limit_ok_def trie_of_def)
  obtain ids where ids: "find_matches tr s = Some ids"
    "set ids = {i. \<exists>p. (p, i) \<in> set (zip (map fst ?ps) [0..<length ?ps]) \<and> subject_matches p s}"
    using trie_ix.find_holds [OF tr(2) assms(2)] by blast
  have set: "set ids = {i. i < length ?ps \<and> subject_matches (fst (?ps ! i)) s}"
    unfolding ids(2) by (force simp: in_set_zip)
  have v: "limit_values t = map snd ?ps" using assms(1) by (simp add: limit_ok_def)
  have "\<forall>i \<in> set ids. i < length (limit_values t) \<and> limit_values t ! i \<le> u32_max"
    using assms(1) nth_mem [of _ ?ps] unfolding set v limit_ok_def by auto
  moreover have "(\<lambda>i. limit_values t ! i) ` set ids = {n. \<exists>p. (p, n) \<in> set ?ps \<and> subject_matches p s}"
    unfolding set v by (rule matching_values)
  ultimately show ?thesis using that tr(1) ids(1) by blast
qed



text \<open>C30. When two literal subjects share a hash, the bucket keeps the bytes of the
  first only: a subscriber of the second is handed the messages of the first,
  and the messages of the second reach no literal subscriber.\<close>

theorem add_exact_collision:
  assumes "a \<noteq> b" "me_key ea \<noteq> me_key eb"
  shows "mr_exact (lookup_verified (add_exact h b eb (add_exact h a ea match_table_new)) h a) = [ea, eb]
    \<and> mr_exact (lookup_verified (add_exact h b eb (add_exact h a ea match_table_new)) h b) = []"
  using assms
  by (simp add: lookup_verified_def add_exact_sel match_table_new_def get_or_insert hm_get_insert
      get_or_def)

theorem add_exact_collision_witness:
  "let ea = \<lparr>me_consumer_id = 1, me_queue_id = 1, me_subscription_id = 1, me_connection_id = 1,
             binding_idx = 0\<rparr>;
       eb = ea\<lparr>me_subscription_id := 2\<rparr>
   in mr_exact (lookup_verified (add_exact 5 [98] eb (add_exact 5 [97] ea match_table_new)) 5 [97]) = [ea, eb]
      \<and> mr_exact (lookup_verified (add_exact 5 [98] eb (add_exact 5 [97] ea match_table_new)) 5 [98]) = []"
  unfolding Let_def by (rule add_exact_collision) (simp_all add: me_key_def)

end
