(* ===== verification/Catalog.thy ===== *)
theory Catalog
  imports Match_Queries
begin

text \<open>
  The entity catalog of the engine (\<^verbatim>\<open>arbitro-engine/src/catalog/mod.rs\<close>, with the
  events of \<^verbatim>\<open>events.rs\<close> and the errors of \<^verbatim>\<open>error.rs\<close>): streams, consumers,
  subscriptions, bindings with their secondary indices, demand counters and the
  match table of each stream.  Identifiers are naturals; the binding counter
  wraps at \<open>2 ^ 32\<close> as in a release build.
\<close>

section \<open>Errors\<close>

datatype error_code = StreamNotFound | ConsumerNotFound | SubscriptionNotFound | QueueNotFound
  | DuplicateEntity | ConnectionNotFound | PendingNotFound | CreditExhausted
  | IdempotencyDuplicate | ConsumerPaused | QueuePaused | EntityIdTooLarge
  | ConfigIoError | ConfigInvalid | ConsumerConfigMismatch | SubscriptionConfigMismatch

fun error_code_repr :: "error_code \<Rightarrow> nat" where
  "error_code_repr StreamNotFound = 100"
| "error_code_repr ConsumerNotFound = 101"
| "error_code_repr SubscriptionNotFound = 102"
| "error_code_repr QueueNotFound = 103"
| "error_code_repr DuplicateEntity = 104"
| "error_code_repr ConnectionNotFound = 200"
| "error_code_repr PendingNotFound = 201"
| "error_code_repr CreditExhausted = 202"
| "error_code_repr IdempotencyDuplicate = 203"
| "error_code_repr ConsumerPaused = 204"
| "error_code_repr QueuePaused = 205"
| "error_code_repr EntityIdTooLarge = 206"
| "error_code_repr ConfigIoError = 400"
| "error_code_repr ConfigInvalid = 401"
| "error_code_repr ConsumerConfigMismatch = 402"
| "error_code_repr SubscriptionConfigMismatch = 403"

datatype engine_error =
    NotFound error_code string
  | LimitExceeded error_code string
  | Duplicate error_code string
  | Config error_code string

fun engine_error_code :: "engine_error \<Rightarrow> error_code" where
  "engine_error_code (NotFound c _) = c"
| "engine_error_code (LimitExceeded c _) = c"
| "engine_error_code (Duplicate c _) = c"
| "engine_error_code (Config c _) = c"

definition stream_not_found :: engine_error where
  "stream_not_found = NotFound StreamNotFound ''stream''"

definition consumer_not_found :: engine_error where
  "consumer_not_found = NotFound ConsumerNotFound ''consumer''"

definition subscription_not_found :: engine_error where
  "subscription_not_found = NotFound SubscriptionNotFound ''subscription''"

definition consumer_config_mismatch :: engine_error where
  "consumer_config_mismatch =
     Config ConsumerConfigMismatch ''consumer already exists with different config''"

definition entity_id_too_large :: engine_error where
  "entity_id_too_large = LimitExceeded EntityIdTooLarge ''entity id exceeds MAX_ENTITY_ID''"

section \<open>Events\<close>

record delta_events =
  demand_became_available :: "u32 list"
  demand_became_idle :: "u32 list"
  bindings_retired :: "u32 list"
  subject_hashes_acked :: "(u32 \<times> u32 \<times> u64) list"
  inflight_released :: "(u32 \<times> u32 \<times> u32) list"
  consumers_removed :: "u32 list"
  pending_seqs_released :: "u64 list"

definition delta_default :: delta_events where
  "delta_default = \<lparr>demand_became_available = [], demand_became_idle = [], bindings_retired = [],
     subject_hashes_acked = [], inflight_released = [], consumers_removed = [],
     pending_seqs_released = []\<rparr>"

definition delta_merge :: "delta_events \<Rightarrow> delta_events \<Rightarrow> delta_events" where
  "delta_merge self other =
    \<lparr>demand_became_available = demand_became_available self @ demand_became_available other,
     demand_became_idle = demand_became_idle self @ demand_became_idle other,
     bindings_retired = bindings_retired self @ bindings_retired other,
     subject_hashes_acked = subject_hashes_acked self @ subject_hashes_acked other,
     inflight_released = inflight_released self @ inflight_released other,
     consumers_removed = consumers_removed self @ consumers_removed other,
     pending_seqs_released = pending_seqs_released self @ pending_seqs_released other\<rparr>"

definition delta_is_empty :: "delta_events \<Rightarrow> bool" where
  "delta_is_empty e \<longleftrightarrow> demand_became_available e = [] \<and> demand_became_idle e = [] \<and>
     bindings_retired e = [] \<and> subject_hashes_acked e = [] \<and> inflight_released e = [] \<and>
     consumers_removed e = [] \<and> pending_seqs_released e = []"

section \<open>Entities\<close>

datatype ack_policy = AckNone | AckExplicit

record stream_config =
  sc_id :: u32
  sc_name :: bytes

record consumer_config =
  cc_id :: u32
  cc_queue_id :: u32
  cc_stream_id :: u32
  cc_durable :: bool
  cc_ack_policy :: ack_policy
  cc_max_inflight :: u32
  cc_ack_wait_ms :: u32
  cc_max_nack :: u32
  cc_filter :: bytes

record subscription_config =
  uc_id :: u32
  uc_external_id :: u32
  uc_stream_id :: u32
  uc_consumer_id :: u32
  uc_filters :: "bytes list"

record stream_info =
  si_name :: bytes

record consumer_info =
  ci_stream_id :: u32
  ci_queue_id :: u32
  ci_max_inflight :: u32
  ci_paused :: bool
  ci_ack_policy :: ack_policy
  ci_durable :: bool
  ci_ack_wait_ms :: u32
  ci_max_nack :: u32
  ci_filter :: bytes

record subscription_info =
  ui_stream_id :: u32
  ui_consumer_id :: u32
  ui_external_id :: u32
  ui_filters :: "bytes list"

record pending =
  p_seq :: u64
  p_subject_hash :: u32
  p_deliveries :: nat

record binding =
  b_binding_id :: u32
  b_stream_id :: u32
  b_consumer_id :: u32
  b_connection_id :: u64
  b_subscription_id :: u32
  b_external_sub_id :: u32
  b_queue_id :: u32
  b_max_inflight :: u32
  b_paused :: bool
  b_fire_and_forget :: bool
  b_pending :: "(u64, pending) hmap"

definition is_pending :: "binding \<Rightarrow> u64 \<Rightarrow> bool" where
  "is_pending b seq = hm_contains (b_pending b) seq"

record catalog =
  streams :: "stream_info option list"
  consumers :: "consumer_info option list"
  subscriptions :: "(u32, subscription_info) hmap"
  bindings :: "(u32, binding) hmap"
  by_stream :: "(u32, u32 list) hmap"
  by_consumer :: "(u32, u32 list) hmap"
  by_connection :: "(u64, u32 list) hmap"
  by_subscription :: "(u32, u32) hmap"
  by_conn_subscription :: "(u64 \<times> u32, u32) hmap"
  by_conn_consumer :: "(u64 \<times> u32, u32) hmap"
  next_binding_id :: u32
  connections :: "(u64, u32) hmap"
  demand :: "(u32, u32) hmap"
  match_tables :: "match_table option list"

definition catalog_new :: catalog where
  "catalog_new = \<lparr>streams = [], consumers = [], subscriptions = [], bindings = [], by_stream = [],
     by_consumer = [], by_connection = [], by_subscription = [], by_conn_subscription = [],
     by_conn_consumer = [], next_binding_id = 1, connections = [], demand = [], match_tables = []\<rparr>"

definition max_entity_id :: u32 where
  "max_entity_id = 65536"

section \<open>Slots and demand\<close>

definition ensure_stream_slot :: "u32 \<Rightarrow> catalog \<Rightarrow> engine_error + catalog" where
  "ensure_stream_slot eid c =
    (if eid > max_entity_id then Inl entity_id_too_large
     else Inr (c\<lparr>streams := slot_grow eid 4 (streams c)\<rparr>))"

definition ensure_consumer_slot :: "u32 \<Rightarrow> catalog \<Rightarrow> catalog" where
  "ensure_consumer_slot eid c = c\<lparr>consumers := slot_grow eid 4 (consumers c)\<rparr>"

definition ensure_match_table_slot :: "u32 \<Rightarrow> catalog \<Rightarrow> catalog" where
  "ensure_match_table_slot eid c = c\<lparr>match_tables := slot_grow eid 4 (match_tables c)\<rparr>"

definition has_any_demand :: "catalog \<Rightarrow> bool" where
  "has_any_demand c \<longleftrightarrow> demand c \<noteq> []"

definition has_demand :: "catalog \<Rightarrow> u32 \<Rightarrow> bool" where
  "has_demand c stream_id \<longleftrightarrow> get_or (demand c) stream_id 0 > 0"

definition inc_demand :: "u32 \<Rightarrow> catalog \<Rightarrow> delta_events \<Rightarrow> catalog \<times> delta_events" where
  "inc_demand stream_id c ev =
    (let count = u32_add (get_or (demand c) stream_id 0) 1
     in (c\<lparr>demand := hm_insert stream_id count (demand c)\<rparr>,
         if count = 1 then ev\<lparr>demand_became_available := demand_became_available ev @ [stream_id]\<rparr>
         else ev))"

definition dec_demand :: "u32 \<Rightarrow> catalog \<Rightarrow> delta_events \<Rightarrow> catalog \<times> delta_events" where
  "dec_demand stream_id c ev =
    (case hm_get (demand c) stream_id of
       Some count \<Rightarrow>
         if count - 1 = 0 then
           (c\<lparr>demand := hm_remove stream_id (demand c)\<rparr>,
            ev\<lparr>demand_became_idle := demand_became_idle ev @ [stream_id]\<rparr>)
         else (c\<lparr>demand := hm_insert stream_id (count - 1) (demand c)\<rparr>, ev)
     | None \<Rightarrow> (c, ev))"

section \<open>Streams and consumers\<close>

definition stream_exists :: "catalog \<Rightarrow> u32 \<Rightarrow> bool" where
  "stream_exists c eid \<longleftrightarrow> slot_get (streams c) eid \<noteq> None"

definition ensure_stream :: "stream_config \<Rightarrow> catalog \<Rightarrow> (engine_error + unit) \<times> catalog" where
  "ensure_stream config c =
    (case ensure_stream_slot (sc_id config) c of
       Inl e \<Rightarrow> (Inl e, c)
     | Inr c1 \<Rightarrow>
       if slot_get (streams c1) (sc_id config) \<noteq> None then (Inr (), c1)
       else
         let c2 = c1\<lparr>streams := (streams c1)[sc_id config := Some \<lparr>si_name = sc_name config\<rparr>]\<rparr>;
             c3 = ensure_match_table_slot (sc_id config) c2
         in (Inr (),
             if slot_get (match_tables c3) (sc_id config) = None
             then c3\<lparr>match_tables := (match_tables c3)[sc_id config := Some match_table_new]\<rparr>
             else c3))"

definition remove_stream_entity :: "u32 \<Rightarrow> catalog \<Rightarrow> (engine_error + unit) \<times> catalog" where
  "remove_stream_entity eid c =
    (case slot_get (streams c) eid of
       None \<Rightarrow> (Inl stream_not_found, c)
     | Some _ \<Rightarrow>
       let c1 = c\<lparr>streams := (streams c)[eid := None]\<rparr>
       in (Inr (), if eid < length (match_tables c1)
                   then c1\<lparr>match_tables := (match_tables c1)[eid := None]\<rparr> else c1))"

definition cat_consumer :: "catalog \<Rightarrow> u32 \<Rightarrow> consumer_info option" where
  "cat_consumer c eid = slot_get (consumers c) eid"

definition ensure_consumer :: "consumer_config \<Rightarrow> catalog \<Rightarrow> (engine_error + bool) \<times> catalog" where
  "ensure_consumer config c =
    (if \<not> stream_exists c (cc_stream_id config) then (Inl stream_not_found, c)
     else
       let c1 = ensure_consumer_slot (cc_id config) c
       in case slot_get (consumers c1) (cc_id config) of
            Some existing \<Rightarrow>
              if ci_max_inflight existing = cc_max_inflight config
                 \<and> ci_ack_policy existing = cc_ack_policy config
                 \<and> ci_ack_wait_ms existing = cc_ack_wait_ms config
                 \<and> ci_stream_id existing = cc_stream_id config
                 \<and> ci_queue_id existing = cc_queue_id config
                 \<and> ci_filter existing = cc_filter config
              then (Inr False, c1)
              else (Inl consumer_config_mismatch, c1)
          | None \<Rightarrow>
              (Inr True, c1\<lparr>consumers := (consumers c1)[cc_id config := Some
                 \<lparr>ci_stream_id = cc_stream_id config, ci_queue_id = cc_queue_id config,
                  ci_max_inflight = cc_max_inflight config, ci_paused = False,
                  ci_ack_policy = cc_ack_policy config, ci_durable = cc_durable config,
                  ci_ack_wait_ms = cc_ack_wait_ms config, ci_max_nack = cc_max_nack config,
                  ci_filter = cc_filter config\<rparr>]\<rparr>))"

definition remove_consumer_entity :: "u32 \<Rightarrow> catalog \<Rightarrow> (engine_error + unit) \<times> catalog" where
  "remove_consumer_entity eid c =
    (case slot_get (consumers c) eid of
       None \<Rightarrow> (Inl consumer_not_found, c)
     | Some _ \<Rightarrow> (Inr (), c\<lparr>consumers := (consumers c)[eid := None]\<rparr>))"

abbreviation is_paused :: "catalog \<Rightarrow> u32 \<Rightarrow> bool" where
  "is_paused c eid \<equiv> (case slot_get (consumers c) eid of Some info \<Rightarrow> ci_paused info | None \<Rightarrow> False)"

definition set_paused :: "bool \<Rightarrow> u32 \<Rightarrow> catalog \<Rightarrow> bool \<times> catalog" where
  "set_paused p eid c =
    (case slot_get (consumers c) eid of
       Some info \<Rightarrow> (True, c\<lparr>consumers := (consumers c)[eid := Some (info\<lparr>ci_paused := p\<rparr>)]\<rparr>)
     | None \<Rightarrow> (False, c))"

definition pause_consumer :: "u32 \<Rightarrow> catalog \<Rightarrow> bool \<times> catalog" where
  "pause_consumer eid c = set_paused True eid c"

definition resume_consumer :: "u32 \<Rightarrow> catalog \<Rightarrow> bool \<times> catalog" where
  "resume_consumer eid c = set_paused False eid c"

section \<open>Match table access\<close>

definition cat_match_table :: "catalog \<Rightarrow> u32 \<Rightarrow> match_table option" where
  "cat_match_table c stream_id = slot_get (match_tables c) stream_id"

text \<open>\<^verbatim>\<open>match_table_mut\<close> followed by an update of the table it returns.\<close>

definition match_table_mut :: "u32 \<Rightarrow> (match_table \<Rightarrow> match_table) \<Rightarrow> catalog \<Rightarrow> catalog" where
  "match_table_mut stream_id f c =
    (case slot_get (match_tables c) stream_id of
       Some mt \<Rightarrow> c\<lparr>match_tables := (match_tables c)[stream_id := Some (f mt)]\<rparr>
     | None \<Rightarrow> c)"

text \<open>\<^verbatim>\<open>match_tables[i].get_or_insert_with(MatchTable::new)\<close> after growing the vector.\<close>

definition match_table_or_new :: "u32 \<Rightarrow> (match_table \<Rightarrow> match_table) \<Rightarrow> catalog \<Rightarrow> catalog" where
  "match_table_or_new stream_id f c =
    (let c1 = ensure_match_table_slot stream_id c;
         mt = (case slot_get (match_tables c1) stream_id of Some mt \<Rightarrow> mt | None \<Rightarrow> match_table_new)
     in c1\<lparr>match_tables := (match_tables c1)[stream_id := Some (f mt)]\<rparr>)"

definition bind_subscription_connection :: "u32 \<Rightarrow> u32 \<Rightarrow> u64 \<Rightarrow> catalog \<Rightarrow> catalog" where
  "bind_subscription_connection stream_id subscription_id connection_id c =
     match_table_mut stream_id (bind_subscription subscription_id connection_id) c"

definition unbind_subscription_connection :: "u32 \<Rightarrow> u32 \<Rightarrow> catalog \<Rightarrow> catalog" where
  "unbind_subscription_connection stream_id subscription_id c =
     match_table_mut stream_id (unbind_subscription subscription_id) c"

definition set_max_subject_inflight ::
  "(bytes \<Rightarrow> u32) \<Rightarrow> u32 \<Rightarrow> bytes \<Rightarrow> u32 \<Rightarrow> catalog \<Rightarrow> (engine_error + unit) \<times> catalog" where
  "set_max_subject_inflight hash stream_id pattern max_inflight c =
    (if \<not> stream_exists c stream_id then (Inl stream_not_found, c)
     else (Inr (), match_table_or_new stream_id (add_max_subject_inflight hash pattern max_inflight) c))"

abbreviation cat_max_subject_inflight :: "catalog \<Rightarrow> u32 \<Rightarrow> u32 \<Rightarrow> u32 option" where
  "cat_max_subject_inflight c stream_id subject_hash \<equiv>
     Option.bind (slot_get (match_tables c) stream_id) (\<lambda>mt. mt_max_subject_inflight mt subject_hash)"

abbreviation stream_has_subject_limits :: "catalog \<Rightarrow> u32 \<Rightarrow> bool" where
  "stream_has_subject_limits c stream_id \<equiv>
    (case slot_get (match_tables c) stream_id of Some mt \<Rightarrow> has_subject_limits mt | None \<Rightarrow> False)"

section \<open>Subscriptions and connections\<close>

definition add_filter :: "(bytes \<Rightarrow> u32) \<Rightarrow> match_entry \<Rightarrow> bytes \<Rightarrow> match_table \<Rightarrow> match_table" where
  "add_filter hash entry flt mt =
    (if has_wildcard flt then add_pattern flt entry mt else add_exact (hash flt) flt entry mt)"

definition ensure_subscription ::
  "(bytes \<Rightarrow> u32) \<Rightarrow> subscription_config \<Rightarrow> catalog \<Rightarrow> (engine_error + unit) \<times> catalog" where
  "ensure_subscription hash config c =
    (if \<not> stream_exists c (uc_stream_id config) then (Inl stream_not_found, c)
     else case slot_get (consumers c) (uc_consumer_id config) of
       None \<Rightarrow> (Inl consumer_not_found, c)
     | Some consumer \<Rightarrow>
       if hm_contains (subscriptions c) (uc_id config) then (Inr (), c)
       else
         let c1 = c\<lparr>subscriptions := hm_insert (uc_id config)
               \<lparr>ui_stream_id = uc_stream_id config, ui_consumer_id = uc_consumer_id config,
                ui_external_id = uc_external_id config, ui_filters = uc_filters config\<rparr>
               (subscriptions c)\<rparr>;
             entry = \<lparr>me_consumer_id = uc_consumer_id config, me_queue_id = ci_queue_id consumer,
               me_subscription_id = uc_id config, me_connection_id = 0,
               binding_idx = binding_idx_unbound\<rparr>
         in (Inr (), match_table_or_new (uc_stream_id config)
              (if uc_filters config = [] then add_catch_all entry
               else fold (add_filter hash entry) (uc_filters config)) c1))"

definition remove_subscription_entity :: "u32 \<Rightarrow> catalog \<Rightarrow> (engine_error + unit) \<times> catalog" where
  "remove_subscription_entity eid c =
    (case hm_get (subscriptions c) eid of
       None \<Rightarrow> (Inl subscription_not_found, c)
     | Some info \<Rightarrow>
       let c1 = c\<lparr>subscriptions := hm_remove eid (subscriptions c)\<rparr>
       in (Inr (), match_table_mut (ui_stream_id info) (mt_remove_subscription eid) c1))"

definition subscriptions_for_consumer :: "catalog \<Rightarrow> u32 \<Rightarrow> u32 list" where
  "subscriptions_for_consumer c consumer_id =
     map fst (filter (\<lambda>(_, s). ui_consumer_id s = consumer_id) (subscriptions c))"

definition open_connection :: "u64 \<Rightarrow> u32 \<Rightarrow> catalog \<Rightarrow> catalog" where
  "open_connection connection_id node_id c =
     c\<lparr>connections := hm_insert connection_id node_id (connections c)\<rparr>"

definition remove_connection_entity :: "u64 \<Rightarrow> catalog \<Rightarrow> catalog" where
  "remove_connection_entity connection_id c =
     c\<lparr>connections := hm_remove connection_id (connections c)\<rparr>"

section \<open>Bindings\<close>

definition cat_retire_binding ::
  "u32 \<Rightarrow> catalog \<Rightarrow> delta_events \<Rightarrow> binding option \<times> catalog \<times> delta_events" where
  "cat_retire_binding binding_id c ev =
    (case hm_get (bindings c) binding_id of
       None \<Rightarrow> (None, c, ev)
     | Some b \<Rightarrow>
       let drop_id = filter (\<lambda>x. x \<noteq> binding_id);
           conn_sub = (b_connection_id b, b_external_sub_id b);
           conn_consumer = (b_connection_id b, b_consumer_id b);
           c1 = c\<lparr>bindings := hm_remove binding_id (bindings c),
                  by_stream := hm_modify (b_stream_id b) drop_id (by_stream c),
                  by_consumer := hm_modify (b_consumer_id b) drop_id (by_consumer c),
                  by_connection := hm_modify (b_connection_id b) drop_id (by_connection c),
                  by_subscription :=
                    (if hm_get (by_subscription c) (b_subscription_id b) = Some binding_id
                     then hm_remove (b_subscription_id b) (by_subscription c) else by_subscription c),
                  by_conn_subscription :=
                    (if hm_get (by_conn_subscription c) conn_sub = Some binding_id
                     then hm_remove conn_sub (by_conn_subscription c) else by_conn_subscription c),
                  by_conn_consumer :=
                    (case hm_get (by_conn_consumer c) conn_consumer of
                       Some n \<Rightarrow> let n1 = u32_sub n 1
                         in if n1 = 0 then hm_remove conn_consumer (by_conn_consumer c)
                            else hm_insert conn_consumer n1 (by_conn_consumer c)
                     | None \<Rightarrow> by_conn_consumer c)\<rparr>;
           c2 = unbind_subscription_connection (b_stream_id b) (b_subscription_id b) c1;
           (c3, ev1) = dec_demand (b_stream_id b) c2 ev
       in (Some b, c3, ev1\<lparr>bindings_retired := bindings_retired ev1 @ [binding_id]\<rparr>))"

definition push_id :: "'k \<Rightarrow> u32 \<Rightarrow> ('k, u32 list) hmap \<Rightarrow> ('k, u32 list) hmap" where
  "push_id k bid m = hm_insert k (get_or m k [] @ [bid]) m"

definition cat_subscribe ::
  "u64 \<Rightarrow> u32 \<Rightarrow> catalog \<Rightarrow> delta_events \<Rightarrow> (engine_error + u32) \<times> catalog \<times> delta_events" where
  "cat_subscribe connection_id subscription_id c ev =
    (case hm_get (subscriptions c) subscription_id of
       None \<Rightarrow> (Inl subscription_not_found, c, ev)
     | Some sub \<Rightarrow>
       (case slot_get (consumers c) (ui_consumer_id sub) of
          None \<Rightarrow> (Inl consumer_not_found, c, ev)
        | Some consumer \<Rightarrow>
          let (c1, ev1) = (case hm_get (by_subscription c) subscription_id of
                 Some old_binding_id \<Rightarrow> snd (cat_retire_binding old_binding_id c ev)
               | None \<Rightarrow> (c, ev));
              binding_id = next_binding_id c1;
              conn_consumer = (connection_id, ui_consumer_id sub);
              b = \<lparr>b_binding_id = binding_id, b_stream_id = ui_stream_id sub,
                   b_consumer_id = ui_consumer_id sub, b_connection_id = connection_id,
                   b_subscription_id = subscription_id, b_external_sub_id = ui_external_id sub,
                   b_queue_id = ci_queue_id consumer, b_max_inflight = ci_max_inflight consumer,
                   b_paused = ci_paused consumer,
                   b_fire_and_forget = (ci_ack_policy consumer = AckNone), b_pending = []\<rparr>;
              c2 = c1\<lparr>next_binding_id := u32_add binding_id 1,
                     bindings := hm_insert binding_id b (bindings c1),
                     by_stream := push_id (ui_stream_id sub) binding_id (by_stream c1),
                     by_consumer := push_id (ui_consumer_id sub) binding_id (by_consumer c1),
                     by_connection := push_id connection_id binding_id (by_connection c1),
                     by_subscription := hm_insert subscription_id binding_id (by_subscription c1),
                     by_conn_subscription := hm_insert (connection_id, ui_external_id sub) binding_id
                       (by_conn_subscription c1),
                     by_conn_consumer := hm_insert conn_consumer
                       (u32_add (get_or (by_conn_consumer c1) conn_consumer 0) 1) (by_conn_consumer c1)\<rparr>;
              c3 = bind_subscription_connection (ui_stream_id sub) subscription_id connection_id c2;
              (c4, ev2) = inc_demand (ui_stream_id sub) c3 ev1
          in (Inr binding_id, c4, ev2)))"

definition cat_binding :: "catalog \<Rightarrow> u32 \<Rightarrow> binding option" where
  "cat_binding c eid = hm_get (bindings c) eid"

definition connection_owns_consumer :: "catalog \<Rightarrow> u64 \<Rightarrow> u32 \<Rightarrow> bool" where
  "connection_owns_consumer c conn consumer = hm_contains (by_conn_consumer c) (conn, consumer)"

definition binding_id_for_subscription :: "catalog \<Rightarrow> u64 \<Rightarrow> u32 \<Rightarrow> u32 option" where
  "binding_id_for_subscription c conn sub = hm_get (by_conn_subscription c) (conn, sub)"

definition binding_for_subscription :: "catalog \<Rightarrow> u64 \<Rightarrow> u32 \<Rightarrow> binding option" where
  "binding_for_subscription c conn sub =
     Option.bind (hm_get (by_conn_subscription c) (conn, sub)) (hm_get (bindings c))"

definition bindings_for_stream :: "catalog \<Rightarrow> u32 \<Rightarrow> u32 list" where
  "bindings_for_stream c stream_id = get_or (by_stream c) stream_id []"

definition bindings_for_consumer :: "catalog \<Rightarrow> u32 \<Rightarrow> u32 list" where
  "bindings_for_consumer c consumer_id = get_or (by_consumer c) consumer_id []"

definition bindings_for_connection :: "catalog \<Rightarrow> u64 \<Rightarrow> u32 list" where
  "bindings_for_connection c connection_id = get_or (by_connection c) connection_id []"

section \<open>Listing\<close>

text \<open>\<^verbatim>\<open>iter().enumerate().filter_map(..)\<close> over a slot vector.\<close>

definition enumerate_slots :: "'a option list \<Rightarrow> (u32 \<times> 'a) list" where
  "enumerate_slots xs = List.map_filter (\<lambda>(i, opt). map_option (Pair i) opt) (zip [0..<length xs] xs)"

abbreviation stream_ids :: "catalog \<Rightarrow> u32 list" where
  "stream_ids c \<equiv> map fst (enumerate_slots (streams c))"

definition consumer_ids :: "catalog \<Rightarrow> u32 list" where
  "consumer_ids c = map fst (enumerate_slots (consumers c))"

abbreviation list_streams :: "catalog \<Rightarrow> (u32 \<times> bytes) list" where
  "list_streams c \<equiv> map (\<lambda>(i, info). (i, si_name info)) (enumerate_slots (streams c))"

definition list_consumers :: "catalog \<Rightarrow> (u32 \<times> u32 \<times> u32 \<times> bool) list" where
  "list_consumers c = map (\<lambda>(i, info). (i, ci_stream_id info, ci_queue_id info, ci_paused info))
     (enumerate_slots (consumers c))"

definition consumers_for_stream :: "catalog \<Rightarrow> u32 \<Rightarrow> u32 list" where
  "consumers_for_stream c stream_id =
     map fst (filter (\<lambda>(_, info). ci_stream_id info = stream_id) (enumerate_slots (consumers c)))"

lemma enumerate_slots_set: "(i, x) \<in> set (enumerate_slots xs) \<longleftrightarrow> slot_get xs i = Some x"
proof
  assume "(i, x) \<in> set (enumerate_slots xs)"
  then show "slot_get xs i = Some x"
    by (auto simp: enumerate_slots_def List.map_filter_def in_set_zip slot_get_def)
next
  assume "slot_get xs i = Some x"
  then have "i < length xs" "xs ! i = Some x" by (auto simp: slot_get_def split: if_splits)
  then have "(i, Some x) \<in> set (zip [0..<length xs] xs)" by (force simp: in_set_zip)
  then show "(i, x) \<in> set (enumerate_slots xs)"
    by (force simp: enumerate_slots_def List.map_filter_def)
qed

end
