(* ===== verification/Catalog_Inv.thy ===== *)
theory Catalog_Inv
  imports Catalog
begin

text \<open>
  Consistency of the binding store with its secondary indices.  Each index is
  specified against the map of live bindings by one of four generic predicates,
  each with an insertion and a removal law; the catalog invariant \<open>idx_inv\<close> is
  their conjunction, and the laws give its preservation by \<^verbatim>\<open>subscribe\<close> and
  \<^verbatim>\<open>retire_binding\<close>.
\<close>

section \<open>Index predicates\<close>

type_synonym live = "u32 \<Rightarrow> binding option"

definition holders :: "(binding \<Rightarrow> 'k) \<Rightarrow> live \<Rightarrow> 'k \<Rightarrow> u32 set" where
  "holders key B k = {bid. \<exists>b. B bid = Some b \<and> key b = k}"

definition index_ok :: "('k, u32 list) hmap \<Rightarrow> (binding \<Rightarrow> 'k) \<Rightarrow> live \<Rightarrow> bool" where
  "index_ok m key B \<longleftrightarrow> (\<forall>k. distinct (get_or m k []) \<and> set (get_or m k []) = holders key B k)"

definition count_ok :: "('k, u32) hmap \<Rightarrow> (binding \<Rightarrow> 'k) \<Rightarrow> live \<Rightarrow> bool" where
  "count_ok m key B \<longleftrightarrow>
    (\<forall>k. hm_get m k = (if holders key B k = {} then None else Some (card (holders key B k))))"

definition unique_ok :: "('k, u32) hmap \<Rightarrow> (binding \<Rightarrow> 'k) \<Rightarrow> live \<Rightarrow> bool" where
  "unique_ok m key B \<longleftrightarrow> (\<forall>k bid. hm_get m k = Some bid \<longleftrightarrow> bid \<in> holders key B k)"

definition points_ok :: "('k, u32) hmap \<Rightarrow> (binding \<Rightarrow> 'k) \<Rightarrow> live \<Rightarrow> bool" where
  "points_ok m key B \<longleftrightarrow> (\<forall>k bid. hm_get m k = Some bid \<longrightarrow> bid \<in> holders key B k)"

lemma holders_add:
  "B bid = None \<Longrightarrow> holders key (B(bid \<mapsto> b)) k =
    (if k = key b then insert bid (holders key B k) else holders key B k)"
  by (auto simp: holders_def)

lemma holders_del:
  "B bid = Some b \<Longrightarrow> holders key (B(bid := None)) k =
    (if k = key b then holders key B k - {bid} else holders key B k)"
  by (auto simp: holders_def)

lemma holders_upd:
  "B bid = Some b \<Longrightarrow> key b' = key b \<Longrightarrow> holders key (B(bid \<mapsto> b')) = holders key B"
  by (auto simp: holders_def fun_eq_iff)

lemma in_holders: "B bid = Some b \<Longrightarrow> bid \<in> holders key B (key b)"
  by (auto simp: holders_def)

lemma not_in_holders: "B bid = None \<Longrightarrow> bid \<notin> holders key B k"
  by (auto simp: holders_def)

lemma index_ok_add:
  "index_ok m key B \<Longrightarrow> B bid = None \<Longrightarrow> index_ok (push_id (key b) bid m) key (B(bid \<mapsto> b))"
  by (auto simp: index_ok_def push_id_def get_or_insert holders_add not_in_holders)

lemma index_ok_del:
  "index_ok m key B \<Longrightarrow> B bid = Some b \<Longrightarrow>
    index_ok (hm_modify (key b) (filter (\<lambda>x. x \<noteq> bid)) m) key (B(bid := None))"
  by (auto simp: index_ok_def get_or_modify holders_del)

lemma unique_ok_add:
  assumes "unique_ok m key B" "B bid = None" "hm_get m (key b) = None"
  shows "unique_ok (hm_insert (key b) bid m) key (B(bid \<mapsto> b))"
proof -
  have "holders key B (key b) = {}" using assms(1,3) unfolding unique_ok_def by (metis equals0I option.distinct(1))
  then show ?thesis
    using assms(1,2) unfolding unique_ok_def by (auto simp: hm_get_insert holders_add)
qed

lemma unique_ok_del:
  assumes "unique_ok m key B" "B bid = Some b"
  shows "unique_ok (hm_remove (key b) m) key (B(bid := None))"
proof -
  have eq: "hm_get m k = Some i \<longleftrightarrow> i \<in> holders key B k" for k i
    using assms(1) by (simp add: unique_ok_def)
  have m: "hm_get m (key b) = Some bid" using in_holders [of B bid b key] assms(2) eq by simp
  have e: "i \<in> holders key B (key b) \<longleftrightarrow> i = bid" for i
    using m unfolding eq [symmetric] by auto
  show ?thesis
    using holders_del [of B bid b key] assms(2) by (simp add: unique_ok_def hm_get_remove e eq)
qed

lemma points_ok_add:
  "points_ok m key B \<Longrightarrow> B bid = None \<Longrightarrow> points_ok (hm_insert (key b) bid m) key (B(bid \<mapsto> b))"
  unfolding points_ok_def by (auto simp: hm_get_insert holders_add)

lemma points_ok_del:
  "points_ok m key B \<Longrightarrow> B bid = Some b \<Longrightarrow>
    points_ok (if hm_get m (key b) = Some bid then hm_remove (key b) m else m) key (B(bid := None))"
  unfolding points_ok_def by (auto simp: hm_get_remove holders_del)

lemma count_ok_add:
  assumes "count_ok m key B" "B bid = None" "finite (holders key B (key b))"
    "card (holders key B (key b)) + 1 < 2 ^ 32"
  shows "count_ok (hm_insert (key b) (u32_add (get_or m (key b) 0) 1) m) key (B(bid \<mapsto> b))"
    and "get_or m (key b) 0 = card (holders key B (key b))"
proof -
  show g: "get_or m (key b) 0 = card (holders key B (key b))"
    using assms(1) by (simp add: count_ok_def get_or_def)
  show "count_ok (hm_insert (key b) (u32_add (get_or m (key b) 0) 1) m) key (B(bid \<mapsto> b))"
    unfolding g using assms not_in_holders [of B bid key]
    by (simp add: count_ok_def hm_get_insert holders_add)
qed

lemma count_ok_get:
  "count_ok m key B \<Longrightarrow> B bid = Some b \<Longrightarrow> hm_get m (key b) = Some (card (holders key B (key b)))"
  using in_holders [of B bid b key] by (auto simp: count_ok_def)

lemma count_ok_del:
  assumes "count_ok m key B" "B bid = Some b" "finite (holders key B (key b))"
  shows "count_ok (if card (holders key B (key b)) - 1 = 0 then hm_remove (key b) m
      else hm_insert (key b) (card (holders key B (key b)) - 1) m) key (B(bid := None))"
proof -
  have c: "card (holders key B (key b) - {bid}) = card (holders key B (key b)) - 1"
    using in_holders [of B bid b key] assms(2) by (simp add: card_Diff_singleton)
  have z: "holders key B (key b) - {bid} = {} \<longleftrightarrow> card (holders key B (key b)) - 1 = 0"
    using assms(3) c by (metis card_0_eq finite_Diff)
  show ?thesis
    using assms(1) c z unfolding count_ok_def
    using holders_del [of B bid b key] assms(2) by (simp add: hm_get_insert hm_get_remove)
qed

section \<open>The binding invariant\<close>

definition live :: "catalog \<Rightarrow> live" where
  "live c = hm_get (bindings c)"

definition idx_inv :: "catalog \<Rightarrow> bool" where
  "idx_inv c \<longleftrightarrow>
    (\<forall>bid b. live c bid = Some b \<longrightarrow> b_binding_id b = bid \<and> bid < next_binding_id c) \<and>
    next_binding_id c < 2 ^ 32 \<and> hm_ok (bindings c) \<and>
    index_ok (by_stream c) b_stream_id (live c) \<and>
    index_ok (by_consumer c) b_consumer_id (live c) \<and>
    index_ok (by_connection c) b_connection_id (live c) \<and>
    unique_ok (by_subscription c) b_subscription_id (live c) \<and>
    points_ok (by_conn_subscription c) (\<lambda>b. (b_connection_id b, b_external_sub_id b)) (live c) \<and>
    count_ok (by_conn_consumer c) (\<lambda>b. (b_connection_id b, b_consumer_id b)) (live c) \<and>
    count_ok (demand c) b_stream_id (live c)"

lemma idx_inv_new: "idx_inv catalog_new"
  by (simp add: idx_inv_def catalog_new_def live_def index_ok_def unique_ok_def points_ok_def count_ok_def
      holders_def get_or_def)

lemma holders_bound:
  assumes "idx_inv c"
  shows "finite (holders key (live c) k)" and "card (holders key (live c) k) \<le> next_binding_id c"
proof -
  have "holders key (live c) k \<subseteq> {0..<next_binding_id c}"
    using assms by (auto simp: idx_inv_def holders_def)
  then show "finite (holders key (live c) k)" "card (holders key (live c) k) \<le> next_binding_id c"
    using card_mono [of "{0..<next_binding_id c}"] by (auto intro: finite_subset)
qed

text \<open>The fields the match-table updates leave alone.\<close>

lemma match_table_mut_sel [simp]:
  "streams (match_table_mut s f c) = streams c" "consumers (match_table_mut s f c) = consumers c"
  "subscriptions (match_table_mut s f c) = subscriptions c" "bindings (match_table_mut s f c) = bindings c"
  "by_stream (match_table_mut s f c) = by_stream c" "by_consumer (match_table_mut s f c) = by_consumer c"
  "by_connection (match_table_mut s f c) = by_connection c"
  "by_subscription (match_table_mut s f c) = by_subscription c"
  "by_conn_subscription (match_table_mut s f c) = by_conn_subscription c"
  "by_conn_consumer (match_table_mut s f c) = by_conn_consumer c"
  "next_binding_id (match_table_mut s f c) = next_binding_id c"
  "connections (match_table_mut s f c) = connections c" "demand (match_table_mut s f c) = demand c"
  by (simp_all add: match_table_mut_def split: option.splits)

lemma match_table_or_new_sel [simp]:
  "streams (match_table_or_new s f c) = streams c" "consumers (match_table_or_new s f c) = consumers c"
  "subscriptions (match_table_or_new s f c) = subscriptions c"
  "bindings (match_table_or_new s f c) = bindings c"
  "by_stream (match_table_or_new s f c) = by_stream c" "by_consumer (match_table_or_new s f c) = by_consumer c"
  "by_connection (match_table_or_new s f c) = by_connection c"
  "by_subscription (match_table_or_new s f c) = by_subscription c"
  "by_conn_subscription (match_table_or_new s f c) = by_conn_subscription c"
  "by_conn_consumer (match_table_or_new s f c) = by_conn_consumer c"
  "next_binding_id (match_table_or_new s f c) = next_binding_id c"
  "connections (match_table_or_new s f c) = connections c" "demand (match_table_or_new s f c) = demand c"
  by (simp_all add: match_table_or_new_def ensure_match_table_slot_def Let_def)

lemma idx_inv_cong:
  assumes "idx_inv c" "bindings c' = bindings c" "by_stream c' = by_stream c" "by_consumer c' = by_consumer c"
    "by_connection c' = by_connection c" "by_subscription c' = by_subscription c"
    "by_conn_subscription c' = by_conn_subscription c" "by_conn_consumer c' = by_conn_consumer c"
    "next_binding_id c' = next_binding_id c" "demand c' = demand c"
  shows "idx_inv c'"
  using assms(1) unfolding idx_inv_def live_def assms(2-) .

section \<open>Retiring\<close>

definition retired :: "u32 \<Rightarrow> catalog \<Rightarrow> delta_events \<Rightarrow> catalog" where
  "retired bid c ev = fst (snd (cat_retire_binding bid c ev))"

definition retired_events :: "u32 \<Rightarrow> catalog \<Rightarrow> delta_events \<Rightarrow> delta_events" where
  "retired_events bid c ev = snd (snd (cat_retire_binding bid c ev))"

definition count_dec :: "'k \<Rightarrow> ('k, u32) hmap \<Rightarrow> ('k, u32) hmap" where
  "count_dec k m = (case hm_get m k of
     Some n \<Rightarrow> if n - 1 = 0 then hm_remove k m else hm_insert k (n - 1) m
   | None \<Rightarrow> m)"

lemma count_ok_dec:
  assumes "count_ok m key B" "B bid = Some b" "finite (holders key B (key b))"
  shows "count_ok (count_dec (key b) m) key (B(bid := None))"
  using count_ok_del [OF assms] by (simp add: count_dec_def count_ok_get [OF assms(1,2)])

lemma dec_demand_sel [simp]:
  "streams (fst (dec_demand s c ev)) = streams c" "consumers (fst (dec_demand s c ev)) = consumers c"
  "subscriptions (fst (dec_demand s c ev)) = subscriptions c" "bindings (fst (dec_demand s c ev)) = bindings c"
  "by_stream (fst (dec_demand s c ev)) = by_stream c" "by_consumer (fst (dec_demand s c ev)) = by_consumer c"
  "by_connection (fst (dec_demand s c ev)) = by_connection c"
  "by_subscription (fst (dec_demand s c ev)) = by_subscription c"
  "by_conn_subscription (fst (dec_demand s c ev)) = by_conn_subscription c"
  "by_conn_consumer (fst (dec_demand s c ev)) = by_conn_consumer c"
  "next_binding_id (fst (dec_demand s c ev)) = next_binding_id c"
  "connections (fst (dec_demand s c ev)) = connections c"
  "match_tables (fst (dec_demand s c ev)) = match_tables c"
  "demand (fst (dec_demand s c ev)) = count_dec s (demand c)"
  by (simp_all add: dec_demand_def count_dec_def split: option.splits)

lemma unbind_subscription_connection_sel [simp]:
  "streams (unbind_subscription_connection s i c) = streams c"
  "consumers (unbind_subscription_connection s i c) = consumers c"
  "subscriptions (unbind_subscription_connection s i c) = subscriptions c"
  "bindings (unbind_subscription_connection s i c) = bindings c"
  "by_stream (unbind_subscription_connection s i c) = by_stream c"
  "by_consumer (unbind_subscription_connection s i c) = by_consumer c"
  "by_connection (unbind_subscription_connection s i c) = by_connection c"
  "by_subscription (unbind_subscription_connection s i c) = by_subscription c"
  "by_conn_subscription (unbind_subscription_connection s i c) = by_conn_subscription c"
  "by_conn_consumer (unbind_subscription_connection s i c) = by_conn_consumer c"
  "next_binding_id (unbind_subscription_connection s i c) = next_binding_id c"
  "connections (unbind_subscription_connection s i c) = connections c"
  "demand (unbind_subscription_connection s i c) = demand c"
  by (simp_all add: unbind_subscription_connection_def)

lemma match_tables_mut:
  "match_tables (match_table_mut s f c) = (match_tables c)[s := map_option f (slot_get (match_tables c) s)]"
proof (cases "s < length (match_tables c)")
  case True
  then show ?thesis
    using list_update_id [of "match_tables c" s]
    by (cases "match_tables c ! s") (simp_all add: match_table_mut_def slot_get_def)
qed (simp add: match_table_mut_def slot_get_def list_update_beyond)

lemma match_tables_unbind:
  "match_tables (unbind_subscription_connection s i c) =
    (match_tables c)[s := map_option (unbind_subscription i) (slot_get (match_tables c) s)]"
  by (simp add: unbind_subscription_connection_def match_tables_mut)

lemma retire_None: "live c bid = None \<Longrightarrow> cat_retire_binding bid c ev = (None, c, ev)"
  by (simp add: cat_retire_binding_def live_def)

lemma retire_Some:
  assumes "live c bid = Some b"
  shows "fst (cat_retire_binding bid c ev) = Some b"
    and "bindings (retired bid c ev) = hm_remove bid (bindings c)"
    and "by_stream (retired bid c ev) = hm_modify (b_stream_id b) (filter (\<lambda>x. x \<noteq> bid)) (by_stream c)"
    and "by_consumer (retired bid c ev) = hm_modify (b_consumer_id b) (filter (\<lambda>x. x \<noteq> bid)) (by_consumer c)"
    and "by_connection (retired bid c ev) =
      hm_modify (b_connection_id b) (filter (\<lambda>x. x \<noteq> bid)) (by_connection c)"
    and "by_subscription (retired bid c ev) =
      (if hm_get (by_subscription c) (b_subscription_id b) = Some bid
       then hm_remove (b_subscription_id b) (by_subscription c) else by_subscription c)"
    and "by_conn_subscription (retired bid c ev) =
      (if hm_get (by_conn_subscription c) (b_connection_id b, b_external_sub_id b) = Some bid
       then hm_remove (b_connection_id b, b_external_sub_id b) (by_conn_subscription c)
       else by_conn_subscription c)"
    and "by_conn_consumer (retired bid c ev) =
      (case hm_get (by_conn_consumer c) (b_connection_id b, b_consumer_id b) of
         Some n \<Rightarrow> let n1 = u32_sub n 1
           in if n1 = 0 then hm_remove (b_connection_id b, b_consumer_id b) (by_conn_consumer c)
              else hm_insert (b_connection_id b, b_consumer_id b) n1 (by_conn_consumer c)
       | None \<Rightarrow> by_conn_consumer c)"
    and "next_binding_id (retired bid c ev) = next_binding_id c"
    and "demand (retired bid c ev) = count_dec (b_stream_id b) (demand c)"
    and "streams (retired bid c ev) = streams c" and "consumers (retired bid c ev) = consumers c"
    and "subscriptions (retired bid c ev) = subscriptions c"
    and "connections (retired bid c ev) = connections c"
    and "match_tables (retired bid c ev) =
      (match_tables c)[b_stream_id b := map_option (unbind_subscription (b_subscription_id b))
        (slot_get (match_tables c) (b_stream_id b))]"
  using assms
  by (simp_all add: retired_def cat_retire_binding_def live_def Let_def case_prod_beta match_tables_unbind)

lemma live_retired: "live (retired bid c ev) = (live c)(bid := None)"
proof (cases "live c bid")
  case None
  then show ?thesis by (simp add: retired_def retire_None fun_upd_idem)
next
  case (Some b)
  then show ?thesis by (auto simp: live_def retire_Some(2) hm_get_remove fun_eq_iff)
qed

lemma idx_inv_retired:
  assumes inv: "idx_inv c"
  shows "idx_inv (retired bid c ev)"
proof (cases "live c bid")
  case None
  then show ?thesis using inv by (simp add: retired_def retire_None)
next
  case (Some b)
  let ?cc = "\<lambda>b. (b_connection_id b, b_consumer_id b)"
  let ?cs = "\<lambda>b. (b_connection_id b, b_external_sub_id b)"
  note i = inv [unfolded idx_inv_def]
  have u: "hm_get (by_subscription c) (b_subscription_id b) = Some bid"
    using i Some in_holders [of "live c" bid b b_subscription_id] unfolding unique_ok_def by simp
  have n: "hm_get (by_conn_consumer c) (?cc b) = Some (card (holders ?cc (live c) (?cc b)))"
    using count_ok_get [of "by_conn_consumer c" ?cc "live c" bid b] i Some by simp
  have lt: "card (holders ?cc (live c) (?cc b)) < 2 ^ 32" "0 < card (holders ?cc (live c) (?cc b))"
    using holders_bound [OF inv, of ?cc "?cc b"] i in_holders [of "live c" bid b ?cc] Some
    by (auto simp: card_gt_0_iff)
  have cd: "by_conn_consumer (retired bid c ev) = count_dec (?cc b) (by_conn_consumer c)"
    unfolding retire_Some(8) [OF Some] count_dec_def n using lt by (simp add: Let_def)
  show ?thesis
    unfolding idx_inv_def live_retired
  proof (intro conjI)
    show "\<forall>i b'. ((live c)(bid := None)) i = Some b' \<longrightarrow>
        b_binding_id b' = i \<and> i < next_binding_id (retired bid c ev)"
      using i by (simp add: retire_Some(9) [OF Some])
    show "next_binding_id (retired bid c ev) < 2 ^ 32" "hm_ok (bindings (retired bid c ev))"
      using i by (simp_all add: retire_Some(2,9) [OF Some] hm_ok_remove)
    show "index_ok (by_stream (retired bid c ev)) b_stream_id ((live c)(bid := None))"
      "index_ok (by_consumer (retired bid c ev)) b_consumer_id ((live c)(bid := None))"
      "index_ok (by_connection (retired bid c ev)) b_connection_id ((live c)(bid := None))"
      unfolding retire_Some(3-5) [OF Some] using i Some by (auto intro: index_ok_del)
    show "unique_ok (by_subscription (retired bid c ev)) b_subscription_id ((live c)(bid := None))"
      unfolding retire_Some(6) [OF Some] using i Some u by (auto intro: unique_ok_del)
    show "points_ok (by_conn_subscription (retired bid c ev)) ?cs ((live c)(bid := None))"
      unfolding retire_Some(7) [OF Some] using i Some points_ok_del [of "by_conn_subscription c" ?cs "live c" bid b]
      by simp
    show "count_ok (by_conn_consumer (retired bid c ev)) ?cc ((live c)(bid := None))"
      unfolding cd using i Some holders_bound(1) [OF inv, of ?cc "?cc b"]
        count_ok_dec [of "by_conn_consumer c" ?cc "live c" bid b] by simp
    show "count_ok (demand (retired bid c ev)) b_stream_id ((live c)(bid := None))"
      unfolding retire_Some(10) [OF Some] using i Some holders_bound(1) [OF inv, of b_stream_id "b_stream_id b"]
        count_ok_dec [of "demand c" b_stream_id "live c" bid b] by simp
  qed
qed

section \<open>Subscribing\<close>

definition new_binding :: "u64 \<Rightarrow> u32 \<Rightarrow> subscription_info \<Rightarrow> consumer_info \<Rightarrow> u32 \<Rightarrow> binding" where
  "new_binding conn sid sub consumer bid =
    \<lparr>b_binding_id = bid, b_stream_id = ui_stream_id sub, b_consumer_id = ui_consumer_id sub,
     b_connection_id = conn, b_subscription_id = sid, b_external_sub_id = ui_external_id sub,
     b_queue_id = ci_queue_id consumer, b_max_inflight = ci_max_inflight consumer,
     b_paused = ci_paused consumer, b_fire_and_forget = (ci_ack_policy consumer = AckNone),
     b_pending = []\<rparr>"

lemma new_binding_sel [simp]:
  "b_binding_id (new_binding conn sid sub consumer bid) = bid"
  "b_stream_id (new_binding conn sid sub consumer bid) = ui_stream_id sub"
  "b_consumer_id (new_binding conn sid sub consumer bid) = ui_consumer_id sub"
  "b_connection_id (new_binding conn sid sub consumer bid) = conn"
  "b_subscription_id (new_binding conn sid sub consumer bid) = sid"
  "b_external_sub_id (new_binding conn sid sub consumer bid) = ui_external_id sub"
  "b_queue_id (new_binding conn sid sub consumer bid) = ci_queue_id consumer"
  "b_pending (new_binding conn sid sub consumer bid) = []"
  by (simp_all add: new_binding_def)

text \<open>The catalog once the previous binding of the subscription is gone.\<close>

definition displaced :: "u32 \<Rightarrow> catalog \<Rightarrow> delta_events \<Rightarrow> catalog" where
  "displaced sid c ev = (case hm_get (by_subscription c) sid of
     Some old \<Rightarrow> retired old c ev | None \<Rightarrow> c)"

definition subscribed :: "u64 \<Rightarrow> u32 \<Rightarrow> catalog \<Rightarrow> delta_events \<Rightarrow> catalog" where
  "subscribed conn sid c ev = fst (snd (cat_subscribe conn sid c ev))"

lemma idx_inv_displaced: "idx_inv c \<Longrightarrow> idx_inv (displaced sid c ev)"
  by (simp add: displaced_def idx_inv_retired split: option.split)

lemma displaced_sel:
  assumes "idx_inv c"
  shows "next_binding_id (displaced sid c ev) = next_binding_id c"
    and "streams (displaced sid c ev) = streams c" and "consumers (displaced sid c ev) = consumers c"
    and "subscriptions (displaced sid c ev) = subscriptions c"
    and "connections (displaced sid c ev) = connections c"
    and "hm_get (by_subscription (displaced sid c ev)) sid = None"
proof -
  have "live c old = Some b \<Longrightarrow> hm_get (by_subscription c) sid = Some old \<Longrightarrow> b_subscription_id b = sid" for old b
    using assms by (simp add: idx_inv_def unique_ok_def holders_def)
  moreover have "hm_get (by_subscription c) sid = Some old \<Longrightarrow> \<exists>b. live c old = Some b" for old
    using assms by (auto simp: idx_inv_def unique_ok_def holders_def)
  ultimately show "next_binding_id (displaced sid c ev) = next_binding_id c"
    "streams (displaced sid c ev) = streams c" "consumers (displaced sid c ev) = consumers c"
    "subscriptions (displaced sid c ev) = subscriptions c"
    "connections (displaced sid c ev) = connections c"
    "hm_get (by_subscription (displaced sid c ev)) sid = None"
    by (auto simp: displaced_def retire_Some hm_get_remove split: option.split)
qed

lemma bind_subscription_connection_sel [simp]:
  "streams (bind_subscription_connection s i n c) = streams c"
  "consumers (bind_subscription_connection s i n c) = consumers c"
  "subscriptions (bind_subscription_connection s i n c) = subscriptions c"
  "bindings (bind_subscription_connection s i n c) = bindings c"
  "by_stream (bind_subscription_connection s i n c) = by_stream c"
  "by_consumer (bind_subscription_connection s i n c) = by_consumer c"
  "by_connection (bind_subscription_connection s i n c) = by_connection c"
  "by_subscription (bind_subscription_connection s i n c) = by_subscription c"
  "by_conn_subscription (bind_subscription_connection s i n c) = by_conn_subscription c"
  "by_conn_consumer (bind_subscription_connection s i n c) = by_conn_consumer c"
  "next_binding_id (bind_subscription_connection s i n c) = next_binding_id c"
  "connections (bind_subscription_connection s i n c) = connections c"
  "demand (bind_subscription_connection s i n c) = demand c"
  "match_tables (bind_subscription_connection s i n c) =
    (match_tables c)[s := map_option (bind_subscription i n) (slot_get (match_tables c) s)]"
  by (simp_all add: bind_subscription_connection_def match_tables_mut)

lemma subscribe_error:
  "hm_get (subscriptions c) sid = None \<Longrightarrow>
     cat_subscribe conn sid c ev = (Inl subscription_not_found, c, ev)"
  "hm_get (subscriptions c) sid = Some sub \<Longrightarrow> slot_get (consumers c) (ui_consumer_id sub) = None \<Longrightarrow>
     cat_subscribe conn sid c ev = (Inl consumer_not_found, c, ev)"
  by (simp_all add: cat_subscribe_def)

lemma subscribe_Some:
  fixes c conn sid ev
  defines "d \<equiv> displaced sid c ev"
  assumes "hm_get (subscriptions c) sid = Some sub" "slot_get (consumers c) (ui_consumer_id sub) = Some consumer"
  shows "fst (cat_subscribe conn sid c ev) = Inr (next_binding_id d)"
    and "bindings (subscribed conn sid c ev) = hm_insert (next_binding_id d)
      (new_binding conn sid sub consumer (next_binding_id d)) (bindings d)"
    and "by_stream (subscribed conn sid c ev) = push_id (ui_stream_id sub) (next_binding_id d) (by_stream d)"
    and "by_consumer (subscribed conn sid c ev) = push_id (ui_consumer_id sub) (next_binding_id d) (by_consumer d)"
    and "by_connection (subscribed conn sid c ev) = push_id conn (next_binding_id d) (by_connection d)"
    and "by_subscription (subscribed conn sid c ev) = hm_insert sid (next_binding_id d) (by_subscription d)"
    and "by_conn_subscription (subscribed conn sid c ev) =
      hm_insert (conn, ui_external_id sub) (next_binding_id d) (by_conn_subscription d)"
    and "by_conn_consumer (subscribed conn sid c ev) = hm_insert (conn, ui_consumer_id sub)
      (u32_add (get_or (by_conn_consumer d) (conn, ui_consumer_id sub) 0) 1) (by_conn_consumer d)"
    and "next_binding_id (subscribed conn sid c ev) = u32_add (next_binding_id d) 1"
    and "demand (subscribed conn sid c ev) =
      hm_insert (ui_stream_id sub) (u32_add (get_or (demand d) (ui_stream_id sub) 0) 1) (demand d)"
    and "streams (subscribed conn sid c ev) = streams d" and "consumers (subscribed conn sid c ev) = consumers d"
    and "subscriptions (subscribed conn sid c ev) = subscriptions d"
    and "connections (subscribed conn sid c ev) = connections d"
    and "match_tables (subscribed conn sid c ev) =
      (match_tables d)[ui_stream_id sub := map_option (bind_subscription sid conn)
        (slot_get (match_tables d) (ui_stream_id sub))]"
proof -
  have d: "d = fst (case hm_get (by_subscription c) sid of
      Some old \<Rightarrow> snd (cat_retire_binding old c ev) | None \<Rightarrow> (c, ev))"
    by (simp add: d_def displaced_def retired_def split: option.split)
  note * = subscribed_def cat_subscribe_def inc_demand_def Let_def case_prod_beta new_binding_def
  show "fst (cat_subscribe conn sid c ev) = Inr (next_binding_id d)"
    unfolding d using assms(2,3) by (simp add: *)
  show "bindings (subscribed conn sid c ev) = hm_insert (next_binding_id d)
      (new_binding conn sid sub consumer (next_binding_id d)) (bindings d)"
    unfolding d using assms(2,3) by (simp add: *)
  show "by_stream (subscribed conn sid c ev) = push_id (ui_stream_id sub) (next_binding_id d) (by_stream d)"
    "by_consumer (subscribed conn sid c ev) = push_id (ui_consumer_id sub) (next_binding_id d) (by_consumer d)"
    "by_connection (subscribed conn sid c ev) = push_id conn (next_binding_id d) (by_connection d)"
    "by_subscription (subscribed conn sid c ev) = hm_insert sid (next_binding_id d) (by_subscription d)"
    "by_conn_subscription (subscribed conn sid c ev) =
      hm_insert (conn, ui_external_id sub) (next_binding_id d) (by_conn_subscription d)"
    "by_conn_consumer (subscribed conn sid c ev) = hm_insert (conn, ui_consumer_id sub)
      (u32_add (get_or (by_conn_consumer d) (conn, ui_consumer_id sub) 0) 1) (by_conn_consumer d)"
    "next_binding_id (subscribed conn sid c ev) = u32_add (next_binding_id d) 1"
    "demand (subscribed conn sid c ev) =
      hm_insert (ui_stream_id sub) (u32_add (get_or (demand d) (ui_stream_id sub) 0) 1) (demand d)"
    "streams (subscribed conn sid c ev) = streams d" "consumers (subscribed conn sid c ev) = consumers d"
    "subscriptions (subscribed conn sid c ev) = subscriptions d"
    "connections (subscribed conn sid c ev) = connections d"
    "match_tables (subscribed conn sid c ev) =
      (match_tables d)[ui_stream_id sub := map_option (bind_subscription sid conn)
        (slot_get (match_tables d) (ui_stream_id sub))]"
    unfolding d using assms(2,3) by (simp_all add: *)
qed

lemma live_subscribed:
  assumes "hm_get (subscriptions c) sid = Some sub" "slot_get (consumers c) (ui_consumer_id sub) = Some consumer"
    "idx_inv c"
  shows "live (subscribed conn sid c ev) = (live (displaced sid c ev))
    (next_binding_id c \<mapsto> new_binding conn sid sub consumer (next_binding_id c))"
  unfolding live_def subscribe_Some(2) [OF assms(1,2)] displaced_sel(1) [OF assms(3)]
  by (auto simp: hm_get_insert fun_eq_iff)

lemma idx_inv_subscribed:
  assumes inv: "idx_inv c" and lt: "next_binding_id c + 1 < 2 ^ 32"
  shows "idx_inv (subscribed conn sid c ev)"
proof (cases "hm_get (subscriptions c) sid")
  case None
  then show ?thesis using inv by (simp add: subscribed_def subscribe_error)
next
  case sub: (Some sub)
  show ?thesis
  proof (cases "slot_get (consumers c) (ui_consumer_id sub)")
    case None
    then show ?thesis using inv sub by (simp add: subscribed_def subscribe_error)
  next
    case con: (Some consumer)
    let ?cc = "\<lambda>b. (b_connection_id b, b_consumer_id b)"
    let ?cs = "\<lambda>b. (b_connection_id b, b_external_sub_id b)"
    define d where "d = displaced sid c ev"
    define n where "n = next_binding_id c"
    define b where "b = new_binding conn sid sub consumer n"
    have dinv: "idx_inv d" unfolding d_def by (rule idx_inv_displaced [OF inv])
    note i = dinv [unfolded idx_inv_def]
    have nd: "next_binding_id d = n" "hm_get (by_subscription d) sid = None"
      using displaced_sel [OF inv] by (simp_all add: d_def n_def)
    note s = subscribe_Some [OF sub con, of conn ev, folded d_def, unfolded nd, folded b_def]
    have lv: "live (subscribed conn sid c ev) = (live d)(n \<mapsto> b)"
      using live_subscribed [OF sub con inv] by (simp add: d_def n_def b_def)
    have fresh: "live d n = None"
      using i nd by (metis less_irrefl option.exhaust)
    have le: "card (holders key (live d) k) + 1 < 2 ^ 32" for key :: "binding \<Rightarrow> 'k" and k
      using holders_bound(2) [OF dinv, of key k] lt nd by (simp add: n_def)
    have bk: "b_stream_id b = ui_stream_id sub" "b_consumer_id b = ui_consumer_id sub"
      "b_connection_id b = conn" "b_subscription_id b = sid" "b_external_sub_id b = ui_external_id sub"
      "b_binding_id b = n"
      by (simp_all add: b_def)
    show ?thesis
      unfolding idx_inv_def lv
    proof (intro conjI)
      show "\<forall>bid b'. ((live d)(n \<mapsto> b)) bid = Some b' \<longrightarrow>
          b_binding_id b' = bid \<and> bid < next_binding_id (subscribed conn sid c ev)"
        using i lt nd(1) bk(6) unfolding s(9) n_def [symmetric] by (auto simp: less_Suc_eq)
      show "next_binding_id (subscribed conn sid c ev) < 2 ^ 32"
        using lt unfolding s(9) n_def [symmetric] by simp
      show "hm_ok (bindings (subscribed conn sid c ev))" unfolding s(2) using i by (simp add: hm_ok_insert)
      show "index_ok (by_stream (subscribed conn sid c ev)) b_stream_id ((live d)(n \<mapsto> b))"
        "index_ok (by_consumer (subscribed conn sid c ev)) b_consumer_id ((live d)(n \<mapsto> b))"
        "index_ok (by_connection (subscribed conn sid c ev)) b_connection_id ((live d)(n \<mapsto> b))"
        using index_ok_add [of "by_stream d" b_stream_id "live d" n b]
          index_ok_add [of "by_consumer d" b_consumer_id "live d" n b]
          index_ok_add [of "by_connection d" b_connection_id "live d" n b] i fresh bk
        unfolding s(3-5) by simp_all
      show "unique_ok (by_subscription (subscribed conn sid c ev)) b_subscription_id ((live d)(n \<mapsto> b))"
        using unique_ok_add [of "by_subscription d" b_subscription_id "live d" n b] i fresh nd(2) bk(4)
        unfolding s(6) by simp
      show "points_ok (by_conn_subscription (subscribed conn sid c ev)) ?cs ((live d)(n \<mapsto> b))"
        using points_ok_add [of "by_conn_subscription d" ?cs "live d" n b] i fresh bk
        unfolding s(7) by simp
      show "count_ok (by_conn_consumer (subscribed conn sid c ev)) ?cc ((live d)(n \<mapsto> b))"
        using count_ok_add(1) [of "by_conn_consumer d" ?cc "live d" n b] i fresh bk
          holders_bound(1) [OF dinv, of ?cc "?cc b"] le [of ?cc "?cc b"]
        unfolding s(8) by simp
      show "count_ok (demand (subscribed conn sid c ev)) b_stream_id ((live d)(n \<mapsto> b))"
        using count_ok_add(1) [of "demand d" b_stream_id "live d" n b] i fresh bk
          holders_bound(1) [OF dinv, of b_stream_id "b_stream_id b"] le [of b_stream_id "b_stream_id b"]
        unfolding s(10) by simp
    qed
  qed
qed

end
