(* ===== verification/Catalog_Routes.thy ===== *)
theory Catalog_Routes
  imports Catalog_Inv
begin

text \<open>
  The entity invariant of the catalog: subscriptions refer to consumers of
  their stream, bindings to subscriptions, and the match table of each stream
  stands for exactly the filters of the stream's subscriptions, each with the
  connection its subscription is bound to.  Every catalog operation keeps it.
\<close>

section \<open>The routes a catalog prescribes\<close>

definition conn_of :: "catalog \<Rightarrow> u32 \<Rightarrow> u64" where
  "conn_of c sid = (case hm_get (by_subscription c) sid of
     Some bid \<Rightarrow> (case live c bid of Some b \<Rightarrow> b_connection_id b | None \<Rightarrow> 0)
   | None \<Rightarrow> 0)"

definition queue_of :: "catalog \<Rightarrow> u32 \<Rightarrow> u32" where
  "queue_of c cid = (case slot_get (consumers c) cid of Some ci \<Rightarrow> ci_queue_id ci | None \<Rightarrow> 0)"

definition filters_of :: "subscription_info \<Rightarrow> bytes option set" where
  "filters_of u = (if ui_filters u = [] then {None} else Some ` set (ui_filters u))"

definition sub_key :: "catalog \<Rightarrow> u32 \<Rightarrow> subscription_info \<Rightarrow> mkey" where
  "sub_key c sid u = MKey (ui_consumer_id u) (queue_of c (ui_consumer_id u)) sid (conn_of c sid)"

definition routes_of :: "catalog \<Rightarrow> u32 \<Rightarrow> routes" where
  "routes_of c s = {x. \<exists>sid u. hm_get (subscriptions c) sid = Some u \<and> ui_stream_id u = s \<and>
     fst x \<in> filters_of u \<and> snd x = sub_key c sid u}"

lemma sub_key_sel [simp]:
  "key_sub (sub_key c sid u) = sid" "key_conn (sub_key c sid u) = conn_of c sid"
  "key_consumer (sub_key c sid u) = ui_consumer_id u"
  "key_queue (sub_key c sid u) = queue_of c (ui_consumer_id u)"
  by (simp_all add: sub_key_def)

lemma routes_of_None: "(None, k) \<in> routes_of c s \<longleftrightarrow> (\<exists>sid u. hm_get (subscriptions c) sid = Some u \<and>
    ui_stream_id u = s \<and> ui_filters u = [] \<and> k = sub_key c sid u)"
  by (auto simp: routes_of_def filters_of_def split: if_splits)

lemma routes_of_Some: "(Some f, k) \<in> routes_of c s \<longleftrightarrow> (\<exists>sid u. hm_get (subscriptions c) sid = Some u \<and>
    ui_stream_id u = s \<and> f \<in> set (ui_filters u) \<and> k = sub_key c sid u)"
  by (force simp: routes_of_def filters_of_def split: if_splits)

lemma routes_of_cong:
  assumes "subscriptions c' = subscriptions c"
    "\<And>sid u. hm_get (subscriptions c) sid = Some u \<Longrightarrow> ui_stream_id u = s \<Longrightarrow> sub_key c' sid u = sub_key c sid u"
  shows "routes_of c' s = routes_of c s"
  unfolding routes_of_def assms(1) using assms(2) by (intro Collect_cong ex_cong1) auto

definition ent_inv :: "(bytes \<Rightarrow> u32) \<Rightarrow> bytes set \<Rightarrow> catalog \<Rightarrow> bool" where
  "ent_inv hash F c \<longleftrightarrow>
    (\<forall>s. slot_get (match_tables c) s = None \<longleftrightarrow> \<not> stream_exists c s) \<and>
    (\<forall>s t. slot_get (match_tables c) s = Some t \<longrightarrow> mt_rep hash F t (routes_of c s)) \<and>
    (\<forall>sid u. hm_get (subscriptions c) sid = Some u \<longrightarrow>
      (\<exists>ci. slot_get (consumers c) (ui_consumer_id u) = Some ci \<and> ci_stream_id ci = ui_stream_id u)) \<and>
    (\<forall>cid ci. slot_get (consumers c) cid = Some ci \<longrightarrow> stream_exists c (ci_stream_id ci)) \<and>
    (\<forall>bid b. live c bid = Some b \<longrightarrow> (\<exists>u. hm_get (subscriptions c) (b_subscription_id b) = Some u \<and>
      ui_stream_id u = b_stream_id b \<and> ui_consumer_id u = b_consumer_id b \<and>
      ui_external_id u = b_external_sub_id b \<and> queue_of c (b_consumer_id b) = b_queue_id b))"

lemma ent_invD:
  assumes "ent_inv hash F c"
  shows "slot_get (match_tables c) s = None \<longleftrightarrow> \<not> stream_exists c s"
    and "slot_get (match_tables c) s = Some t \<Longrightarrow> mt_rep hash F t (routes_of c s)"
    and "hm_get (subscriptions c) sid = Some u \<Longrightarrow>
      \<exists>ci. slot_get (consumers c) (ui_consumer_id u) = Some ci \<and> ci_stream_id ci = ui_stream_id u"
    and "slot_get (consumers c) cid = Some ci \<Longrightarrow> stream_exists c (ci_stream_id ci)"
    and "live c bid = Some b \<Longrightarrow> \<exists>u. hm_get (subscriptions c) (b_subscription_id b) = Some u \<and>
      ui_stream_id u = b_stream_id b \<and> ui_consumer_id u = b_consumer_id b \<and>
      ui_external_id u = b_external_sub_id b \<and> queue_of c (b_consumer_id b) = b_queue_id b"
  using assms unfolding ent_inv_def by blast+

lemma ent_invI:
  assumes "\<And>s. slot_get (match_tables c) s = None \<longleftrightarrow> \<not> stream_exists c s"
    "\<And>s t. slot_get (match_tables c) s = Some t \<Longrightarrow> mt_rep hash F t (routes_of c s)"
    "\<And>sid u. hm_get (subscriptions c) sid = Some u \<Longrightarrow>
      \<exists>ci. slot_get (consumers c) (ui_consumer_id u) = Some ci \<and> ci_stream_id ci = ui_stream_id u"
    "\<And>cid ci. slot_get (consumers c) cid = Some ci \<Longrightarrow> stream_exists c (ci_stream_id ci)"
    "\<And>bid b. live c bid = Some b \<Longrightarrow> \<exists>u. hm_get (subscriptions c) (b_subscription_id b) = Some u \<and>
      ui_stream_id u = b_stream_id b \<and> ui_consumer_id u = b_consumer_id b \<and>
      ui_external_id u = b_external_sub_id b \<and> queue_of c (b_consumer_id b) = b_queue_id b"
  shows "ent_inv hash F c"
  using assms unfolding ent_inv_def by blast

definition cat_inv :: "(bytes \<Rightarrow> u32) \<Rightarrow> bytes set \<Rightarrow> catalog \<Rightarrow> bool" where
  "cat_inv hash F c \<longleftrightarrow> idx_inv c \<and> ent_inv hash F c \<and> hm_ok (subscriptions c)"

lemma cat_inv_new: "cat_inv hash F catalog_new"
  unfolding cat_inv_def using idx_inv_new
  by (auto simp: hm_ok_def catalog_new_def slot_get_def stream_exists_def live_def intro!: ent_invI)

text \<open>The connection a subscription is bound to.\<close>

lemma by_subscription_live:
  "idx_inv c \<Longrightarrow> hm_get (by_subscription c) sid = Some bid \<longleftrightarrow>
    (\<exists>b. live c bid = Some b \<and> b_subscription_id b = sid)"
  by (simp add: idx_inv_def unique_ok_def holders_def)

lemma conn_of_live:
  assumes "idx_inv c" "live c bid = Some b"
  shows "conn_of c (b_subscription_id b) = b_connection_id b"
  using by_subscription_live [OF assms(1), of "b_subscription_id b" bid] assms(2) by (simp add: conn_of_def)

lemma conn_of_none:
  assumes "\<And>bid b. live c bid = Some b \<Longrightarrow> b_subscription_id b \<noteq> sid" "idx_inv c"
  shows "conn_of c sid = 0"
  using assms by (auto simp: conn_of_def idx_inv_def unique_ok_def holders_def split: option.split)

lemma conn_of_cong:
  assumes "idx_inv c" "idx_inv c'"
    "\<And>bid b. b_subscription_id b = sid \<Longrightarrow> live c' bid = Some b \<longleftrightarrow> live c bid = Some b"
  shows "conn_of c' sid = conn_of c sid"
proof (cases "\<exists>bid b. live c bid = Some b \<and> b_subscription_id b = sid")
  case True
  then obtain bid b where b: "live c bid = Some b" "b_subscription_id b = sid" by blast
  then have "live c' bid = Some b" using assms(3) by simp
  then show ?thesis using conn_of_live [OF assms(1) b(1)] conn_of_live [OF assms(2), of bid b] b(2) by simp
next
  case False
  then show ?thesis using conn_of_none [of c sid] conn_of_none [of c' sid] assms by metis
qed

section \<open>Retiring and subscribing\<close>

lemma routes_of_rebound:
  assumes "subscriptions c' = subscriptions c" "consumers c' = consumers c"
    "conn_of c' sid = n" "\<And>sid'. sid' \<noteq> sid \<Longrightarrow> conn_of c' sid' = conn_of c sid'"
  shows "routes_of c' s = rebound sid n (routes_of c s)"
proof -
  have k: "sub_key c' i u = rekey sid n (sub_key c i u)" for i u
    using assms(2-4) by (auto simp: sub_key_def rekey_def queue_of_def)
  show ?thesis
  proof (rule set_eqI)
    fix x :: "bytes option \<times> mkey"
    show "x \<in> routes_of c' s \<longleftrightarrow> x \<in> rebound sid n (routes_of c s)"
      unfolding rebound_iff [of "fst x" "snd x", simplified]
      unfolding routes_of_def assms(1) k mem_Collect_eq fst_conv snd_conv by metis
  qed
qed

lemma routes_of_unmoved:
  assumes "subscriptions c' = subscriptions c" "consumers c' = consumers c"
    "\<And>sid'. sid' \<noteq> sid \<Longrightarrow> conn_of c' sid' = conn_of c sid'"
    "\<And>u. hm_get (subscriptions c) sid = Some u \<Longrightarrow> ui_stream_id u \<noteq> s"
  shows "routes_of c' s = routes_of c s"
proof (rule routes_of_cong [OF assms(1)])
  fix i u
  assume "hm_get (subscriptions c) i = Some u" "ui_stream_id u = s"
  then have "i \<noteq> sid" using assms(4) by blast
  then show "sub_key c' i u = sub_key c i u" using assms(2,3) by (simp add: sub_key_def queue_of_def)
qed

lemma ent_inv_bound:
  assumes inv: "ent_inv hash F c" and sub: "hm_get (subscriptions c) sid = Some u"
    and same: "subscriptions c' = subscriptions c" "consumers c' = consumers c" "streams c' = streams c"
    and mt: "match_tables c' = (match_tables c)[ui_stream_id u := map_option (bind_subscription sid n)
      (slot_get (match_tables c) (ui_stream_id u))]"
    and conn: "conn_of c' sid = n" "\<And>sid'. sid' \<noteq> sid \<Longrightarrow> conn_of c' sid' = conn_of c sid'"
    and lv: "\<And>bid b. live c' bid = Some b \<Longrightarrow> live c bid = Some b \<or>
      (b_subscription_id b = sid \<and> b_stream_id b = ui_stream_id u \<and> b_consumer_id b = ui_consumer_id u \<and>
       b_external_sub_id b = ui_external_id u \<and> b_queue_id b = queue_of c (ui_consumer_id u))"
  shows "ent_inv hash F c'"
proof (rule ent_invI)
  let ?s = "ui_stream_id u"
  have get: "slot_get (match_tables c') s =
      (if s = ?s then map_option (bind_subscription sid n) (slot_get (match_tables c) s)
       else slot_get (match_tables c) s)" for s
    unfolding mt slot_get_update by (auto simp: slot_get_def)
  show "slot_get (match_tables c') s = None \<longleftrightarrow> \<not> stream_exists c' s" for s
    using ent_invD(1) [OF inv, of s] by (auto simp: get stream_exists_def same)
  show "mt_rep hash F t (routes_of c' s)" if t: "slot_get (match_tables c') s = Some t" for s t
  proof (cases "s = ?s")
    case True
    then obtain t' where "slot_get (match_tables c) s = Some t'" "t = bind_subscription sid n t'"
      using t by (auto simp: get)
    then show ?thesis
      using mt_rep_bind [OF ent_invD(2) [OF inv]] routes_of_rebound [OF same(1,2) conn] by simp
  next
    case False
    moreover have "routes_of c' s = routes_of c s"
      using routes_of_unmoved [OF same(1,2), of sid s] conn(2) sub False by simp
    ultimately show ?thesis using t ent_invD(2) [OF inv] by (simp add: get)
  qed
  show "\<exists>ci. slot_get (consumers c') (ui_consumer_id v) = Some ci \<and> ci_stream_id ci = ui_stream_id v"
    if "hm_get (subscriptions c') i = Some v" for i v
    using that ent_invD(3) [OF inv] unfolding same by blast
  show "stream_exists c' (ci_stream_id ci)" if "slot_get (consumers c') cid = Some ci" for cid ci
    using that ent_invD(4) [OF inv] unfolding same stream_exists_def by blast
  show "\<exists>v. hm_get (subscriptions c') (b_subscription_id b) = Some v \<and> ui_stream_id v = b_stream_id b \<and>
      ui_consumer_id v = b_consumer_id b \<and> ui_external_id v = b_external_sub_id b \<and>
      queue_of c' (b_consumer_id b) = b_queue_id b" if "live c' bid = Some b" for bid b
    using lv [OF that] ent_invD(5) [OF inv, of bid b] sub unfolding same queue_of_def by auto
qed

lemma cat_inv_retired:
  assumes inv: "cat_inv hash F c"
  shows "cat_inv hash F (retired bid c ev)"
proof (cases "live c bid")
  case None
  then show ?thesis using inv by (simp add: retired_def retire_None)
next
  case (Some b)
  let ?c = "retired bid c ev"
  have i: "idx_inv c" "ent_inv hash F c" and i': "idx_inv ?c"
    using inv idx_inv_retired by (auto simp: cat_inv_def)
  obtain u where u: "hm_get (subscriptions c) (b_subscription_id b) = Some u" "ui_stream_id u = b_stream_id b"
    using ent_invD(5) [OF i(2) Some] by blast
  have uniq: "x = bid" if "live c x = Some b'" "b_subscription_id b' = b_subscription_id b" for x b'
  proof -
    have "hm_get (by_subscription c) (b_subscription_id b) = Some x"
      "hm_get (by_subscription c) (b_subscription_id b) = Some bid"
      using that Some by (auto simp: by_subscription_live [OF i(1)])
    then show ?thesis by simp
  qed
  have "ent_inv hash F ?c"
  proof (rule ent_inv_bound [OF i(2) u(1), where n = 0])
    show "match_tables ?c = (match_tables c)[ui_stream_id u :=
        map_option (bind_subscription (b_subscription_id b) 0) (slot_get (match_tables c) (ui_stream_id u))]"
      by (simp add: retire_Some(15) [OF Some] u(2) unbind_subscription_def [abs_def])
    show "conn_of ?c (b_subscription_id b) = 0"
    proof (rule conn_of_none [OF _ i'])
      show "b_subscription_id b' \<noteq> b_subscription_id b" if "live ?c x = Some b'" for x b'
        using uniq [of x b'] that by (auto simp: live_retired split: if_splits)
    qed
    show "conn_of ?c sid' = conn_of c sid'" if "sid' \<noteq> b_subscription_id b" for sid'
      by (rule conn_of_cong [OF i(1) i']) (use that Some in \<open>auto simp: live_retired\<close>)
  qed (auto simp: retire_Some [OF Some] live_retired split: if_splits)
  then show ?thesis using i' inv by (simp add: cat_inv_def retire_Some [OF Some])
qed

lemma cat_inv_displaced: "cat_inv hash F c \<Longrightarrow> cat_inv hash F (displaced sid c ev)"
  by (simp add: displaced_def cat_inv_retired split: option.split)

lemma cat_inv_subscribed:
  assumes inv: "cat_inv hash F c" and lt: "next_binding_id c + 1 < 2 ^ 32"
  shows "cat_inv hash F (subscribed conn sid c ev)"
proof (cases "\<exists>sub consumer. hm_get (subscriptions c) sid = Some sub \<and>
    slot_get (consumers c) (ui_consumer_id sub) = Some consumer")
  case False
  then have "subscribed conn sid c ev = c"
    by (cases "hm_get (subscriptions c) sid"; cases "slot_get (consumers c) (ui_consumer_id (the (hm_get (subscriptions c) sid)))")
      (auto simp: subscribed_def subscribe_error)
  then show ?thesis using inv by simp
next
  case True
  then obtain u ci where u: "hm_get (subscriptions c) sid = Some u"
    and ci: "slot_get (consumers c) (ui_consumer_id u) = Some ci" by blast
  let ?c = "subscribed conn sid c ev"
  define d where "d = displaced sid c ev"
  have i: "idx_inv c" and i': "idx_inv ?c" and di: "idx_inv d" "ent_inv hash F d"
    using inv idx_inv_subscribed [OF _ lt] cat_inv_displaced [OF inv, of sid ev]
    by (auto simp: cat_inv_def d_def)
  note same = displaced_sel [OF i, of sid ev, folded d_def]
  note s = subscribe_Some [OF u ci, of conn ev, folded d_def]
  have lv: "live ?c = (live d)(next_binding_id c \<mapsto> new_binding conn sid u ci (next_binding_id c))"
    using live_subscribed [OF u ci i] by (simp add: d_def)
  have none: "b_subscription_id b \<noteq> sid" if "live d bid = Some b" for bid b
    using by_subscription_live [OF di(1), of sid bid] same(6) that by auto
  have "ent_inv hash F ?c"
  proof (rule ent_inv_bound [OF di(2), where u = u and n = conn])
    show "conn_of ?c sid = conn"
      using conn_of_live [OF i', of "next_binding_id c"] by (simp add: lv)
    show "conn_of ?c sid' = conn_of d sid'" if "sid' \<noteq> sid" for sid'
    proof (rule conn_of_cong [OF di(1) i'])
      fix bid and b :: binding
      assume "b_subscription_id b = sid'"
      moreover have "live d (next_binding_id c) = None"
        using di(1) same(1) unfolding idx_inv_def by (metis less_irrefl option.exhaust)
      ultimately show "live ?c bid = Some b \<longleftrightarrow> live d bid = Some b" using that by (auto simp: lv)
    qed
    show "live d bid = Some b \<or> b_subscription_id b = sid \<and> b_stream_id b = ui_stream_id u \<and>
        b_consumer_id b = ui_consumer_id u \<and> b_external_sub_id b = ui_external_id u \<and>
        b_queue_id b = queue_of d (ui_consumer_id u)" if "live ?c bid = Some b" for bid b
      using that ci by (auto simp: lv queue_of_def same split: if_splits)
  qed (simp_all add: s same u)
  then show ?thesis using i' inv by (simp add: cat_inv_def s same)
qed

section \<open>Streams, consumers and connections\<close>

lemma conn_of_same: "by_subscription c' = by_subscription c \<Longrightarrow> bindings c' = bindings c \<Longrightarrow> conn_of c' = conn_of c"
proof -
  assume *: "by_subscription c' = by_subscription c" "bindings c' = bindings c"
  then have "live c' = live c" by (simp add: live_def)
  with *(1) show ?thesis by (intro ext) (simp only: conn_of_def)
qed

lemma slot_get_clear: "slot_get (xs[i := None]) j = (if j = i then None else slot_get xs j)"
  by (auto simp: slot_get_def)

text \<open>Operations that leave the bindings and the subscriptions alone.\<close>

lemma cat_inv_shape:
  assumes inv: "cat_inv hash F c"
    and same: "subscriptions c' = subscriptions c" "bindings c' = bindings c" "by_stream c' = by_stream c"
      "by_consumer c' = by_consumer c" "by_connection c' = by_connection c"
      "by_subscription c' = by_subscription c" "by_conn_subscription c' = by_conn_subscription c"
      "by_conn_consumer c' = by_conn_consumer c" "next_binding_id c' = next_binding_id c" "demand c' = demand c"
    and mt: "\<And>s. slot_get (match_tables c') s = None \<longleftrightarrow> \<not> stream_exists c' s"
      "\<And>s t. slot_get (match_tables c') s = Some t \<Longrightarrow> mt_rep hash F t (routes_of c s)"
    and con: "\<And>cid ci. slot_get (consumers c') cid = Some ci \<Longrightarrow> stream_exists c' (ci_stream_id ci)"
      "\<And>sid u ci. hm_get (subscriptions c) sid = Some u \<Longrightarrow> slot_get (consumers c) (ui_consumer_id u) = Some ci \<Longrightarrow>
        \<exists>ci'. slot_get (consumers c') (ui_consumer_id u) = Some ci' \<and> ci_stream_id ci' = ci_stream_id ci \<and>
          ci_queue_id ci' = ci_queue_id ci"
  shows "cat_inv hash F c'"
proof -
  have i: "idx_inv c" "ent_inv hash F c" using inv by (simp_all add: cat_inv_def)
  have lv: "live c' = live c" using same(2) by (simp add: live_def)
  have q: "queue_of c' (ui_consumer_id u) = queue_of c (ui_consumer_id u)"
    if "hm_get (subscriptions c) sid = Some u" for sid u
    using ent_invD(3) [OF i(2) that] con(2) [OF that] by (auto simp: queue_of_def)
  have r: "routes_of c' s = routes_of c s" for s
    by (rule routes_of_cong [OF same(1)]) (simp add: sub_key_def conn_of_same [OF same(6,2)] q)
  have "ent_inv hash F c'"
  proof (rule ent_invI)
    show "\<exists>ci. slot_get (consumers c') (ui_consumer_id u) = Some ci \<and> ci_stream_id ci = ui_stream_id u"
      if "hm_get (subscriptions c') sid = Some u" for sid u
      using that ent_invD(3) [OF i(2), of sid u] con(2) [of sid u] unfolding same by auto
    show "\<exists>u. hm_get (subscriptions c') (b_subscription_id b) = Some u \<and> ui_stream_id u = b_stream_id b \<and>
        ui_consumer_id u = b_consumer_id b \<and> ui_external_id u = b_external_sub_id b \<and>
        queue_of c' (b_consumer_id b) = b_queue_id b" if "live c' bid = Some b" for bid b
      using that ent_invD(5) [OF i(2), of bid b] q unfolding same lv by metis
  qed (use mt con r in auto)
  moreover have "idx_inv c'" using idx_inv_cong [OF i(1) same(2-10)] .
  ultimately show ?thesis using inv by (simp add: cat_inv_def same)
qed

lemma cat_inv_open_connection:
  assumes inv: "cat_inv hash F c"
  shows "cat_inv hash F (open_connection n node c)"
    and "cat_inv hash F (remove_connection_entity n c)"
proof -
  have e: "ent_inv hash F c" using inv by (simp add: cat_inv_def)
  show "cat_inv hash F (open_connection n node c)"
    by (rule cat_inv_shape [OF inv])
      (use ent_invD [OF e] in \<open>auto simp: open_connection_def stream_exists_def\<close>)
  show "cat_inv hash F (remove_connection_entity n c)"
    by (rule cat_inv_shape [OF inv])
      (use ent_invD [OF e] in \<open>auto simp: remove_connection_entity_def stream_exists_def\<close>)
qed

lemma cat_inv_ensure_stream:
  assumes inv: "cat_inv hash F c"
  shows "cat_inv hash F (snd (ensure_stream config c))"
proof -
  have e: "ent_inv hash F c" using inv by (simp add: cat_inv_def)
  define i where "i = sc_id config"
  show ?thesis
  proof (cases "i > max_entity_id")
    case True
    then show ?thesis using inv by (simp add: ensure_stream_def ensure_stream_slot_def i_def)
  next
    case False
    show ?thesis
    proof (cases "stream_exists c i")
      case True
      then have d: "snd (ensure_stream config c) = c\<lparr>streams := slot_grow i 4 (streams c)\<rparr>"
        using False by (simp add: ensure_stream_def ensure_stream_slot_def stream_exists_def i_def)
      show ?thesis
        unfolding d by (rule cat_inv_shape [OF inv]) (use ent_invD [OF e] in \<open>auto simp: stream_exists_def\<close>)
    next
      case new: False
      have empty: "routes_of c i = {}"
        using ent_invD(3,4) [OF e] new by (fastforce simp: routes_of_def)
      have mt: "slot_get (match_tables c) i = None" using ent_invD(1) [OF e] new by simp
      have d: "snd (ensure_stream config c) =
          c\<lparr>streams := (slot_grow i 4 (streams c))[i := Some \<lparr>si_name = sc_name config\<rparr>],
            match_tables := (slot_grow i 4 (match_tables c))[i := Some match_table_new]\<rparr>"
        using False new mt by (simp add: ensure_stream_def ensure_stream_slot_def stream_exists_def i_def
            ensure_match_table_slot_def Let_def)
      show ?thesis
        unfolding d
      proof (rule cat_inv_shape [OF inv])
        fix s t
        show "slot_get (match_tables (c\<lparr>streams := (slot_grow i 4 (streams c))[i := Some \<lparr>si_name = sc_name config\<rparr>],
            match_tables := (slot_grow i 4 (match_tables c))[i := Some match_table_new]\<rparr>)) s = Some t \<Longrightarrow>
          mt_rep hash F t (routes_of c s)"
          using ent_invD(2) [OF e, of s t] mt_rep_new [of hash F]
          by (simp add: slot_get_grow_update empty split: if_splits)
      qed (use ent_invD [OF e] in \<open>auto simp: slot_get_grow_update stream_exists_def\<close>)
    qed
  qed
qed

lemma cat_inv_remove_stream:
  assumes inv: "cat_inv hash F c" and gone: "\<And>cid ci. slot_get (consumers c) cid = Some ci \<Longrightarrow> ci_stream_id ci \<noteq> eid"
  shows "cat_inv hash F (snd (remove_stream_entity eid c))"
proof -
  have e: "ent_inv hash F c" using inv by (simp add: cat_inv_def)
  show ?thesis
  proof (cases "stream_exists c eid")
    case False
    then show ?thesis using inv by (simp add: remove_stream_entity_def stream_exists_def)
  next
    case True
    then have d: "snd (remove_stream_entity eid c) =
        c\<lparr>streams := (streams c)[eid := None], match_tables := (match_tables c)[eid := None]\<rparr>"
      by (auto simp: remove_stream_entity_def stream_exists_def Let_def list_update_beyond)
    show ?thesis
      unfolding d
      by (rule cat_inv_shape [OF inv])
        (use ent_invD [OF e] gone in \<open>auto simp: slot_get_clear stream_exists_def split: if_splits\<close>)
  qed
qed

lemma cat_inv_ensure_consumer:
  assumes inv: "cat_inv hash F c"
  shows "cat_inv hash F (snd (ensure_consumer config c))"
proof -
  have e: "ent_inv hash F c" using inv by (simp add: cat_inv_def)
  have grown: "cat_inv hash F (c\<lparr>consumers := slot_grow (cc_id config) 4 (consumers c)\<rparr>)"
    by (rule cat_inv_shape [OF inv]) (use ent_invD [OF e] in \<open>auto simp: stream_exists_def\<close>)
  show ?thesis
  proof (cases "stream_exists c (cc_stream_id config) \<and> slot_get (consumers c) (cc_id config) = None")
    case False
    then show ?thesis using inv grown
      by (auto simp: ensure_consumer_def ensure_consumer_slot_def Let_def split: option.split)
  next
    case True
    show ?thesis
      by (rule cat_inv_shape [OF inv])
        (use ent_invD [OF e] True in \<open>auto simp: ensure_consumer_def ensure_consumer_slot_def
          slot_get_grow_update stream_exists_def split: if_splits\<close>)
  qed
qed

lemma cat_inv_remove_consumer:
  assumes inv: "cat_inv hash F c" and gone: "\<And>sid u. hm_get (subscriptions c) sid = Some u \<Longrightarrow> ui_consumer_id u \<noteq> eid"
  shows "cat_inv hash F (snd (remove_consumer_entity eid c))"
proof -
  have e: "ent_inv hash F c" using inv by (simp add: cat_inv_def)
  show ?thesis
  proof (cases "slot_get (consumers c) eid")
    case None
    then show ?thesis using inv by (simp add: remove_consumer_entity_def)
  next
    case (Some ci)
    show ?thesis
      by (rule cat_inv_shape [OF inv])
        (use ent_invD [OF e] Some gone in \<open>auto simp: remove_consumer_entity_def slot_get_update
          stream_exists_def split: if_splits\<close>)
  qed
qed

lemma cat_inv_set_paused:
  assumes inv: "cat_inv hash F c"
  shows "cat_inv hash F (snd (set_paused p eid c))"
proof -
  have e: "ent_inv hash F c" using inv by (simp add: cat_inv_def)
  show ?thesis
  proof (cases "slot_get (consumers c) eid")
    case None
    then show ?thesis using inv by (simp add: set_paused_def)
  next
    case (Some ci)
    show ?thesis
      by (rule cat_inv_shape [OF inv])
        (use ent_invD [OF e] Some in \<open>auto simp: set_paused_def slot_get_update stream_exists_def split: if_splits\<close>)
  qed
qed

lemma cat_inv_set_max_subject_inflight:
  assumes inv: "cat_inv hash F c"
  shows "cat_inv hash F (snd (set_max_subject_inflight hash s p n c))"
proof -
  have e: "ent_inv hash F c" using inv by (simp add: cat_inv_def)
  show ?thesis
  proof (cases "stream_exists c s")
    case False
    then show ?thesis using inv by (simp add: set_max_subject_inflight_def)
  next
    case True
    then obtain t where t: "slot_get (match_tables c) s = Some t"
      using ent_invD(1) [OF e, of s] by auto
    have m: "match_tables (snd (set_max_subject_inflight hash s p n c)) =
        (slot_grow s 4 (match_tables c))[s := Some (add_max_subject_inflight hash p n t)]"
      using True t by (simp add: set_max_subject_inflight_def match_table_or_new_def Let_def
          ensure_match_table_slot_def)
    have o: "streams (snd (set_max_subject_inflight hash s p n c)) = streams c"
      "consumers (snd (set_max_subject_inflight hash s p n c)) = consumers c"
      by (simp_all add: set_max_subject_inflight_def)
    show ?thesis
    proof (rule cat_inv_shape [OF inv], unfold m stream_exists_def o)
      show "slot_get ((slot_grow s 4 (match_tables c))[s := Some (add_max_subject_inflight hash p n t)]) s' = None
          \<longleftrightarrow> \<not> slot_get (streams c) s' \<noteq> None" for s'
        using ent_invD(1) [OF e, of s'] True by (auto simp: slot_get_grow_update stream_exists_def)
      show "mt_rep hash F t' (routes_of c s')"
        if "slot_get ((slot_grow s 4 (match_tables c))[s := Some (add_max_subject_inflight hash p n t)]) s' = Some t'"
        for s' t'
        using that ent_invD(2) [OF e] t by (auto simp: slot_get_grow_update mt_rep_limits split: if_splits)
    qed (use ent_invD(4) [OF e] in \<open>auto simp: set_max_subject_inflight_def stream_exists_def\<close>)
  qed
qed

section \<open>Subscriptions\<close>

lemma mt_rep_add_filter:
  assumes "mt_rep hash F t S" "sub_conn_ok e S" "validate_pattern f = Inr ()" "\<not> has_wildcard f \<Longrightarrow> f \<in> F"
  shows "mt_rep hash F (add_filter hash e f t) (insert (Some f, me_key e) S)"
  using assms by (simp add: add_filter_def mt_rep_add_pattern mt_rep_add_exact)

lemma sub_conn_ok_insert: "sub_conn_ok e S \<Longrightarrow> sub_conn_ok e (insert (fo, me_key e) S)"
  by (auto simp: sub_conn_ok_def)

lemma ex_hm_insert:
  "hm_get m k = None \<Longrightarrow> (\<exists>i u. hm_get (hm_insert k v m) i = Some u \<and> P i u) \<longleftrightarrow>
    P k v \<or> (\<exists>i u. hm_get m i = Some u \<and> P i u)"
  by (auto simp: hm_get_insert) (metis option.distinct(1))+

lemma ex_hm_remove:
  "(\<exists>i u. hm_get (hm_remove k m) i = Some u \<and> P i u) \<longleftrightarrow> (\<exists>i u. i \<noteq> k \<and> hm_get m i = Some u \<and> P i u)"
  by (auto simp: hm_get_remove split: if_splits)

lemma mt_rep_add_filters:
  assumes "mt_rep hash F t S" "sub_conn_ok e S"
    "list_all (\<lambda>f. validate_pattern f = Inr () \<and> (has_wildcard f \<or> f \<in> F)) fs"
  shows "mt_rep hash F (fold (add_filter hash e) fs t) (S \<union> (\<lambda>f. (Some f, me_key e)) ` set fs)"
  using assms
proof (induction fs arbitrary: t S)
  case (Cons f fs)
  have "mt_rep hash F (fold (add_filter hash e) fs (add_filter hash e f t))
      (insert (Some f, me_key e) S \<union> (\<lambda>f. (Some f, me_key e)) ` set fs)"
    using Cons.prems by (intro Cons.IH mt_rep_add_filter sub_conn_ok_insert) auto
  then show ?case by simp
qed simp

definition sub_ok :: "bytes set \<Rightarrow> subscription_config \<Rightarrow> catalog \<Rightarrow> bool" where
  "sub_ok F config c \<longleftrightarrow>
    list_all (\<lambda>f. validate_pattern f = Inr () \<and> (has_wildcard f \<or> f \<in> F)) (uc_filters config) \<and>
    (\<forall>ci. slot_get (consumers c) (uc_consumer_id config) = Some ci \<longrightarrow> ci_stream_id ci = uc_stream_id config)"

lemma ensure_subscription_noop:
  assumes "\<not> stream_exists c (uc_stream_id config) \<or> slot_get (consumers c) (uc_consumer_id config) = None \<or>
    hm_get (subscriptions c) (uc_id config) \<noteq> None"
  shows "snd (ensure_subscription hash config c) = c"
  using assms by (auto simp: ensure_subscription_def hm_contains_get split: option.split)

lemma cat_inv_ensure_subscription:
  assumes inv: "cat_inv hash F c" and ok: "sub_ok F config c"
  shows "cat_inv hash F (snd (ensure_subscription hash config c))"
proof (cases "stream_exists c (uc_stream_id config) \<and> slot_get (consumers c) (uc_consumer_id config) \<noteq> None \<and>
    hm_get (subscriptions c) (uc_id config) = None")
  case False
  then have "snd (ensure_subscription hash config c) = c" by (intro ensure_subscription_noop) argo
  then show ?thesis using inv by simp
next
  case True
  have i: "idx_inv c" "ent_inv hash F c" using inv by (simp_all add: cat_inv_def)
  let ?c = "snd (ensure_subscription hash config c)" and ?s = "uc_stream_id config" and ?i = "uc_id config"
  obtain ci where ci: "slot_get (consumers c) (uc_consumer_id config) = Some ci" using True by blast
  then have cis: "ci_stream_id ci = ?s" using ok by (simp add: sub_ok_def)
  obtain t where t: "slot_get (match_tables c) ?s = Some t" using True ent_invD(1) [OF i(2), of ?s] by blast
  define u where "u = \<lparr>ui_stream_id = ?s, ui_consumer_id = uc_consumer_id config,
    ui_external_id = uc_external_id config, ui_filters = uc_filters config\<rparr>"
  define e where "e = \<lparr>me_consumer_id = uc_consumer_id config, me_queue_id = ci_queue_id ci,
    me_subscription_id = ?i, me_connection_id = 0, binding_idx = binding_idx_unbound\<rparr>"
  define t' where "t' = (if uc_filters config = [] then add_catch_all e
    else fold (add_filter hash e) (uc_filters config)) t"
  have sel: "subscriptions ?c = hm_insert ?i u (subscriptions c)" "bindings ?c = bindings c"
    "by_stream ?c = by_stream c" "by_consumer ?c = by_consumer c" "by_connection ?c = by_connection c"
    "by_subscription ?c = by_subscription c" "by_conn_subscription ?c = by_conn_subscription c"
    "by_conn_consumer ?c = by_conn_consumer c" "next_binding_id ?c = next_binding_id c" "demand ?c = demand c"
    "consumers ?c = consumers c" "streams ?c = streams c"
    using True ci by (simp_all add: ensure_subscription_def hm_contains_get Let_def u_def)
  have mt: "match_tables ?c = (slot_grow ?s 4 (match_tables c))[?s := Some t']"
    using True ci t by (simp add: ensure_subscription_def hm_contains_get Let_def t'_def e_def match_table_or_new_def
        ensure_match_table_slot_def)
  have none: "b_subscription_id b \<noteq> ?i" if "live c bid = Some b" for bid b
    using ent_invD(5) [OF i(2) that] True by auto
  have key: "sub_key ?c sid v = sub_key c sid v" for sid v
    by (simp add: sub_key_def queue_of_def sel conn_of_same [OF sel(6,2)])
  have new: "sub_key c ?i u = me_key e"
    using conn_of_none [OF none i(1)] ci by (simp add: sub_key_def me_key_def e_def u_def queue_of_def)
  have routes: "routes_of ?c s = routes_of c s \<union> (if s = ?s then (\<lambda>fo. (fo, me_key e)) ` filters_of u else {})" for s
  proof -
    have us: "ui_stream_id u = ?s" by (simp add: u_def)
    have none: "hm_get (subscriptions c) ?i = None" using True by simp
    show ?thesis
      unfolding routes_of_def sel(1) key ex_hm_insert [OF none] us new by auto
  qed
  have fresh: "sub_conn_ok e (routes_of c ?s)"
    unfolding sub_conn_ok_def routes_of_def using True by (auto simp: e_def)
  have "mt_rep hash F t' (routes_of ?c ?s)"
  proof (cases "uc_filters config = []")
    case True
    then show ?thesis
      using mt_rep_add_catch_all [OF ent_invD(2) [OF i(2) t] fresh]
      by (simp add: t'_def routes filters_of_def u_def)
  next
    case False
    then show ?thesis
      using mt_rep_add_filters [OF ent_invD(2) [OF i(2) t] fresh, of "uc_filters config"] ok
      by (simp add: t'_def routes filters_of_def u_def sub_ok_def image_image)
  qed
  note rep = this
  have lv: "live ?c = live c" by (simp add: live_def sel(2))
  have "ent_inv hash F ?c"
  proof (rule ent_invI)
    show "slot_get (match_tables ?c) s = None \<longleftrightarrow> \<not> stream_exists ?c s" for s
      using ent_invD(1) [OF i(2), of s] True by (auto simp: mt slot_get_grow_update stream_exists_def sel)
    show "mt_rep hash F t0 (routes_of ?c s)" if "slot_get (match_tables ?c) s = Some t0" for s t0
      using that rep ent_invD(2) [OF i(2), of s t0]
      by (cases "s = ?s") (simp_all add: mt slot_get_grow_update routes)
    show "\<exists>ci. slot_get (consumers ?c) (ui_consumer_id v) = Some ci \<and> ci_stream_id ci = ui_stream_id v"
      if "hm_get (subscriptions ?c) sid = Some v" for sid v
      using that ent_invD(3) [OF i(2), of sid v] ci cis
      by (auto simp: sel hm_get_insert u_def split: if_splits)
    show "stream_exists ?c (ci_stream_id ci)" if "slot_get (consumers ?c) cid = Some ci" for cid ci
      using that ent_invD(4) [OF i(2)] by (simp add: sel stream_exists_def)
    show "\<exists>u. hm_get (subscriptions ?c) (b_subscription_id b) = Some u \<and> ui_stream_id u = b_stream_id b \<and>
        ui_consumer_id u = b_consumer_id b \<and> ui_external_id u = b_external_sub_id b \<and>
        queue_of ?c (b_consumer_id b) = b_queue_id b" if "live ?c bid = Some b" for bid b
      using that none ent_invD(5) [OF i(2), of bid b] by (auto simp: lv sel hm_get_insert queue_of_def)
  qed
  moreover have "idx_inv ?c" using idx_inv_cong [OF i(1) sel(2-10)] .
  ultimately show ?thesis using inv by (simp add: cat_inv_def sel(1) hm_ok_insert hm_ok_remove)
qed

lemma cat_inv_remove_subscription:
  assumes inv: "cat_inv hash F c" and gone: "\<And>bid b. live c bid = Some b \<Longrightarrow> b_subscription_id b \<noteq> eid"
  shows "cat_inv hash F (snd (remove_subscription_entity eid c))"
proof (cases "hm_get (subscriptions c) eid")
  case None
  then show ?thesis using inv by (simp add: remove_subscription_entity_def)
next
  case (Some u)
  have i: "idx_inv c" "ent_inv hash F c" using inv by (simp_all add: cat_inv_def)
  let ?c = "snd (remove_subscription_entity eid c)" and ?s = "ui_stream_id u"
  have sel: "subscriptions ?c = hm_remove eid (subscriptions c)" "bindings ?c = bindings c"
    "by_stream ?c = by_stream c" "by_consumer ?c = by_consumer c" "by_connection ?c = by_connection c"
    "by_subscription ?c = by_subscription c" "by_conn_subscription ?c = by_conn_subscription c"
    "by_conn_consumer ?c = by_conn_consumer c" "next_binding_id ?c = next_binding_id c" "demand ?c = demand c"
    "consumers ?c = consumers c" "streams ?c = streams c"
    using Some by (simp_all add: remove_subscription_entity_def Let_def)
  have get: "slot_get (match_tables ?c) s = (if s = ?s
      then map_option (mt_remove_subscription eid) (slot_get (match_tables c) s) else slot_get (match_tables c) s)" for s
    using Some by (auto simp: remove_subscription_entity_def Let_def match_tables_mut slot_get_update)
      (simp add: slot_get_def)
  have key: "sub_key ?c sid v = sub_key c sid v" for sid v
    by (simp add: sub_key_def queue_of_def sel conn_of_same [OF sel(6,2)])
  have routes: "routes_of ?c s = (if s = ?s then without eid (routes_of c s) else routes_of c s)" for s
    unfolding routes_of_def sel(1) key ex_hm_remove without_def using Some by auto (metis option.inject)
  have lv: "live ?c = live c" by (simp add: live_def sel(2))
  have "ent_inv hash F ?c"
  proof (rule ent_invI)
    show "slot_get (match_tables ?c) s = None \<longleftrightarrow> \<not> stream_exists ?c s" for s
      using ent_invD(1) [OF i(2), of s] by (auto simp: get stream_exists_def sel)
    show "mt_rep hash F t (routes_of ?c s)" if "slot_get (match_tables ?c) s = Some t" for s t
      using that ent_invD(2) [OF i(2), of s] mt_rep_remove
      by (cases "s = ?s") (auto simp: get routes)
    show "\<exists>ci. slot_get (consumers ?c) (ui_consumer_id v) = Some ci \<and> ci_stream_id ci = ui_stream_id v"
      if "hm_get (subscriptions ?c) sid = Some v" for sid v
      using that ent_invD(3) [OF i(2), of sid v] by (auto simp: sel hm_get_remove split: if_splits)
    show "stream_exists ?c (ci_stream_id ci)" if "slot_get (consumers ?c) cid = Some ci" for cid ci
      using that ent_invD(4) [OF i(2)] by (simp add: sel stream_exists_def)
    show "\<exists>u. hm_get (subscriptions ?c) (b_subscription_id b) = Some u \<and> ui_stream_id u = b_stream_id b \<and>
        ui_consumer_id u = b_consumer_id b \<and> ui_external_id u = b_external_sub_id b \<and>
        queue_of ?c (b_consumer_id b) = b_queue_id b" if "live ?c bid = Some b" for bid b
      using that gone ent_invD(5) [OF i(2), of bid b] by (auto simp: lv sel hm_get_remove queue_of_def)
  qed
  moreover have "idx_inv ?c" using idx_inv_cong [OF i(1) sel(2-10)] .
  ultimately show ?thesis using inv by (simp add: cat_inv_def sel(1) hm_ok_insert hm_ok_remove)
qed

end
