(* ===== verification/Inflight.thy ===== *)
theory Inflight
  imports Arbitro_Prelude
begin

text \<open>
  The in-flight counters of the engine (\<^verbatim>\<open>arbitro-engine/src/inflight/mod.rs\<close>): one
  dense vector per scope, grown on write, read as zero out of range.  The
  interface \<open>credit_counters\<close> is what the engine's command dispatch and the
  retirement of bindings rely on.
\<close>

datatype inflight_scope = Consumer | Queue

record inflight_counters =
  if_consumer :: "u32 list"
  if_queue :: "u32 list"

definition inflight_new :: inflight_counters where
  "inflight_new = \<lparr>if_consumer = [], if_queue = []\<rparr>"

definition ensure_len :: "u32 list \<Rightarrow> usize \<Rightarrow> u32 list" where
  "ensure_len vec idx = (if idx \<ge> length vec then vec_resize vec (idx + 16) 0 else vec)"

definition vec_inc :: "u32 list \<Rightarrow> u32 \<Rightarrow> u32 list" where
  "vec_inc vec i = (let v = ensure_len vec i in v[i := u32_add (v ! i) 1])"

definition vec_dec :: "u32 list \<Rightarrow> u32 \<Rightarrow> u32 list" where
  "vec_dec vec i = (if i < length vec then vec[i := vec ! i - 1] else vec)"

definition vec_count :: "u32 list \<Rightarrow> u32 \<Rightarrow> u32" where
  "vec_count vec i = (case vec_get vec i of Some c \<Rightarrow> c | None \<Rightarrow> 0)"

definition inflight_inc :: "inflight_scope \<Rightarrow> u32 \<Rightarrow> inflight_counters \<Rightarrow> inflight_counters" where
  "inflight_inc scope key c = (case scope of
     Consumer \<Rightarrow> c\<lparr>if_consumer := vec_inc (if_consumer c) key\<rparr>
   | Queue \<Rightarrow> c\<lparr>if_queue := vec_inc (if_queue c) key\<rparr>)"

definition inflight_dec :: "inflight_scope \<Rightarrow> u32 \<Rightarrow> inflight_counters \<Rightarrow> inflight_counters" where
  "inflight_dec scope key c = (case scope of
     Consumer \<Rightarrow> c\<lparr>if_consumer := vec_dec (if_consumer c) key\<rparr>
   | Queue \<Rightarrow> c\<lparr>if_queue := vec_dec (if_queue c) key\<rparr>)"

definition inflight_get :: "inflight_counters \<Rightarrow> inflight_scope \<Rightarrow> u32 \<Rightarrow> u32" where
  "inflight_get c scope key = (case scope of
     Consumer \<Rightarrow> vec_count (if_consumer c) key
   | Queue \<Rightarrow> vec_count (if_queue c) key)"

definition has_capacity :: "inflight_counters \<Rightarrow> inflight_scope \<Rightarrow> u32 \<Rightarrow> u32 \<Rightarrow> bool" where
  "has_capacity c scope key limit \<longleftrightarrow> inflight_get c scope key < limit"

definition vec_zero :: "u32 list \<Rightarrow> u32 \<Rightarrow> u32 list" where
  "vec_zero vec i = (if i < length vec then vec[i := 0] else vec)"

definition inflight_reset :: "inflight_scope \<Rightarrow> u32 \<Rightarrow> inflight_counters \<Rightarrow> inflight_counters" where
  "inflight_reset scope key c = (case scope of
     Consumer \<Rightarrow> c\<lparr>if_consumer := vec_zero (if_consumer c) key\<rparr>
   | Queue \<Rightarrow> c\<lparr>if_queue := vec_zero (if_queue c) key\<rparr>)"

definition dec_pending :: "u32 \<Rightarrow> u32 \<Rightarrow> inflight_counters \<Rightarrow> inflight_counters" where
  "dec_pending consumer_id queue_id c =
    (let c1 = c\<lparr>if_consumer := vec_dec (if_consumer c) consumer_id\<rparr>
     in c1\<lparr>if_queue := vec_dec (if_queue c1) queue_id\<rparr>)"

definition inc_pending :: "u32 \<Rightarrow> u32 \<Rightarrow> inflight_counters \<Rightarrow> inflight_counters" where
  "inc_pending consumer_id queue_id c =
    (let c1 = c\<lparr>if_consumer := vec_inc (if_consumer c) consumer_id\<rparr>
     in c1\<lparr>if_queue := vec_inc (if_queue c1) queue_id\<rparr>)"

section \<open>Counting laws\<close>

lemma vec_count_inc: "vec_count (vec_inc v i) j = (if j = i then u32_add (vec_count v i) 1 else vec_count v j)"
  by (auto simp: vec_count_def vec_inc_def vec_get_def ensure_len_def nth_vec_resize Let_def nth_list_update)

lemma vec_count_dec: "vec_count (vec_dec v i) j = (if j = i then vec_count v i - 1 else vec_count v j)"
  by (auto simp: vec_count_def vec_dec_def vec_get_def nth_list_update)

lemma vec_count_zero: "vec_count (vec_zero v i) j = (if j = i then 0 else vec_count v j)"
  by (auto simp: vec_count_def vec_zero_def vec_get_def nth_list_update)

section \<open>The interface\<close>

locale credit_counters =
  fixes getc :: "'s \<Rightarrow> inflight_scope \<Rightarrow> u32 \<Rightarrow> u32"
    and inc2 :: "u32 \<Rightarrow> u32 \<Rightarrow> 's \<Rightarrow> 's"
    and dec2 :: "u32 \<Rightarrow> u32 \<Rightarrow> 's \<Rightarrow> 's"
  assumes get_inc2: "getc (inc2 c q s) sc k =
      (if k = (case sc of Consumer \<Rightarrow> c | Queue \<Rightarrow> q) then u32_add (getc s sc k) 1 else getc s sc k)"
    and get_dec2: "getc (dec2 c q s) sc k =
      (if k = (case sc of Consumer \<Rightarrow> c | Queue \<Rightarrow> q) then getc s sc k - 1 else getc s sc k)"
begin

lemma get_dec2_n: "getc ((dec2 c q ^^ n) s) sc k =
    getc s sc k - (if k = (case sc of Consumer \<Rightarrow> c | Queue \<Rightarrow> q) then n else 0)"
  by (induction n) (auto simp: get_dec2)

lemma get_inc2_n:
  "getc s sc k + n < 2 ^ 32 \<Longrightarrow> getc ((inc2 c q ^^ n) s) sc k =
    getc s sc k + (if k = (case sc of Consumer \<Rightarrow> c | Queue \<Rightarrow> q) then n else 0)"
  by (induction n) (auto simp: get_inc2)

end

interpretation infl: credit_counters inflight_get inc_pending dec_pending
  by unfold_locales
    (simp_all add: inflight_get_def inc_pending_def dec_pending_def Let_def vec_count_inc vec_count_dec
      split: inflight_scope.splits)

lemma inflight_laws:
  "inflight_get (inflight_inc sc k c) sc' j =
    (if sc' = sc \<and> j = k then u32_add (inflight_get c sc k) 1 else inflight_get c sc' j)"
  "inflight_get (inflight_dec sc k c) sc' j =
    (if sc' = sc \<and> j = k then inflight_get c sc k - 1 else inflight_get c sc' j)"
  "inflight_get (inflight_reset sc k c) sc' j = (if sc' = sc \<and> j = k then 0 else inflight_get c sc' j)"
  by (cases sc; cases sc'; simp add: inflight_get_def inflight_inc_def inflight_dec_def
      inflight_reset_def vec_count_inc vec_count_dec vec_count_zero)+

lemma inflight_get_new [simp]: "inflight_get inflight_new sc k = 0"
  by (cases sc) (simp_all add: inflight_get_def inflight_new_def vec_count_def vec_get_def)

end
