(* ===== verification/Engine.thy ===== *)
theory Engine
  imports Catalog_Routes Inflight
begin

text \<open>
  The engine: the context of \<^verbatim>\<open>context.rs\<close>, the command dispatch of
  \<^verbatim>\<open>runtime/execute.rs\<close>, the retirement of bindings of \<^verbatim>\<open>runtime/retire.rs\<close> and the
  facade \<^verbatim>\<open>ArbitroEngine\<close> of \<^verbatim>\<open>lib.rs\<close>.  Every operation takes the context and
  returns it updated, with the events the worker reacts to.
\<close>

section \<open>Commands\<close>

record delivered_entry =
  de_seq :: u64
  de_subject_hash :: u32

record ack_entry =
  ae_stream_id :: u32
  ae_seq :: u64
  ae_sub_id :: u32

datatype drop_reason = Expired | Tombstoned | NoSubscribers

datatype command =
    Delivered u32 u32 "delivered_entry list"
  | Ack u64 u32 "ack_entry list"
  | Nack u64 u32 "ack_entry list"
  | PublishAccepted u32 u64 u64 u32
  | Tombstone u32 u64 drop_reason

section \<open>Metrics and context\<close>

record engine_metrics =
  publish_entries_accepted :: u64
  publish_duplicates_skipped :: u64
  publish_no_match :: u64
  publish_queues_pushed :: u64
  publish_fanout_notified :: u64
  entries_expired :: u64
  entries_tombstoned :: u64
  claim_batches :: u64
  claim_entries_delivered :: u64
  claim_skipped_consumer_paused :: u64
  claim_skipped_max_inflight :: u64
  claim_skipped_subject_limit :: u64
  claim_skipped_credit_conn :: u64
  claim_skipped_credit_subject :: u64
  claim_empty_pop :: u64
  ack_accepted :: u64
  ack_not_found :: u64
  nack_accepted :: u64
  nack_not_found :: u64
  seed_entries :: u64
  seed_queues_pushed :: u64
  seed_no_match :: u64
  drain_pending_removed :: u64
  drain_connections :: u64
  drain_consumers :: u64

definition metrics_new :: engine_metrics where
  "metrics_new = \<lparr>publish_entries_accepted = 0, publish_duplicates_skipped = 0, publish_no_match = 0,
     publish_queues_pushed = 0, publish_fanout_notified = 0, entries_expired = 0, entries_tombstoned = 0,
     claim_batches = 0, claim_entries_delivered = 0, claim_skipped_consumer_paused = 0,
     claim_skipped_max_inflight = 0, claim_skipped_subject_limit = 0, claim_skipped_credit_conn = 0,
     claim_skipped_credit_subject = 0, claim_empty_pop = 0, ack_accepted = 0, ack_not_found = 0,
     nack_accepted = 0, nack_not_found = 0, seed_entries = 0, seed_queues_pushed = 0, seed_no_match = 0,
     drain_pending_removed = 0, drain_connections = 0, drain_consumers = 0\<rparr>"

record engine_context =
  ec_catalog :: catalog
  ec_inflight :: inflight_counters
  ec_metrics :: engine_metrics

definition engine_new :: engine_context where
  "engine_new = \<lparr>ec_catalog = catalog_new, ec_inflight = inflight_new, ec_metrics = metrics_new\<rparr>"

definition on_catalog :: "(catalog \<Rightarrow> catalog) \<Rightarrow> engine_context \<Rightarrow> engine_context" where
  "on_catalog f ctx = ctx\<lparr>ec_catalog := f (ec_catalog ctx)\<rparr>"

text \<open>\<^verbatim>\<open>binding_mut\<close> followed by a change of the pending map.\<close>

definition pending_mut ::
  "u32 \<Rightarrow> ((u64, pending) hmap \<Rightarrow> (u64, pending) hmap) \<Rightarrow> catalog \<Rightarrow> catalog" where
  "pending_mut bid f c =
     c\<lparr>bindings := hm_modify bid (\<lambda>b. b\<lparr>b_pending := f (b_pending b)\<rparr>) (bindings c)\<rparr>"

section \<open>Command dispatch\<close>

definition deliver_entry :: "u32 \<Rightarrow> u32 \<Rightarrow> u32 \<Rightarrow> delivered_entry \<Rightarrow> engine_context \<Rightarrow> engine_context" where
  "deliver_entry bid consumer queue entry ctx =
    (case cat_binding (ec_catalog ctx) bid of
       None \<Rightarrow> ctx
     | Some b \<Rightarrow>
       if hm_contains (b_pending b) (de_seq entry) then ctx
       else ctx\<lparr>ec_catalog := pending_mut bid (hm_insert (de_seq entry)
                  \<lparr>p_seq = de_seq entry, p_subject_hash = de_subject_hash entry, p_deliveries = 1\<rparr>)
                  (ec_catalog ctx),
                ec_inflight := inc_pending consumer queue (ec_inflight ctx)\<rparr>)"

definition apply_delivered :: "u32 \<Rightarrow> delivered_entry list \<Rightarrow> engine_context \<Rightarrow> engine_context" where
  "apply_delivered bid entries ctx =
    (case cat_binding (ec_catalog ctx) bid of
       None \<Rightarrow> ctx
     | Some b \<Rightarrow> if b_fire_and_forget b then ctx
                 else fold (deliver_entry bid (b_consumer_id b) (b_queue_id b)) entries ctx)"

text \<open>The state of the ack and nack loops: the context, the events and the number of matches.\<close>

record ack_state =
  as_ctx :: engine_context
  as_events :: delta_events
  as_matched :: u64

text \<open>
  The body shared by the named and the unnamed arms: \<open>Some\<close> when the binding is on
  the stream of the entry and holds its sequence number as pending.
\<close>

definition try_release :: "u32 \<Rightarrow> ack_entry \<Rightarrow> u32 \<Rightarrow> ack_state \<Rightarrow> ack_state option" where
  "try_release consumer_id ack bid st =
    (case cat_binding (ec_catalog (as_ctx st)) bid of
       None \<Rightarrow> None
     | Some b \<Rightarrow>
       if b_stream_id b \<noteq> ae_stream_id ack then None
       else case hm_get (b_pending b) (ae_seq ack) of
         None \<Rightarrow> None
       | Some p \<Rightarrow> Some
           \<lparr>as_ctx = (as_ctx st)
              \<lparr>ec_catalog := pending_mut bid (hm_remove (ae_seq ack)) (ec_catalog (as_ctx st)),
               ec_inflight := dec_pending consumer_id (b_queue_id b) (ec_inflight (as_ctx st))\<rparr>,
            as_events = (as_events st)\<lparr>subject_hashes_acked :=
              subject_hashes_acked (as_events st) @ [(consumer_id, p_subject_hash p, p_seq p)]\<rparr>,
            as_matched = as_matched st + 1\<rparr>)"

fun release_first :: "u32 \<Rightarrow> ack_entry \<Rightarrow> u32 list \<Rightarrow> ack_state \<Rightarrow> ack_state" where
  "release_first consumer_id ack [] st = st"
| "release_first consumer_id ack (bid # bids) st =
    (case try_release consumer_id ack bid st of
       Some st' \<Rightarrow> st'
     | None \<Rightarrow> release_first consumer_id ack bids st)"

definition release_entry :: "u64 \<Rightarrow> u32 \<Rightarrow> u32 list \<Rightarrow> ack_entry \<Rightarrow> ack_state \<Rightarrow> ack_state" where
  "release_entry conn_id consumer_id binding_ids ack st =
    (if ae_sub_id ack \<noteq> 0 then
       (case binding_id_for_subscription (ec_catalog (as_ctx st)) conn_id (ae_sub_id ack) of
          None \<Rightarrow> st
        | Some bid \<Rightarrow> (case try_release consumer_id ack bid st of Some st' \<Rightarrow> st' | None \<Rightarrow> st))
     else release_first consumer_id ack binding_ids st)"

definition release_entries :: "u64 \<Rightarrow> u32 \<Rightarrow> ack_entry list \<Rightarrow> engine_context \<Rightarrow> ack_state" where
  "release_entries conn_id consumer_id entries ctx =
    (let binding_ids = bindings_for_consumer (ec_catalog ctx) consumer_id
     in fold (release_entry conn_id consumer_id binding_ids) entries
          \<lparr>as_ctx = ctx, as_events = delta_default, as_matched = 0\<rparr>)"

definition on_metrics :: "(engine_metrics \<Rightarrow> engine_metrics) \<Rightarrow> engine_context \<Rightarrow> engine_context" where
  "on_metrics f ctx = ctx\<lparr>ec_metrics := f (ec_metrics ctx)\<rparr>"

definition engine_apply :: "command \<Rightarrow> engine_context \<Rightarrow> engine_context \<times> delta_events" where
  "engine_apply cmd ctx =
    (case cmd of
       Delivered stream_id binding_id entries \<Rightarrow>
         let ctx1 = on_metrics (\<lambda>m. m\<lparr>claim_entries_delivered :=
               claim_entries_delivered m + length entries\<rparr>) ctx
         in (apply_delivered binding_id entries ctx1, delta_default)
     | Ack conn_id consumer_id entries \<Rightarrow>
         let ctx1 = on_metrics (\<lambda>m. m\<lparr>ack_accepted := ack_accepted m + length entries\<rparr>) ctx;
             st = release_entries conn_id consumer_id entries ctx1;
             not_found = length entries - as_matched st
         in (if not_found > 0
             then on_metrics (\<lambda>m. m\<lparr>ack_not_found := ack_not_found m + not_found\<rparr>) (as_ctx st)
             else as_ctx st, as_events st)
     | Nack conn_id consumer_id entries \<Rightarrow>
         let ctx1 = on_metrics (\<lambda>m. m\<lparr>nack_accepted := nack_accepted m + length entries\<rparr>) ctx;
             st = release_entries conn_id consumer_id entries ctx1;
             not_found = length entries - as_matched st
         in (if not_found > 0
             then on_metrics (\<lambda>m. m\<lparr>nack_not_found := nack_not_found m + not_found\<rparr>) (as_ctx st)
             else as_ctx st, as_events st)
     | PublishAccepted stream_id seq connection_id env_seq \<Rightarrow>
         (on_metrics (\<lambda>m. m\<lparr>publish_entries_accepted := publish_entries_accepted m + 1\<rparr>) ctx, delta_default)
     | Tombstone stream_id seq reason \<Rightarrow>
         (on_metrics (case reason of
            Expired \<Rightarrow> (\<lambda>m. m\<lparr>entries_expired := entries_expired m + 1\<rparr>)
          | Tombstoned \<Rightarrow> (\<lambda>m. m\<lparr>entries_tombstoned := entries_tombstoned m + 1\<rparr>)
          | NoSubscribers \<Rightarrow> (\<lambda>m. m\<lparr>publish_no_match := publish_no_match m + 1\<rparr>)) ctx, delta_default))"

fun apply_batch :: "command list \<Rightarrow> engine_context \<Rightarrow> delta_events \<Rightarrow> engine_context \<times> delta_events" where
  "apply_batch [] ctx events = (ctx, events)"
| "apply_batch (cmd # cmds) ctx events =
    (let (ctx1, ev) = engine_apply cmd ctx in apply_batch cmds ctx1 (delta_merge events ev))"

section \<open>Retiring bindings\<close>

definition release_pending ::
  "u32 \<Rightarrow> u32 \<Rightarrow> pending \<Rightarrow> inflight_counters \<times> delta_events \<Rightarrow> inflight_counters \<times> delta_events" where
  "release_pending consumer queue p st =
    (dec_pending consumer queue (fst st),
     (snd st)\<lparr>subject_hashes_acked := subject_hashes_acked (snd st) @ [(consumer, p_subject_hash p, p_seq p)],
             pending_seqs_released := pending_seqs_released (snd st) @ [p_seq p]\<rparr>)"

definition retire_binding :: "u32 \<Rightarrow> engine_context \<times> delta_events \<Rightarrow> engine_context \<times> delta_events" where
  "retire_binding binding_id st =
    (case cat_retire_binding binding_id (ec_catalog (fst st)) (snd st) of
       (None, _, _) \<Rightarrow> st
     | (Some b, cat, ev) \<Rightarrow>
       let consumer = b_consumer_id b; queue = b_queue_id b;
           released = length (b_pending b) mod 2 ^ 32;
           (infl, ev1) = fold (release_pending consumer queue) (map snd (b_pending b))
             (ec_inflight (fst st), ev)
       in ((fst st)\<lparr>ec_catalog := cat, ec_inflight := infl\<rparr>,
           if released > 0
           then ev1\<lparr>inflight_released := inflight_released ev1 @ [(consumer, queue, released)]\<rparr>
           else ev1))"

definition retire_bindings_for_stream ::
  "u32 \<Rightarrow> engine_context \<times> delta_events \<Rightarrow> engine_context \<times> delta_events" where
  "retire_bindings_for_stream stream_id st =
     fold retire_binding (bindings_for_stream (ec_catalog (fst st)) stream_id) st"

definition retire_bindings_for_consumer ::
  "u32 \<Rightarrow> engine_context \<times> delta_events \<Rightarrow> engine_context \<times> delta_events" where
  "retire_bindings_for_consumer consumer_id st =
     fold retire_binding (bindings_for_consumer (ec_catalog (fst st)) consumer_id) st"

definition retire_bindings_for_connection ::
  "u64 \<Rightarrow> engine_context \<times> delta_events \<Rightarrow> engine_context \<times> delta_events" where
  "retire_bindings_for_connection connection_id st =
     fold retire_binding (bindings_for_connection (ec_catalog (fst st)) connection_id) st"

section \<open>The facade\<close>

abbreviation consumer_has_capacity :: "engine_context \<Rightarrow> u32 \<Rightarrow> u32 \<Rightarrow> bool" where
  "consumer_has_capacity ctx consumer_id max_inflight \<equiv>
     has_capacity (ec_inflight ctx) Consumer consumer_id max_inflight"

definition consumer_inflight :: "engine_context \<Rightarrow> u32 \<Rightarrow> u32" where
  "consumer_inflight ctx consumer_id = inflight_get (ec_inflight ctx) Consumer consumer_id"

definition create_stream :: "stream_config \<Rightarrow> engine_context \<Rightarrow> (engine_error + unit) \<times> engine_context" where
  "create_stream config ctx =
    (let (r, cat) = ensure_stream config (ec_catalog ctx) in (r, ctx\<lparr>ec_catalog := cat\<rparr>))"

definition create_consumer :: "consumer_config \<Rightarrow> engine_context \<Rightarrow> (engine_error + bool) \<times> engine_context" where
  "create_consumer config ctx =
    (let (r, cat) = ensure_consumer config (ec_catalog ctx) in (r, ctx\<lparr>ec_catalog := cat\<rparr>))"

definition create_subscription ::
  "(bytes \<Rightarrow> u32) \<Rightarrow> subscription_config \<Rightarrow> engine_context \<Rightarrow> (engine_error + unit) \<times> engine_context" where
  "create_subscription hash config ctx =
    (let (r, cat) = ensure_subscription hash config (ec_catalog ctx) in (r, ctx\<lparr>ec_catalog := cat\<rparr>))"

definition remove_subscriptions :: "u32 \<Rightarrow> engine_context \<Rightarrow> engine_context" where
  "remove_subscriptions consumer_id ctx =
     fold (\<lambda>sid. on_catalog (\<lambda>c. snd (remove_subscription_entity sid c)))
       (subscriptions_for_consumer (ec_catalog ctx) consumer_id) ctx"

definition delete_consumer :: "u32 \<Rightarrow> engine_context \<Rightarrow> engine_context \<times> delta_events" where
  "delete_consumer eid ctx =
    (let (ctx1, ev) = retire_bindings_for_consumer eid (ctx, delta_default);
         ctx2 = remove_subscriptions eid ctx1;
         (r, cat) = remove_consumer_entity eid (ec_catalog ctx2)
     in (ctx2\<lparr>ec_catalog := cat\<rparr>,
         case r of Inr _ \<Rightarrow> ev\<lparr>consumers_removed := consumers_removed ev @ [eid]\<rparr> | Inl _ \<Rightarrow> ev))"

definition drop_consumer :: "u32 \<Rightarrow> engine_context \<times> delta_events \<Rightarrow> engine_context \<times> delta_events" where
  "drop_consumer cid st =
    (let (ctx1, ev) = retire_bindings_for_consumer cid st;
         ctx2 = remove_subscriptions cid ctx1
     in (on_catalog (\<lambda>c. snd (remove_consumer_entity cid c)) ctx2, ev))"

definition delete_stream :: "u32 \<Rightarrow> engine_context \<Rightarrow> engine_context \<times> delta_events" where
  "delete_stream eid ctx =
    (let consumer_ids = consumers_for_stream (ec_catalog ctx) eid;
         (ctx1, ev1) = fold drop_consumer consumer_ids (ctx, delta_default);
         ev2 = ev1\<lparr>consumers_removed := consumers_removed ev1 @ consumer_ids\<rparr>;
         (ctx3, ev3) = retire_bindings_for_stream eid (ctx1, ev2)
     in (on_catalog (\<lambda>c. snd (remove_stream_entity eid c)) ctx3, ev3))"

definition engine_subscribe ::
  "u64 \<Rightarrow> u32 \<Rightarrow> engine_context \<Rightarrow> (engine_error + u32) \<times> engine_context \<times> delta_events" where
  "engine_subscribe connection_id subscription_id ctx =
    (let (r, cat, ev) = cat_subscribe connection_id subscription_id (ec_catalog ctx) delta_default
     in (r, ctx\<lparr>ec_catalog := cat\<rparr>, ev))"

definition unsubscribe :: "u32 \<Rightarrow> engine_context \<Rightarrow> engine_context \<times> delta_events" where
  "unsubscribe binding_id ctx = retire_binding binding_id (ctx, delta_default)"

definition engine_open_connection :: "u64 \<Rightarrow> u32 \<Rightarrow> engine_context \<Rightarrow> engine_context" where
  "engine_open_connection connection_id node_id ctx = on_catalog (open_connection connection_id node_id) ctx"

definition mark_connection_dead :: "u64 \<Rightarrow> engine_context \<Rightarrow> engine_context \<times> delta_events" where
  "mark_connection_dead connection_id ctx =
    (let (ctx1, ev) = retire_bindings_for_connection connection_id (ctx, delta_default)
     in (on_catalog (remove_connection_entity connection_id) ctx1, ev))"

definition engine_pause_consumer :: "u32 \<Rightarrow> engine_context \<Rightarrow> bool \<times> engine_context" where
  "engine_pause_consumer eid ctx =
    (let (r, cat) = pause_consumer eid (ec_catalog ctx) in (r, ctx\<lparr>ec_catalog := cat\<rparr>))"

definition engine_resume_consumer :: "u32 \<Rightarrow> engine_context \<Rightarrow> bool \<times> engine_context" where
  "engine_resume_consumer eid ctx =
    (let (r, cat) = resume_consumer eid (ec_catalog ctx) in (r, ctx\<lparr>ec_catalog := cat\<rparr>))"

definition engine_set_max_subject_inflight ::
  "(bytes \<Rightarrow> u32) \<Rightarrow> u32 \<Rightarrow> bytes \<Rightarrow> u32 \<Rightarrow> engine_context \<Rightarrow> (engine_error + unit) \<times> engine_context" where
  "engine_set_max_subject_inflight hash stream_id pattern max_inflight ctx =
    (let (r, cat) = set_max_subject_inflight hash stream_id pattern max_inflight (ec_catalog ctx)
     in (r, ctx\<lparr>ec_catalog := cat\<rparr>))"

record consumer_state_snapshot =
  cs_consumer_id :: u32
  cs_stream_id :: u32
  cs_queue_id :: u32
  cs_paused :: bool
  cs_ack_pending :: u32

definition consumer_states_snapshot :: "engine_context \<Rightarrow> consumer_state_snapshot list" where
  "consumer_states_snapshot ctx =
     map (\<lambda>(cid, sid, qid, paused). \<lparr>cs_consumer_id = cid, cs_stream_id = sid, cs_queue_id = qid,
       cs_paused = paused, cs_ack_pending = consumer_inflight ctx cid\<rparr>) (list_consumers (ec_catalog ctx))"

section \<open>Tenant isolation of acks\<close>

text \<open>\<^verbatim>\<open>connection_owns\<close> of \<^verbatim>\<open>arbitro-server/src/shard/handlers.rs\<close>: the guard in front
  of every ack and nack command.  The loop carries the \<^verbatim>\<open>named\<close> flag.\<close>

fun owns_loop :: "catalog \<Rightarrow> u64 \<Rightarrow> u32 \<Rightarrow> ack_entry list \<Rightarrow> bool \<Rightarrow> bool option" where
  "owns_loop c conn consumer_id [] named = Some named"
| "owns_loop c conn consumer_id (entry # entries) named =
    (if ae_sub_id entry = 0 then owns_loop c conn consumer_id entries named
     else case binding_for_subscription c conn (ae_sub_id entry) of
       Some b \<Rightarrow> if b_consumer_id b = consumer_id then owns_loop c conn consumer_id entries True else None
     | None \<Rightarrow> None)"

definition connection_owns :: "catalog \<Rightarrow> u64 \<Rightarrow> u32 \<Rightarrow> ack_entry list \<Rightarrow> bool" where
  "connection_owns c conn consumer_id entries =
    (case owns_loop c conn consumer_id entries False of
       None \<Rightarrow> False
     | Some named \<Rightarrow> named \<or> connection_owns_consumer c conn consumer_id)"

end
