(* ===== verification/Engine_Inv.thy ===== *)
theory Engine_Inv
  imports Engine
begin

text \<open>
  Invariants of the engine.  The load of a consumer or of a queue is the number
  of pending deliveries its bindings hold; every facade operation and every
  command keeps the in-flight counters equal to the load plus the credits that
  re-subscriptions have dropped so far.
\<close>

section \<open>Loads\<close>

definition skey :: "inflight_scope \<Rightarrow> binding \<Rightarrow> u32" where
  "skey sc b = (case sc of Consumer \<Rightarrow> b_consumer_id b | Queue \<Rightarrow> b_queue_id b)"

definition pending_count :: "live \<Rightarrow> u32 \<Rightarrow> nat" where
  "pending_count B bid = (case B bid of Some b \<Rightarrow> length (b_pending b) | None \<Rightarrow> 0)"

definition load :: "inflight_scope \<Rightarrow> live \<Rightarrow> u32 \<Rightarrow> nat" where
  "load sc B k = (\<Sum>bid\<in>holders (skey sc) B k. pending_count B bid)"

lemma holders_finite: "finite (dom B) \<Longrightarrow> finite (holders key B k)"
  by (rule finite_subset [of _ "dom B"]) (auto simp: holders_def)

lemma load_del:
  assumes "B bid = Some b" "finite (dom B)"
  shows "load sc B k = load sc (B(bid := None)) k + (if k = skey sc b then length (b_pending b) else 0)"
proof -
  have h: "holders (skey sc) (B(bid := None)) k =
      (if k = skey sc b then holders (skey sc) B k - {bid} else holders (skey sc) B k)"
    using holders_del [of B bid b "skey sc" k] assms(1) by simp
  have c: "pending_count (B(bid := None)) i = pending_count B i" if "i \<noteq> bid" for i
    using that by (simp add: pending_count_def)
  show ?thesis
  proof (cases "k = skey sc b")
    case True
    then have m: "bid \<in> holders (skey sc) B k" using assms(1) by (simp add: holders_def)
    have "load sc (B(bid := None)) k = (\<Sum>i\<in>holders (skey sc) B k - {bid}. pending_count B i)"
      unfolding load_def h using True c by (auto intro: sum.cong)
    then show ?thesis
      using sum.remove [OF holders_finite [OF assms(2)] m, of "pending_count B"] True assms(1)
      by (simp add: load_def pending_count_def)
  next
    case False
    then have "bid \<notin> holders (skey sc) B k" using assms(1) by (auto simp: holders_def)
    then have "load sc (B(bid := None)) k = load sc B k"
      unfolding load_def h using False by (simp, intro sum.cong refl c) blast
    then show ?thesis using False by simp
  qed
qed

lemma load_add:
  assumes "B bid = None" "finite (dom B)"
  shows "load sc (B(bid \<mapsto> b)) k = load sc B k + (if k = skey sc b then length (b_pending b) else 0)"
proof -
  have "B(bid \<mapsto> b, bid := None) = B" using assms(1) by auto
  then show ?thesis using load_del [of "B(bid \<mapsto> b)" bid b sc k] assms(2) by simp
qed

lemma load_upd:
  assumes "B bid = Some b" "finite (dom B)" "skey sc b' = skey sc b"
  shows "load sc (B(bid \<mapsto> b')) k + (if k = skey sc b then length (b_pending b) else 0) =
    load sc B k + (if k = skey sc b then length (b_pending b') else 0)"
  using load_del [OF assms(1,2), of sc k] load_add [of "B(bid := None)" bid sc b' k] assms(2,3) by simp

lemma load_empty [simp]: "load sc Map.empty k = 0"
  by (simp add: load_def holders_def)

lemma live_finite: "finite (dom (live c))"
  using hm_finite [of "bindings c" "\<lambda>_ _. True"] by (simp add: live_def dom_def)

text \<open>\<open>L\<close> is the credit that no binding accounts for.\<close>

type_synonym slack = "inflight_scope \<Rightarrow> u32 \<Rightarrow> nat"

definition pending_ok :: "catalog \<Rightarrow> bool" where
  "pending_ok c \<longleftrightarrow> (\<forall>bid b. live c bid = Some b \<longrightarrow> hm_ok (b_pending b))"

definition credit :: "engine_context \<Rightarrow> slack \<Rightarrow> bool" where
  "credit ctx L \<longleftrightarrow> (\<forall>sc k. inflight_get (ec_inflight ctx) sc k = load sc (live (ec_catalog ctx)) k + L sc k)"

definition eng_inv :: "(bytes \<Rightarrow> u32) \<Rightarrow> bytes set \<Rightarrow> slack \<Rightarrow> engine_context \<Rightarrow> bool" where
  "eng_inv hash F L ctx \<longleftrightarrow> cat_inv hash F (ec_catalog ctx) \<and> pending_ok (ec_catalog ctx) \<and> credit ctx L"

lemma eng_inv_new: "eng_inv hash F (\<lambda>_ _. 0) engine_new"
proof -
  have "live catalog_new = Map.empty" by (auto simp: live_def catalog_new_def)
  then show ?thesis by (simp add: eng_inv_def cat_inv_new engine_new_def pending_ok_def credit_def)
qed

text \<open>Operations of the catalog that leave the bindings alone.\<close>

lemma eng_inv_catalog:
  assumes "eng_inv hash F L ctx" "cat_inv hash F cat" "bindings cat = bindings (ec_catalog ctx)"
  shows "eng_inv hash F L (ctx\<lparr>ec_catalog := cat\<rparr>)"
proof -
  have "live cat = live (ec_catalog ctx)" using assms(3) by (simp add: live_def)
  then show ?thesis using assms by (simp add: eng_inv_def pending_ok_def credit_def)
qed

lemma eng_inv_metrics [simp]: "eng_inv hash F L (on_metrics f ctx) = eng_inv hash F L ctx"
  by (simp add: eng_inv_def on_metrics_def credit_def)

section \<open>Pending entries\<close>

lemma live_pending_mut:
  "live (pending_mut bid f c) = (case live c bid of
     Some b \<Rightarrow> (live c)(bid \<mapsto> b\<lparr>b_pending := f (b_pending b)\<rparr>) | None \<Rightarrow> live c)"
  by (auto simp: live_def pending_mut_def hm_modify_def hm_get_insert fun_eq_iff split: option.split)

lemma pending_mut_sel [simp]:
  "streams (pending_mut bid f c) = streams c" "consumers (pending_mut bid f c) = consumers c"
  "subscriptions (pending_mut bid f c) = subscriptions c" "by_stream (pending_mut bid f c) = by_stream c"
  "by_consumer (pending_mut bid f c) = by_consumer c" "by_connection (pending_mut bid f c) = by_connection c"
  "by_subscription (pending_mut bid f c) = by_subscription c"
  "by_conn_subscription (pending_mut bid f c) = by_conn_subscription c"
  "by_conn_consumer (pending_mut bid f c) = by_conn_consumer c"
  "next_binding_id (pending_mut bid f c) = next_binding_id c" "connections (pending_mut bid f c) = connections c"
  "demand (pending_mut bid f c) = demand c" "match_tables (pending_mut bid f c) = match_tables c"
  by (simp_all add: pending_mut_def)

lemma holders_pending_mut:
  assumes "\<And>b p. key (b\<lparr>b_pending := p\<rparr>) = key b"
  shows "holders key (live (pending_mut bid f c)) = holders key (live c)"
  by (auto simp: live_pending_mut holders_def fun_eq_iff assms split: option.splits if_splits)

text \<open>A binding of the changed catalog is a binding of the old one up to its pending map.\<close>

lemma live_pending_mutE:
  assumes "live (pending_mut bid f c) i = Some b"
  obtains b0 where "live c i = Some b0" "b = b0\<lparr>b_pending := b_pending b\<rparr>"
    "b_pending b = (if i = bid then f (b_pending b0) else b_pending b0)"
proof (cases "live c bid")
  case None
  then show ?thesis using assms that [of b] by (cases "i = bid") (auto simp: live_pending_mut)
next
  case (Some b1)
  show ?thesis
  proof (cases "i = bid")
    case True
    then have "b = b1\<lparr>b_pending := f (b_pending b1)\<rparr>" using assms Some by (simp add: live_pending_mut)
    then show ?thesis using that [of b1] Some True by simp
  next
    case False
    then show ?thesis using that [of b] assms Some by (simp add: live_pending_mut)
  qed
qed

lemma cat_inv_pending_mut:
  assumes inv: "cat_inv hash F c"
  shows "cat_inv hash F (pending_mut bid f c)"
proof -
  let ?c = "pending_mut bid f c"
  have i: "idx_inv c" "ent_inv hash F c" using inv by (simp_all add: cat_inv_def)
  have keys: "b_subscription_id b = b_subscription_id b0 \<and> b_stream_id b = b_stream_id b0 \<and>
      b_consumer_id b = b_consumer_id b0 \<and> b_external_sub_id b = b_external_sub_id b0 \<and>
      b_queue_id b = b_queue_id b0 \<and> b_binding_id b = b_binding_id b0 \<and> b_connection_id b = b_connection_id b0"
    if "b = b0\<lparr>b_pending := b_pending b\<rparr>" for b b0 :: binding
    by (subst that, simp)+
  have "idx_inv ?c"
  proof -
    have "\<forall>x b. live ?c x = Some b \<longrightarrow> b_binding_id b = x \<and> x < next_binding_id c"
    proof (intro allI impI)
      fix x b
      assume "live ?c x = Some b"
      then obtain b0 where "live c x = Some b0" "b = b0\<lparr>b_pending := b_pending b\<rparr>"
        by (rule live_pending_mutE)
      then show "b_binding_id b = x \<and> x < next_binding_id c"
        using i(1) keys unfolding idx_inv_def by metis
    qed
    moreover have "hm_ok (bindings ?c)"
      using i(1) by (simp add: pending_mut_def idx_inv_def hm_ok_modify)
    ultimately show ?thesis
      using i(1) unfolding idx_inv_def index_ok_def unique_ok_def points_ok_def count_ok_def
      by (simp add: holders_pending_mut)
  qed
  moreover have "ent_inv hash F ?c"
  proof (rule ent_invI)
    have conn: "conn_of ?c sid = conn_of c sid" for sid
    proof (cases "hm_get (by_subscription c) sid")
      case None
      then show ?thesis by (simp add: conn_of_def)
    next
      case (Some x)
      then show ?thesis
        by (cases "live c bid"; cases "x = bid")
          (auto simp: conn_of_def live_pending_mut split: option.split)
    qed
    then have r: "routes_of ?c s = routes_of c s" for s
      by (intro routes_of_cong) (simp_all add: sub_key_def queue_of_def)
    show "slot_get (match_tables ?c) s = None \<longleftrightarrow> \<not> stream_exists ?c s" for s
      using ent_invD(1) [OF i(2)] by (simp add: stream_exists_def)
    show "mt_rep hash F t (routes_of ?c s)" if "slot_get (match_tables ?c) s = Some t" for s t
      using that ent_invD(2) [OF i(2)] by (simp add: r)
    show "\<exists>ci. slot_get (consumers ?c) (ui_consumer_id u) = Some ci \<and> ci_stream_id ci = ui_stream_id u"
      if "hm_get (subscriptions ?c) sid = Some u" for sid u
      using that ent_invD(3) [OF i(2)] by simp
    show "stream_exists ?c (ci_stream_id ci)" if "slot_get (consumers ?c) cid = Some ci" for cid ci
      using that ent_invD(4) [OF i(2)] by (simp add: stream_exists_def)
    show "\<exists>u. hm_get (subscriptions ?c) (b_subscription_id b) = Some u \<and> ui_stream_id u = b_stream_id b \<and>
        ui_consumer_id u = b_consumer_id b \<and> ui_external_id u = b_external_sub_id b \<and>
        queue_of ?c (b_consumer_id b) = b_queue_id b" if lv: "live ?c x = Some b" for x b
    proof -
      obtain b0 where "live c x = Some b0" "b = b0\<lparr>b_pending := b_pending b\<rparr>"
        using lv by (rule live_pending_mutE)
      then show ?thesis using ent_invD(5) [OF i(2), of x b0] keys [of b b0] by (simp add: queue_of_def)
    qed
  qed
  ultimately show ?thesis using inv by (simp add: cat_inv_def)
qed

lemma pending_ok_mut:
  assumes "pending_ok c" "\<And>p. hm_ok p \<Longrightarrow> hm_ok (f p)"
  shows "pending_ok (pending_mut bid f c)"
  unfolding pending_ok_def
proof (intro allI impI)
  fix x b
  assume "live (pending_mut bid f c) x = Some b"
  then obtain b0 where "live c x = Some b0" "b_pending b = (if x = bid then f (b_pending b0) else b_pending b0)"
    by (rule live_pending_mutE)
  then show "hm_ok (b_pending b)" using assms unfolding pending_ok_def by metis
qed

lemma skey_pending [simp]: "skey sc (b\<lparr>b_pending := p\<rparr>) = skey sc b"
  by (cases sc) (simp_all add: skey_def)

lemma load_pending_mut:
  assumes "live c bid = Some b"
  shows "load sc (live (pending_mut bid f c)) k + (if k = skey sc b then length (b_pending b) else 0) =
    load sc (live c) k + (if k = skey sc b then length (f (b_pending b)) else 0)"
  using load_upd [OF assms live_finite, of sc "b\<lparr>b_pending := f (b_pending b)\<rparr>" k]
  by (simp add: live_pending_mut assms)

lemma length_hm_insert_new: "hm_get m k = None \<Longrightarrow> length (hm_insert k v m) = length m + 1"
  by (induction m) (auto simp: hm_insert_def hm_get_def split: if_splits)

lemma length_hm_remove: "hm_ok m \<Longrightarrow> hm_get m k = Some v \<Longrightarrow> length m = length (hm_remove k m) + 1"
proof (induction m)
  case (Cons x m)
  have "fst x = k \<Longrightarrow> AList.delete k m = m"
    using Cons.prems(1) delete_idem [of k m] by (auto simp: hm_ok_def)
  then show ?case using Cons by (cases x) (auto simp: hm_ok_def hm_get_def hm_remove_def delete_simps split: if_splits)
qed simp

section \<open>Retiring bindings\<close>

lemma fold_release_pending:
  "fst (fold (release_pending consumer queue) ps st) = (dec_pending consumer queue ^^ length ps) (fst st)"
proof (induction ps arbitrary: st)
  case (Cons p ps)
  then show ?case by (simp add: release_pending_def funpow_swap1)
qed simp

lemma retire_binding_None:
  "live (ec_catalog (fst st)) bid = None \<Longrightarrow> retire_binding bid st = st"
  by (simp add: retire_binding_def retire_None)

lemma retire_binding_Some:
  assumes "live (ec_catalog (fst st)) bid = Some b"
  shows "ec_catalog (fst (retire_binding bid st)) = retired bid (ec_catalog (fst st)) (snd st)"
    and "ec_inflight (fst (retire_binding bid st)) =
      (dec_pending (b_consumer_id b) (b_queue_id b) ^^ length (b_pending b)) (ec_inflight (fst st))"
proof -
  obtain cat ev where r: "cat_retire_binding bid (ec_catalog (fst st)) (snd st) = (Some b, cat, ev)"
    using retire_Some(1) [OF assms, of "snd st"] by (cases "cat_retire_binding bid (ec_catalog (fst st)) (snd st)") auto
  then show "ec_catalog (fst (retire_binding bid st)) = retired bid (ec_catalog (fst st)) (snd st)"
    by (simp add: retire_binding_def retired_def Let_def case_prod_beta)
  show "ec_inflight (fst (retire_binding bid st)) =
      (dec_pending (b_consumer_id b) (b_queue_id b) ^^ length (b_pending b)) (ec_inflight (fst st))"
    using r by (simp add: retire_binding_def Let_def case_prod_beta fold_release_pending)
qed

lemma retire_binding_catalog:
  "ec_catalog (fst (retire_binding bid st)) = retired bid (ec_catalog (fst st)) (snd st)"
  by (cases "live (ec_catalog (fst st)) bid")
    (simp_all add: retire_binding_None retire_binding_Some retired_def retire_None)

lemma eng_inv_retire:
  assumes inv: "eng_inv hash F L (fst st)"
  shows "eng_inv hash F L (fst (retire_binding bid st))"
proof (cases "live (ec_catalog (fst st)) bid")
  case None
  then show ?thesis using inv by (simp add: retire_binding_None)
next
  case (Some b)
  let ?c = "ec_catalog (fst st)"
  have lv: "live (ec_catalog (fst (retire_binding bid st))) = (live ?c)(bid := None)"
    by (simp add: retire_binding_catalog live_retired)
  have "credit (fst (retire_binding bid st)) L"
    unfolding credit_def lv
  proof (intro allI)
    fix sc k
    have "inflight_get (ec_inflight (fst st)) sc k = load sc ((live ?c)(bid := None)) k +
        (if k = skey sc b then length (b_pending b) else 0) + L sc k"
      using inv load_del [OF Some live_finite, of sc k] by (simp add: eng_inv_def credit_def)
    then show "inflight_get (ec_inflight (fst (retire_binding bid st))) sc k =
        load sc ((live ?c)(bid := None)) k + L sc k"
      by (simp add: retire_binding_Some(2) [OF Some] infl.get_dec2_n skey_def)
  qed
  moreover have "cat_inv hash F (ec_catalog (fst (retire_binding bid st)))"
    using inv by (simp add: retire_binding_catalog eng_inv_def cat_inv_retired)
  moreover have "pending_ok (ec_catalog (fst (retire_binding bid st)))"
    using inv by (simp add: eng_inv_def pending_ok_def lv)
  ultimately show ?thesis by (simp add: eng_inv_def)
qed

lemma retired_entities:
  "streams (retired bid c ev) = streams c" "consumers (retired bid c ev) = consumers c"
  "subscriptions (retired bid c ev) = subscriptions c" "connections (retired bid c ev) = connections c"
proof -
  have "live c bid = None \<Longrightarrow> retired bid c ev = c" by (simp add: retired_def retire_None)
  then show "streams (retired bid c ev) = streams c" "consumers (retired bid c ev) = consumers c"
    "subscriptions (retired bid c ev) = subscriptions c" "connections (retired bid c ev) = connections c"
    by (cases "live c bid"; simp add: retire_Some)+
qed

lemma retire_fold:
  "eng_inv hash F L (fst st) \<Longrightarrow> eng_inv hash F L (fst (fold retire_binding bids st))"
  "live (ec_catalog (fst (fold retire_binding bids st))) =
    (\<lambda>i. if i \<in> set bids then None else live (ec_catalog (fst st)) i)"
  "streams (ec_catalog (fst (fold retire_binding bids st))) = streams (ec_catalog (fst st))"
  "consumers (ec_catalog (fst (fold retire_binding bids st))) = consumers (ec_catalog (fst st))"
  "subscriptions (ec_catalog (fst (fold retire_binding bids st))) = subscriptions (ec_catalog (fst st))"
  "connections (ec_catalog (fst (fold retire_binding bids st))) = connections (ec_catalog (fst st))"
  by (induction bids arbitrary: st)
    (auto simp: eng_inv_retire retire_binding_catalog live_retired retired_entities fun_eq_iff)

lemma set_bindings_for:
  assumes "idx_inv c"
  shows "set (bindings_for_stream c s) = holders b_stream_id (live c) s"
    and "set (bindings_for_consumer c cid) = holders b_consumer_id (live c) cid"
    and "set (bindings_for_connection c conn) = holders b_connection_id (live c) conn"
  using assms by (simp_all add: idx_inv_def index_ok_def bindings_for_stream_def bindings_for_consumer_def
      bindings_for_connection_def)

lemma retire_for_live:
  assumes "idx_inv (ec_catalog (fst st))"
  shows "live (ec_catalog (fst (retire_bindings_for_stream s st))) i = Some b \<longleftrightarrow>
      live (ec_catalog (fst st)) i = Some b \<and> b_stream_id b \<noteq> s"
    and "live (ec_catalog (fst (retire_bindings_for_consumer cid st))) i = Some b \<longleftrightarrow>
      live (ec_catalog (fst st)) i = Some b \<and> b_consumer_id b \<noteq> cid"
    and "live (ec_catalog (fst (retire_bindings_for_connection conn st))) i = Some b \<longleftrightarrow>
      live (ec_catalog (fst st)) i = Some b \<and> b_connection_id b \<noteq> conn"
  by (auto simp: retire_bindings_for_stream_def retire_bindings_for_consumer_def
      retire_bindings_for_connection_def retire_fold(2) set_bindings_for [OF assms] holders_def)

lemmas retire_for_defs =
  retire_bindings_for_stream_def retire_bindings_for_consumer_def retire_bindings_for_connection_def

section \<open>Facade operations\<close>

definition removed_subs :: "u32 list \<Rightarrow> engine_context \<Rightarrow> engine_context" where
  "removed_subs sids ctx = fold (\<lambda>sid. on_catalog (\<lambda>c. snd (remove_subscription_entity sid c))) sids ctx"

lemma remove_subscription_sel:
  "bindings (snd (remove_subscription_entity sid c)) = bindings c"
  "streams (snd (remove_subscription_entity sid c)) = streams c"
  "consumers (snd (remove_subscription_entity sid c)) = consumers c"
  "hm_get (subscriptions (snd (remove_subscription_entity sid c))) i =
    (if i = sid then None else hm_get (subscriptions c) i)"
  by (simp_all add: remove_subscription_entity_def Let_def hm_get_remove split: option.split)

lemma removed_subs_sel:
  "ec_inflight (removed_subs sids ctx) = ec_inflight ctx"
  "bindings (ec_catalog (removed_subs sids ctx)) = bindings (ec_catalog ctx)"
  "streams (ec_catalog (removed_subs sids ctx)) = streams (ec_catalog ctx)"
  "consumers (ec_catalog (removed_subs sids ctx)) = consumers (ec_catalog ctx)"
  "hm_get (subscriptions (ec_catalog (removed_subs sids ctx))) i =
    (if i \<in> set sids then None else hm_get (subscriptions (ec_catalog ctx)) i)"
  unfolding removed_subs_def
  by (induction sids arbitrary: ctx) (auto simp: on_catalog_def remove_subscription_sel)

lemma eng_inv_removed_subs:
  assumes "eng_inv hash F L ctx"
    "\<And>bid b. live (ec_catalog ctx) bid = Some b \<Longrightarrow> b_subscription_id b \<notin> set sids"
  shows "eng_inv hash F L (removed_subs sids ctx)"
  using assms
proof (induction sids arbitrary: ctx)
  case (Cons sid sids)
  let ?ctx = "on_catalog (\<lambda>c. snd (remove_subscription_entity sid c)) ctx"
  have "cat_inv hash F (snd (remove_subscription_entity sid (ec_catalog ctx)))"
    using Cons.prems by (intro cat_inv_remove_subscription) (auto simp: eng_inv_def)
  then have inv: "eng_inv hash F L ?ctx"
    using Cons.prems(1) unfolding on_catalog_def by (intro eng_inv_catalog) (simp_all add: remove_subscription_sel)
  have "live (ec_catalog ?ctx) = live (ec_catalog ctx)"
    by (simp add: on_catalog_def live_def remove_subscription_sel)
  then have "eng_inv hash F L (removed_subs sids ?ctx)"
    using Cons.prems(2) by (intro Cons.IH inv) auto
  then show ?case by (simp add: removed_subs_def)
qed (simp add: removed_subs_def)

lemma set_subscriptions_for_consumer:
  assumes "hm_ok (subscriptions c)"
  shows "sid \<in> set (subscriptions_for_consumer c cid) \<longleftrightarrow>
    (\<exists>u. hm_get (subscriptions c) sid = Some u \<and> ui_consumer_id u = cid)"
  using hm_get_in_set [OF assms, of sid] by (force simp: subscriptions_for_consumer_def)

definition stripped :: "u32 \<Rightarrow> engine_context \<times> delta_events \<Rightarrow> engine_context" where
  "stripped cid st = remove_subscriptions cid (fst (retire_bindings_for_consumer cid st))"

lemma stripped_alt: "stripped cid st =
    removed_subs (subscriptions_for_consumer (ec_catalog (fst (retire_bindings_for_consumer cid st))) cid)
      (fst (retire_bindings_for_consumer cid st))"
  by (simp add: stripped_def remove_subscriptions_def removed_subs_def)

text \<open>Retiring the bindings of a consumer and removing its subscriptions.\<close>

lemma stripped:
  assumes inv: "eng_inv hash F L (fst st)"
  shows "eng_inv hash F L (stripped cid st)"
    and "live (ec_catalog (stripped cid st)) i = Some b \<longleftrightarrow>
      live (ec_catalog (fst st)) i = Some b \<and> b_consumer_id b \<noteq> cid"
    and "hm_get (subscriptions (ec_catalog (stripped cid st))) sid = Some u \<longleftrightarrow>
      hm_get (subscriptions (ec_catalog (fst st))) sid = Some u \<and> ui_consumer_id u \<noteq> cid"
    and "streams (ec_catalog (stripped cid st)) = streams (ec_catalog (fst st))"
    and "consumers (ec_catalog (stripped cid st)) = consumers (ec_catalog (fst st))"
proof -
  let ?st = "retire_bindings_for_consumer cid st"
  have i: "idx_inv (ec_catalog (fst st))" using inv by (simp add: eng_inv_def cat_inv_def)
  have inv': "eng_inv hash F L (fst ?st)" using inv by (simp add: retire_for_defs retire_fold)
  then have subs: "hm_ok (subscriptions (ec_catalog (fst ?st)))" "ent_inv hash F (ec_catalog (fst ?st))"
    by (simp_all add: eng_inv_def cat_inv_def)
  show "eng_inv hash F L (stripped cid st)"
    unfolding stripped_alt
  proof (rule eng_inv_removed_subs [OF inv'])
    show "b_subscription_id b \<notin> set (subscriptions_for_consumer (ec_catalog (fst ?st)) cid)"
      if "live (ec_catalog (fst ?st)) bid = Some b" for bid b
      using that ent_invD(5) [OF subs(2) that] retire_for_live(2) [OF i, of cid bid b]
      by (auto simp: set_subscriptions_for_consumer [OF subs(1)])
  qed
  have "live (ec_catalog (stripped cid st)) = live (ec_catalog (fst ?st))"
    by (simp add: live_def stripped_alt removed_subs_sel)
  then show "live (ec_catalog (stripped cid st)) i = Some b \<longleftrightarrow>
      live (ec_catalog (fst st)) i = Some b \<and> b_consumer_id b \<noteq> cid"
    by (simp add: retire_for_live [OF i])
  show "hm_get (subscriptions (ec_catalog (stripped cid st))) sid = Some u \<longleftrightarrow>
      hm_get (subscriptions (ec_catalog (fst st))) sid = Some u \<and> ui_consumer_id u \<noteq> cid"
    unfolding stripped_alt removed_subs_sel set_subscriptions_for_consumer [OF subs(1)]
    by (auto simp: retire_for_defs retire_fold)
  show "streams (ec_catalog (stripped cid st)) = streams (ec_catalog (fst st))"
    "consumers (ec_catalog (stripped cid st)) = consumers (ec_catalog (fst st))"
    by (simp_all add: stripped_alt removed_subs_sel retire_for_defs retire_fold)
qed

lemma remove_consumer_sel:
  "bindings (snd (remove_consumer_entity eid c)) = bindings c"
  "streams (snd (remove_consumer_entity eid c)) = streams c"
  "subscriptions (snd (remove_consumer_entity eid c)) = subscriptions c"
  "slot_get (consumers (snd (remove_consumer_entity eid c))) i =
    (if i = eid then None else slot_get (consumers c) i)"
  by (auto simp: remove_consumer_entity_def slot_get_clear split: option.split)

lemma drop_consumer_fst:
  "fst (drop_consumer cid st) = on_catalog (\<lambda>c. snd (remove_consumer_entity cid c)) (stripped cid st)"
  by (simp add: drop_consumer_def stripped_def Let_def case_prod_beta)

lemma delete_consumer_fst:
  "fst (delete_consumer cid ctx) =
    on_catalog (\<lambda>c. snd (remove_consumer_entity cid c)) (stripped cid (ctx, delta_default))"
  by (simp add: delete_consumer_def stripped_def on_catalog_def Let_def case_prod_beta)

lemma drop_consumer:
  assumes inv: "eng_inv hash F L (fst st)"
  shows "eng_inv hash F L (fst (drop_consumer cid st))"
    and "live (ec_catalog (fst (drop_consumer cid st))) i = Some b \<longleftrightarrow>
      live (ec_catalog (fst st)) i = Some b \<and> b_consumer_id b \<noteq> cid"
    and "hm_get (subscriptions (ec_catalog (fst (drop_consumer cid st)))) sid = Some u \<longleftrightarrow>
      hm_get (subscriptions (ec_catalog (fst st))) sid = Some u \<and> ui_consumer_id u \<noteq> cid"
    and "streams (ec_catalog (fst (drop_consumer cid st))) = streams (ec_catalog (fst st))"
    and "slot_get (consumers (ec_catalog (fst (drop_consumer cid st)))) k =
      (if k = cid then None else slot_get (consumers (ec_catalog (fst st))) k)"
proof -
  note s = stripped [OF inv, of cid]
  show "eng_inv hash F L (fst (drop_consumer cid st))"
    unfolding drop_consumer_fst on_catalog_def
    using s(1,3) by (intro eng_inv_catalog cat_inv_remove_consumer) (auto simp: eng_inv_def remove_consumer_sel)
  show "live (ec_catalog (fst (drop_consumer cid st))) i = Some b \<longleftrightarrow>
      live (ec_catalog (fst st)) i = Some b \<and> b_consumer_id b \<noteq> cid"
    using s(2) by (simp add: drop_consumer_fst on_catalog_def live_def remove_consumer_sel)
  show "hm_get (subscriptions (ec_catalog (fst (drop_consumer cid st)))) sid = Some u \<longleftrightarrow>
      hm_get (subscriptions (ec_catalog (fst st))) sid = Some u \<and> ui_consumer_id u \<noteq> cid"
    "streams (ec_catalog (fst (drop_consumer cid st))) = streams (ec_catalog (fst st))"
    "slot_get (consumers (ec_catalog (fst (drop_consumer cid st)))) k =
      (if k = cid then None else slot_get (consumers (ec_catalog (fst st))) k)"
    using s(3-5) by (simp_all add: drop_consumer_fst on_catalog_def remove_consumer_sel)
qed

lemma delete_consumer_drop: "fst (delete_consumer cid ctx) = fst (drop_consumer cid (ctx, delta_default))"
  by (simp add: delete_consumer_fst drop_consumer_fst)

lemma drop_consumers:
  assumes "eng_inv hash F L (fst st)"
  shows "eng_inv hash F L (fst (fold drop_consumer cids st))"
    and "live (ec_catalog (fst (fold drop_consumer cids st))) i = Some b \<longleftrightarrow>
      live (ec_catalog (fst st)) i = Some b \<and> b_consumer_id b \<notin> set cids"
    and "hm_get (subscriptions (ec_catalog (fst (fold drop_consumer cids st)))) sid = Some u \<longleftrightarrow>
      hm_get (subscriptions (ec_catalog (fst st))) sid = Some u \<and> ui_consumer_id u \<notin> set cids"
    and "streams (ec_catalog (fst (fold drop_consumer cids st))) = streams (ec_catalog (fst st))"
    and "slot_get (consumers (ec_catalog (fst (fold drop_consumer cids st)))) k =
      (if k \<in> set cids then None else slot_get (consumers (ec_catalog (fst st))) k)"
  using assms by (induction cids arbitrary: st) (auto simp: drop_consumer)

lemma set_consumers_for_stream:
  "cid \<in> set (consumers_for_stream c s) \<longleftrightarrow> (\<exists>ci. slot_get (consumers c) cid = Some ci \<and> ci_stream_id ci = s)"
  by (force simp: consumers_for_stream_def enumerate_slots_set)

lemma remove_stream_sel:
  "bindings (snd (remove_stream_entity eid c)) = bindings c"
  "consumers (snd (remove_stream_entity eid c)) = consumers c"
  "subscriptions (snd (remove_stream_entity eid c)) = subscriptions c"
  "stream_exists (snd (remove_stream_entity eid c)) s \<longleftrightarrow> s \<noteq> eid \<and> stream_exists c s"
  by (auto simp: remove_stream_entity_def Let_def slot_get_clear stream_exists_def split: option.split)

text \<open>The context of \<^verbatim>\<open>delete_stream\<close> before the stream entity is dropped.\<close>

definition emptied :: "u32 \<Rightarrow> engine_context \<Rightarrow> engine_context" where
  "emptied eid ctx =
    (let st = fold drop_consumer (consumers_for_stream (ec_catalog ctx) eid) (ctx, delta_default)
     in fst (retire_bindings_for_stream eid (fst st, (snd st)\<lparr>consumers_removed :=
          consumers_removed (snd st) @ consumers_for_stream (ec_catalog ctx) eid\<rparr>)))"

lemma delete_stream_fst:
  "fst (delete_stream eid ctx) = on_catalog (\<lambda>c. snd (remove_stream_entity eid c)) (emptied eid ctx)"
  by (simp add: delete_stream_def emptied_def Let_def case_prod_beta)

lemma delete_stream:
  assumes inv: "eng_inv hash F L ctx"
  shows "eng_inv hash F L (fst (delete_stream eid ctx))"
    and "live (ec_catalog (fst (delete_stream eid ctx))) i = Some b \<longleftrightarrow>
      live (ec_catalog ctx) i = Some b \<and> b_stream_id b \<noteq> eid"
    and "hm_get (subscriptions (ec_catalog (fst (delete_stream eid ctx)))) sid = Some u \<longleftrightarrow>
      hm_get (subscriptions (ec_catalog ctx)) sid = Some u \<and> ui_stream_id u \<noteq> eid"
    and "slot_get (consumers (ec_catalog (fst (delete_stream eid ctx)))) cid = Some ci \<longleftrightarrow>
      slot_get (consumers (ec_catalog ctx)) cid = Some ci \<and> ci_stream_id ci \<noteq> eid"
    and "stream_exists (ec_catalog (fst (delete_stream eid ctx))) s \<longleftrightarrow>
      s \<noteq> eid \<and> stream_exists (ec_catalog ctx) s"
proof -
  let ?c = "ec_catalog ctx"
  let ?cids = "consumers_for_stream ?c eid"
  define st where "st = fold drop_consumer ?cids (ctx, delta_default)"
  define ev where "ev = (snd st)\<lparr>consumers_removed := consumers_removed (snd st) @ ?cids\<rparr>"
  have e: "ent_inv hash F ?c" using inv by (simp add: eng_inv_def cat_inv_def)
  have em: "emptied eid ctx = fst (retire_bindings_for_stream eid (fst st, ev))"
    by (simp add: emptied_def st_def ev_def Let_def)
  note d = drop_consumers [of hash F L "(ctx, delta_default)" ?cids, folded st_def, simplified, OF inv]
  have sub_con: "ui_consumer_id u \<in> set ?cids \<longleftrightarrow> ui_stream_id u = eid"
    if "hm_get (subscriptions ?c) i = Some u" for i u
    using ent_invD(3) [OF e that] by (auto simp: set_consumers_for_stream)
  have b_con: "b_consumer_id b \<in> set ?cids \<longleftrightarrow> b_stream_id b = eid" if "live ?c i = Some b" for i b
    using ent_invD(5) [OF e that] sub_con by metis
  have i: "idx_inv (ec_catalog (fst (fst st, ev)))" using d(1) by (simp add: eng_inv_def cat_inv_def)
  have m: "eng_inv hash F L (emptied eid ctx)"
    unfolding em using d(1) by (simp add: retire_for_defs retire_fold)
  have lv: "live (ec_catalog (emptied eid ctx)) j = Some b' \<longleftrightarrow>
      live ?c j = Some b' \<and> b_stream_id b' \<noteq> eid" for j b'
    using b_con [of j b'] d(2) [of j b'] by (auto simp: em retire_for_live [OF i])
  have sel: "subscriptions (ec_catalog (emptied eid ctx)) = subscriptions (ec_catalog (fst st))"
    "consumers (ec_catalog (emptied eid ctx)) = consumers (ec_catalog (fst st))"
    "streams (ec_catalog (emptied eid ctx)) = streams (ec_catalog (fst st))"
    by (simp_all add: em retire_for_defs retire_fold)
  have con: "slot_get (consumers (ec_catalog (emptied eid ctx))) cid = Some ci \<longleftrightarrow>
      slot_get (consumers ?c) cid = Some ci \<and> ci_stream_id ci \<noteq> eid" for cid ci
    using set_consumers_for_stream [of cid ?c eid] by (auto simp: sel d(5))
  show "eng_inv hash F L (fst (delete_stream eid ctx))"
    unfolding delete_stream_fst on_catalog_def
    using m con by (intro eng_inv_catalog cat_inv_remove_stream) (auto simp: eng_inv_def remove_stream_sel)
  show "live (ec_catalog (fst (delete_stream eid ctx))) i = Some b \<longleftrightarrow>
      live ?c i = Some b \<and> b_stream_id b \<noteq> eid"
    using lv by (simp add: delete_stream_fst on_catalog_def live_def remove_stream_sel)
  show "hm_get (subscriptions (ec_catalog (fst (delete_stream eid ctx)))) sid = Some u \<longleftrightarrow>
      hm_get (subscriptions ?c) sid = Some u \<and> ui_stream_id u \<noteq> eid"
    using sub_con [of sid u] by (auto simp: delete_stream_fst on_catalog_def remove_stream_sel sel d(3))
  show "slot_get (consumers (ec_catalog (fst (delete_stream eid ctx)))) cid = Some ci \<longleftrightarrow>
      slot_get (consumers ?c) cid = Some ci \<and> ci_stream_id ci \<noteq> eid"
    using con by (simp add: delete_stream_fst on_catalog_def remove_stream_sel)
  show "stream_exists (ec_catalog (fst (delete_stream eid ctx))) s \<longleftrightarrow> s \<noteq> eid \<and> stream_exists ?c s"
    by (simp add: delete_stream_fst on_catalog_def remove_stream_sel) (simp add: stream_exists_def sel d(4))
qed

lemma mark_connection_dead:
  assumes inv: "eng_inv hash F L ctx"
  shows "eng_inv hash F L (fst (mark_connection_dead conn ctx))"
    and "live (ec_catalog (fst (mark_connection_dead conn ctx))) i = Some b \<longleftrightarrow>
      live (ec_catalog ctx) i = Some b \<and> b_connection_id b \<noteq> conn"
proof -
  let ?st = "retire_bindings_for_connection conn (ctx, delta_default)"
  have i: "idx_inv (ec_catalog (fst (ctx, delta_default)))" using inv by (simp add: eng_inv_def cat_inv_def)
  have f: "fst (mark_connection_dead conn ctx) = on_catalog (remove_connection_entity conn) (fst ?st)"
    by (simp add: mark_connection_dead_def Let_def case_prod_beta)
  have inv': "eng_inv hash F L (fst ?st)" using inv by (simp add: retire_for_defs retire_fold)
  have "cat_inv hash F (remove_connection_entity conn (ec_catalog (fst ?st)))"
    by (rule cat_inv_open_connection(2)) (use inv' in \<open>simp add: eng_inv_def\<close>)
  then show "eng_inv hash F L (fst (mark_connection_dead conn ctx))"
    unfolding f on_catalog_def by (intro eng_inv_catalog inv') (simp_all add: remove_connection_entity_def)
  show "live (ec_catalog (fst (mark_connection_dead conn ctx))) i = Some b \<longleftrightarrow>
      live (ec_catalog ctx) i = Some b \<and> b_connection_id b \<noteq> conn"
    using retire_for_live(3) [OF i, of conn i b]
    by (simp add: f on_catalog_def live_def remove_connection_entity_def)
qed

section \<open>Subscribing\<close>

text \<open>The pending deliveries of the binding a subscription replaces.\<close>

definition displaced_load :: "u32 \<Rightarrow> catalog \<Rightarrow> slack" where
  "displaced_load sid c sc k = (case hm_get (by_subscription c) sid of
     None \<Rightarrow> 0
   | Some bid \<Rightarrow> (case live c bid of
       None \<Rightarrow> 0 | Some b \<Rightarrow> if k = skey sc b then length (b_pending b) else 0))"

lemma load_displaced:
  assumes "idx_inv c"
  shows "load sc (live c) k = load sc (live (displaced sid c ev)) k + displaced_load sid c sc k"
proof (cases "hm_get (by_subscription c) sid")
  case None
  then show ?thesis by (simp add: displaced_def displaced_load_def)
next
  case (Some bid)
  then obtain b where "live c bid = Some b" using by_subscription_live [OF assms] by blast
  then show ?thesis
    using load_del [OF _ live_finite, of c bid b sc k] Some
    by (simp add: displaced_def displaced_load_def live_retired)
qed

lemma engine_subscribe_sel:
  "fst (engine_subscribe conn sid ctx) = fst (cat_subscribe conn sid (ec_catalog ctx) delta_default)"
  "fst (snd (engine_subscribe conn sid ctx)) =
    ctx\<lparr>ec_catalog := subscribed conn sid (ec_catalog ctx) delta_default\<rparr>"
  by (simp_all add: engine_subscribe_def subscribed_def Let_def case_prod_beta)

definition can_subscribe :: "u32 \<Rightarrow> catalog \<Rightarrow> bool" where
  "can_subscribe sid c \<longleftrightarrow> (\<exists>u ci. hm_get (subscriptions c) sid = Some u \<and>
     slot_get (consumers c) (ui_consumer_id u) = Some ci)"

lemma subscribed_noop: "\<not> can_subscribe sid c \<Longrightarrow> subscribed conn sid c ev = c"
  by (cases "hm_get (subscriptions c) sid";
      cases "slot_get (consumers c) (ui_consumer_id (the (hm_get (subscriptions c) sid)))")
    (auto simp: subscribed_def subscribe_error can_subscribe_def)

lemma eng_inv_subscribe:
  assumes inv: "eng_inv hash F L ctx" and lt: "next_binding_id (ec_catalog ctx) + 1 < 2 ^ 32"
  shows "eng_inv hash F (if can_subscribe sid (ec_catalog ctx)
      then (\<lambda>sc k. L sc k + displaced_load sid (ec_catalog ctx) sc k) else L)
    (fst (snd (engine_subscribe conn sid ctx)))"
proof (cases "can_subscribe sid (ec_catalog ctx)")
  case False
  then show ?thesis using inv by (simp add: engine_subscribe_sel subscribed_noop)
next
  case True
  let ?c = "ec_catalog ctx"
  let ?d = "displaced sid ?c delta_default" and ?n = "next_binding_id ?c"
  have i: "idx_inv ?c" "cat_inv hash F ?c" using inv by (simp_all add: eng_inv_def cat_inv_def)
  obtain u ci where u: "hm_get (subscriptions ?c) sid = Some u"
    "slot_get (consumers ?c) (ui_consumer_id u) = Some ci" using True by (auto simp: can_subscribe_def)
  have lv: "live (subscribed conn sid ?c delta_default) = (live ?d)(?n \<mapsto> new_binding conn sid u ci ?n)"
    using live_subscribed [OF u i(1)] .
  have di: "idx_inv ?d" "next_binding_id ?d = ?n" using idx_inv_displaced [OF i(1)] displaced_sel [OF i(1)] by auto
  have fresh: "live ?d ?n = None" using di unfolding idx_inv_def by (metis less_irrefl option.exhaust)
  have "live ?d x = Some b \<Longrightarrow> live ?c x = Some b" for x b
    by (auto simp: displaced_def live_retired split: option.splits if_splits)
  then have ok: "pending_ok (subscribed conn sid ?c delta_default)"
    using inv by (auto simp: eng_inv_def pending_ok_def lv)
  have cr: "inflight_get (ec_inflight ctx) sc k =
      load sc (live (subscribed conn sid ?c delta_default)) k + (L sc k + displaced_load sid ?c sc k)" for sc k
    using inv load_displaced [OF i(1), of sc k sid delta_default]
      load_add [OF fresh live_finite, of sc "new_binding conn sid u ci ?n" k]
    by (simp add: lv eng_inv_def credit_def)
  show ?thesis
    using True ok cr cat_inv_subscribed [OF i(2) lt]
    by (simp add: engine_subscribe_sel eng_inv_def credit_def)
qed

section \<open>Commands\<close>

lemma eng_inv_mut:
  assumes inv: "eng_inv hash F L ctx" and b: "live (ec_catalog ctx) bid = Some b"
    and ok: "hm_ok (b_pending b) \<Longrightarrow> hm_ok (f (b_pending b))"
    and cr: "\<And>sc k. inflight_get infl sc k + (if k = skey sc b then length (b_pending b) else 0) =
      inflight_get (ec_inflight ctx) sc k + (if k = skey sc b then length (f (b_pending b)) else 0)"
  shows "eng_inv hash F L (ctx\<lparr>ec_catalog := pending_mut bid f (ec_catalog ctx), ec_inflight := infl\<rparr>)"
proof -
  let ?c = "ec_catalog ctx"
  have "inflight_get infl sc k = load sc (live (pending_mut bid f ?c)) k + L sc k" for sc k
    using inv load_pending_mut [OF b, of sc f k] cr [of sc k]
    by (simp add: eng_inv_def credit_def split: if_splits)
  moreover have "pending_ok (pending_mut bid f ?c)"
    using inv ok b by (auto simp: eng_inv_def pending_ok_def live_pending_mut)
  ultimately show ?thesis
    using inv by (simp add: eng_inv_def credit_def cat_inv_pending_mut)
qed

lemma deliver_entry_new:
  assumes "live (ec_catalog ctx) bid = Some b" "hm_get (b_pending b) (de_seq e) = None"
  shows "deliver_entry bid c q e ctx =
      ctx\<lparr>ec_catalog := pending_mut bid (hm_insert (de_seq e)
          \<lparr>p_seq = de_seq e, p_subject_hash = de_subject_hash e, p_deliveries = 1\<rparr>) (ec_catalog ctx),
        ec_inflight := inc_pending c q (ec_inflight ctx)\<rparr>"
  using assms by (simp add: deliver_entry_def cat_binding_def live_def hm_contains_get)

lemma deliver_entry_dup:
  assumes "live (ec_catalog ctx) bid = Some b" "hm_get (b_pending b) (de_seq e) \<noteq> None"
  shows "deliver_entry bid c q e ctx = ctx"
  using assms by (simp add: deliver_entry_def cat_binding_def live_def hm_contains_get)

lemma eng_inv_deliver_entry:
  assumes inv: "eng_inv hash F L ctx" and b: "live (ec_catalog ctx) bid = Some b"
    and room: "inflight_get (ec_inflight ctx) Consumer (b_consumer_id b) + 1 < 2 ^ 32"
      "inflight_get (ec_inflight ctx) Queue (b_queue_id b) + 1 < 2 ^ 32"
  shows "eng_inv hash F L (deliver_entry bid (b_consumer_id b) (b_queue_id b) e ctx)"
proof (cases "hm_get (b_pending b) (de_seq e)")
  case (Some p)
  then show ?thesis using inv b by (simp add: deliver_entry_dup)
next
  case None
  show ?thesis
    unfolding deliver_entry_new [OF b None]
  proof (rule eng_inv_mut [OF inv b])
    fix sc k
    show "inflight_get (inc_pending (b_consumer_id b) (b_queue_id b) (ec_inflight ctx)) sc k +
        (if k = skey sc b then length (b_pending b) else 0) =
      inflight_get (ec_inflight ctx) sc k + (if k = skey sc b then length (hm_insert (de_seq e)
        \<lparr>p_seq = de_seq e, p_subject_hash = de_subject_hash e, p_deliveries = 1\<rparr> (b_pending b)) else 0)"
      unfolding length_hm_insert_new [OF None] using room
      by (cases sc) (auto simp: infl.get_inc2 skey_def)
  qed (simp add: hm_ok_insert)
qed

definition same_keys :: "binding \<Rightarrow> binding \<Rightarrow> bool" where
  "same_keys b b' \<longleftrightarrow> b' = b\<lparr>b_pending := b_pending b'\<rparr>"

lemma same_keysD:
  assumes "same_keys b b'"
  shows "b_consumer_id b' = b_consumer_id b" "b_queue_id b' = b_queue_id b" "b_stream_id b' = b_stream_id b"
    "b_connection_id b' = b_connection_id b" "b_fire_and_forget b' = b_fire_and_forget b"
    "b_external_sub_id b' = b_external_sub_id b" "b_subscription_id b' = b_subscription_id b"
  using assms unfolding same_keys_def by (metis binding.select_convs binding.surjective binding.update_convs(11))+

lemma live_mut_same:
  "live c i = Some b \<Longrightarrow> \<exists>b'. live (pending_mut bid f c) i = Some b' \<and> same_keys b b'"
  by (auto simp: live_pending_mut same_keys_def split: option.split)

lemma deliver_entry_live:
  assumes "live (ec_catalog ctx) bid = Some b"
  shows "\<exists>b'. live (ec_catalog (deliver_entry bid c q e ctx)) bid = Some b' \<and> same_keys b b'"
proof (cases "hm_get (b_pending b) (de_seq e)")
  case (Some p)
  then show ?thesis using assms by (simp add: deliver_entry_dup) (simp add: same_keys_def)
next
  case None
  then show ?thesis using live_mut_same [OF assms] by (simp add: deliver_entry_new [OF assms])
qed

lemma deliver_entry_inflight:
  "inflight_get (ec_inflight ctx) sc k + 1 < 2 ^ 32 \<Longrightarrow>
    inflight_get (ec_inflight (deliver_entry bid c q e ctx)) sc k \<le> inflight_get (ec_inflight ctx) sc k + 1"
  by (auto simp: deliver_entry_def infl.get_inc2 split: option.split)

lemma eng_inv_deliver_fold:
  assumes "eng_inv hash F L ctx" "live (ec_catalog ctx) bid = Some b"
    "inflight_get (ec_inflight ctx) Consumer (b_consumer_id b) + length es < 2 ^ 32"
    "inflight_get (ec_inflight ctx) Queue (b_queue_id b) + length es < 2 ^ 32"
  shows "eng_inv hash F L (fold (deliver_entry bid (b_consumer_id b) (b_queue_id b)) es ctx)"
  using assms
proof (induction es arbitrary: ctx b)
  case (Cons e es)
  let ?ctx = "deliver_entry bid (b_consumer_id b) (b_queue_id b) e ctx"
  have inv: "eng_inv hash F L ?ctx" using Cons.prems by (intro eng_inv_deliver_entry) auto
  obtain b' where b': "live (ec_catalog ?ctx) bid = Some b'" "same_keys b b'"
    using deliver_entry_live [OF Cons.prems(2)] by blast
  note k = same_keysD [OF b'(2)]
  have "eng_inv hash F L (fold (deliver_entry bid (b_consumer_id b') (b_queue_id b')) es ?ctx)"
    using Cons.prems(3,4) deliver_entry_inflight [of ctx Consumer "b_consumer_id b" bid "b_consumer_id b" "b_queue_id b" e]
      deliver_entry_inflight [of ctx Queue "b_queue_id b" bid "b_consumer_id b" "b_queue_id b" e]
    by (intro Cons.IH inv b'(1)) (simp_all add: k)
  then show ?case by (simp add: k)
qed simp

lemma eng_inv_apply_delivered:
  assumes "eng_inv hash F L ctx"
    "\<And>b. live (ec_catalog ctx) bid = Some b \<Longrightarrow>
      inflight_get (ec_inflight ctx) Consumer (b_consumer_id b) + length es < 2 ^ 32 \<and>
      inflight_get (ec_inflight ctx) Queue (b_queue_id b) + length es < 2 ^ 32"
  shows "eng_inv hash F L (apply_delivered bid es ctx)"
  using assms eng_inv_deliver_fold [OF assms(1)]
  by (auto simp: apply_delivered_def cat_binding_def live_def split: option.split)

text \<open>Acks and nacks.\<close>

lemma try_release_Some:
  assumes "try_release cid ack bid st = Some st'"
  obtains b p where "live (ec_catalog (as_ctx st)) bid = Some b" "b_stream_id b = ae_stream_id ack"
    "hm_get (b_pending b) (ae_seq ack) = Some p"
    "as_ctx st' = (as_ctx st)\<lparr>ec_catalog := pending_mut bid (hm_remove (ae_seq ack)) (ec_catalog (as_ctx st)),
       ec_inflight := dec_pending cid (b_queue_id b) (ec_inflight (as_ctx st))\<rparr>"
    "subject_hashes_acked (as_events st') =
       subject_hashes_acked (as_events st) @ [(cid, p_subject_hash p, p_seq p)]"
    "as_matched st' = as_matched st + 1"
  using assms by (auto simp: try_release_def cat_binding_def live_def split: option.splits if_splits)

lemma eng_inv_try_release:
  assumes inv: "eng_inv hash F L (as_ctx st)" and r: "try_release cid ack bid st = Some st'"
    and own: "\<And>b. live (ec_catalog (as_ctx st)) bid = Some b \<Longrightarrow> b_consumer_id b = cid"
  shows "eng_inv hash F L (as_ctx st')"
proof -
  obtain b p where b: "live (ec_catalog (as_ctx st)) bid = Some b" "hm_get (b_pending b) (ae_seq ack) = Some p"
    "as_ctx st' = (as_ctx st)\<lparr>ec_catalog := pending_mut bid (hm_remove (ae_seq ack)) (ec_catalog (as_ctx st)),
       ec_inflight := dec_pending cid (b_queue_id b) (ec_inflight (as_ctx st))\<rparr>"
    using r by (rule try_release_Some)
  have len: "length (b_pending b) = length (hm_remove (ae_seq ack) (b_pending b)) + 1"
    using inv b(1,2) by (intro length_hm_remove) (auto simp: eng_inv_def pending_ok_def)
  show ?thesis
    unfolding b(3)
  proof (rule eng_inv_mut [OF inv b(1)])
    fix sc k
    have "(if k = skey sc b then length (b_pending b) else 0) \<le> load sc (live (ec_catalog (as_ctx st))) k"
      using load_del [OF b(1) live_finite, of sc k] by simp
    then have "(if k = skey sc b then length (b_pending b) else 0) \<le> inflight_get (ec_inflight (as_ctx st)) sc k"
      using inv by (simp add: eng_inv_def credit_def)
    then show "inflight_get (dec_pending cid (b_queue_id b) (ec_inflight (as_ctx st))) sc k +
        (if k = skey sc b then length (b_pending b) else 0) =
      inflight_get (ec_inflight (as_ctx st)) sc k +
        (if k = skey sc b then length (hm_remove (ae_seq ack) (b_pending b)) else 0)"
      using own [OF b(1)] len by (cases sc) (auto simp: infl.get_dec2 skey_def)
  qed (simp add: hm_ok_remove)
qed

text \<open>Releases change the pending maps only.\<close>

definition same_shape :: "catalog \<Rightarrow> catalog \<Rightarrow> bool" where
  "same_shape c c' \<longleftrightarrow> by_conn_subscription c' = by_conn_subscription c \<and>
    (\<forall>i b'. live c' i = Some b' \<longrightarrow> (\<exists>b. live c i = Some b \<and> same_keys b b'))"

lemma same_keys_refl [simp]: "same_keys b b"
  by (simp add: same_keys_def)

lemma same_shape_refl [simp]: "same_shape c c"
  using same_keys_refl by (auto simp: same_shape_def)

lemma same_keys_trans: "same_keys a b \<Longrightarrow> same_keys b c \<Longrightarrow> same_keys a c"
  unfolding same_keys_def by (metis binding.surjective binding.update_convs(11))

lemma same_shape_trans: "same_shape a b \<Longrightarrow> same_shape b c \<Longrightarrow> same_shape a c"
  unfolding same_shape_def by (metis same_keys_trans)

lemma same_shape_mut: "same_shape c (pending_mut bid f c)"
  unfolding same_shape_def
proof (intro conjI allI impI)
  fix i b'
  assume "live (pending_mut bid f c) i = Some b'"
  then obtain b where "live c i = Some b" "b' = b\<lparr>b_pending := b_pending b'\<rparr>" by (rule live_pending_mutE)
  then show "\<exists>b. live c i = Some b \<and> same_keys b b'" by (auto simp: same_keys_def)
qed simp

definition owned :: "u32 \<Rightarrow> catalog \<Rightarrow> u32 \<Rightarrow> bool" where
  "owned cid c bid \<longleftrightarrow> (\<forall>b. live c bid = Some b \<longrightarrow> b_consumer_id b = cid)"

definition mine :: "u64 \<Rightarrow> u32 \<Rightarrow> catalog \<Rightarrow> ack_entry \<Rightarrow> bool" where
  "mine conn cid c ack \<longleftrightarrow> ae_sub_id ack = 0 \<or>
    (\<forall>bid. hm_get (by_conn_subscription c) (conn, ae_sub_id ack) = Some bid \<longrightarrow> owned cid c bid)"

lemma owned_shape: "same_shape c c' \<Longrightarrow> owned cid c bid \<Longrightarrow> owned cid c' bid"
  unfolding same_shape_def owned_def by (metis same_keysD(1))

lemma mine_shape: "same_shape c c' \<Longrightarrow> mine conn cid c ack \<Longrightarrow> mine conn cid c' ack"
  unfolding mine_def using owned_shape by (auto simp: same_shape_def)

definition ack_ok :: "(bytes \<Rightarrow> u32) \<Rightarrow> bytes set \<Rightarrow> slack \<Rightarrow> catalog \<Rightarrow> ack_state \<Rightarrow> bool" where
  "ack_ok hash F L c st \<longleftrightarrow> eng_inv hash F L (as_ctx st) \<and> same_shape c (ec_catalog (as_ctx st))"

lemma ack_ok_try:
  assumes "ack_ok hash F L c st" "try_release cid ack bid st = Some st'" "owned cid c bid"
  shows "ack_ok hash F L c st'"
proof -
  obtain b :: binding where "as_ctx st' = (as_ctx st)\<lparr>ec_catalog := pending_mut bid (hm_remove (ae_seq ack)) (ec_catalog (as_ctx st)),
       ec_inflight := dec_pending cid (b_queue_id b) (ec_inflight (as_ctx st))\<rparr>"
    using assms(2) by (rule try_release_Some)
  then have "same_shape c (ec_catalog (as_ctx st'))"
    using assms(1) same_shape_trans [OF _ same_shape_mut] by (simp add: ack_ok_def)
  moreover have "owned cid (ec_catalog (as_ctx st)) bid"
    using assms(1,3) owned_shape by (auto simp: ack_ok_def)
  ultimately show ?thesis
    using eng_inv_try_release [OF _ assms(2)] assms(1) by (auto simp: ack_ok_def owned_def)
qed

text \<open>
  Induction over the release loops: \<open>Q\<close> holds at the end if every release from a
  binding the loops may reach keeps it.
\<close>

lemma release_first_induct:
  assumes "Q st" "list_all T bids"
    "\<And>bid st'. T bid \<Longrightarrow> try_release cid ack bid st = Some st' \<Longrightarrow> Q st'"
  shows "Q (release_first cid ack bids st)"
  using assms by (induction bids) (auto split: option.split)

lemma release_fold_induct:
  assumes "Q st"
    and step: "\<And>st st' bid ack. Q st \<Longrightarrow> T bid \<Longrightarrow> try_release cid ack bid st = Some st' \<Longrightarrow> Q st'"
    and unnamed: "\<And>ack. ack \<in> set acks \<Longrightarrow> ae_sub_id ack = 0 \<Longrightarrow> list_all T bids"
    and named: "\<And>st ack bid. Q st \<Longrightarrow> ack \<in> set acks \<Longrightarrow> ae_sub_id ack \<noteq> 0 \<Longrightarrow>
      binding_id_for_subscription (ec_catalog (as_ctx st)) conn (ae_sub_id ack) = Some bid \<Longrightarrow> T bid"
  shows "Q (fold (release_entry conn cid bids) acks st)"
  using assms(1) unnamed named
proof (induction acks arbitrary: st)
  case (Cons ack acks)
  have "Q (release_entry conn cid bids ack st)"
  proof (cases "ae_sub_id ack = 0")
    case True
    moreover have "list_all T bids" using Cons.prems(2) [of ack] True by simp
    ultimately show ?thesis
      using release_first_induct [of Q st T bids cid ack, OF Cons.prems(1)] step [OF Cons.prems(1)]
      by (simp add: release_entry_def)
  next
    case False
    have "T bid" if "binding_id_for_subscription (ec_catalog (as_ctx st)) conn (ae_sub_id ack) = Some bid" for bid
      by (rule Cons.prems(3) [OF Cons.prems(1) _ False that]) simp
    then show ?thesis
      using False Cons.prems(1) step [OF Cons.prems(1)] by (auto simp: release_entry_def split: option.split)
  qed
  then have "Q (fold (release_entry conn cid bids) acks (release_entry conn cid bids ack st))"
  proof (rule Cons.IH)
    show "list_all T bids" if "x \<in> set acks" "ae_sub_id x = 0" for x
      using Cons.prems(2) [of x] that by simp
    show "T bid" if "Q st" "x \<in> set acks" "ae_sub_id x \<noteq> 0"
      "binding_id_for_subscription (ec_catalog (as_ctx st)) conn (ae_sub_id x) = Some bid" for st x bid
      by (rule Cons.prems(3) [OF that(1) _ that(3,4)]) (simp add: that(2))
  qed
  then show ?case by simp
qed simp

lemma ack_ok_fold:
  assumes "ack_ok hash F L c st" "list_all (owned cid c) bids" "list_all (mine conn cid c) acks"
  shows "ack_ok hash F L c (fold (release_entry conn cid bids) acks st)"
proof (rule release_fold_induct [where T = "owned cid c"])
  fix st ack bid
  assume "ack_ok hash F L c st" "ack \<in> set acks" "ae_sub_id ack \<noteq> 0"
    "binding_id_for_subscription (ec_catalog (as_ctx st)) conn (ae_sub_id ack) = Some bid"
  then show "owned cid c bid"
    using assms(3) by (auto simp: ack_ok_def same_shape_def list_all_iff mine_def binding_id_for_subscription_def)
qed (use assms ack_ok_try in blast)+

lemma owned_bindings_for_consumer:
  "idx_inv c \<Longrightarrow> list_all (owned cid c) (bindings_for_consumer c cid)"
  by (auto simp: list_all_iff set_bindings_for holders_def owned_def)

lemma eng_inv_release:
  assumes inv: "eng_inv hash F L ctx" and mine: "list_all (mine conn cid (ec_catalog ctx)) acks"
  shows "eng_inv hash F L (as_ctx (release_entries conn cid acks ctx))"
proof -
  let ?st = "\<lparr>as_ctx = ctx, as_events = delta_default, as_matched = 0\<rparr>"
  have i: "idx_inv (ec_catalog ctx)" using inv by (simp add: eng_inv_def cat_inv_def)
  have "ack_ok hash F L (ec_catalog ctx) ?st" using inv by (simp add: ack_ok_def)
  then have "ack_ok hash F L (ec_catalog ctx) (release_entries conn cid acks ctx)"
    unfolding release_entries_def Let_def
    by (rule ack_ok_fold [OF _ owned_bindings_for_consumer [OF i] mine])
  then show ?thesis by (simp add: ack_ok_def)
qed

section \<open>The ack guard\<close>

lemma owns_loop_Some:
  assumes "owns_loop c conn cid acks named = Some r"
  shows "list_all (\<lambda>ack. ae_sub_id ack = 0 \<or> (\<exists>b. binding_for_subscription c conn (ae_sub_id ack) = Some b \<and>
      b_consumer_id b = cid)) acks"
    and "r \<longleftrightarrow> named \<or> list_ex (\<lambda>ack. ae_sub_id ack \<noteq> 0) acks"
  using assms by (induction acks arbitrary: named) (auto split: if_splits option.splits)

lemma owns_loop_complete:
  "list_all (\<lambda>ack. ae_sub_id ack = 0 \<or> (\<exists>b. binding_for_subscription c conn (ae_sub_id ack) = Some b \<and>
      b_consumer_id b = cid)) acks \<Longrightarrow>
    owns_loop c conn cid acks named = Some (named \<or> list_ex (\<lambda>ack. ae_sub_id ack \<noteq> 0) acks)"
  by (induction acks arbitrary: named) auto

lemma binding_for_subscription_live:
  assumes "idx_inv c" "binding_for_subscription c conn sub = Some b"
  shows "b_connection_id b = conn" "b_external_sub_id b = sub" "\<exists>bid. live c bid = Some b"
proof -
  obtain bid where bid: "hm_get (by_conn_subscription c) (conn, sub) = Some bid" "live c bid = Some b"
    using assms(2) by (auto simp: binding_for_subscription_def live_def bind_eq_Some_conv)
  moreover have "bid \<in> holders (\<lambda>b. (b_connection_id b, b_external_sub_id b)) (live c) (conn, sub)"
    using assms(1) bid(1) by (simp add: idx_inv_def points_ok_def)
  ultimately show "b_connection_id b = conn" "b_external_sub_id b = sub" "\<exists>bid. live c bid = Some b"
    by (auto simp: holders_def)
qed

lemma connection_owns_consumer_iff:
  assumes "idx_inv c"
  shows "connection_owns_consumer c conn cid \<longleftrightarrow>
    (\<exists>bid b. live c bid = Some b \<and> b_connection_id b = conn \<and> b_consumer_id b = cid)"
  using assms by (auto simp: connection_owns_consumer_def hm_contains_get idx_inv_def count_ok_def holders_def)

lemma connection_owns_mine:
  assumes "connection_owns c conn cid acks"
  shows "list_all (mine conn cid c) acks"
proof -
  obtain r where "owns_loop c conn cid acks False = Some r"
    using assms by (auto simp: connection_owns_def split: option.splits)
  from owns_loop_Some(1) [OF this] show ?thesis
    by (auto simp: list_all_iff mine_def owned_def binding_for_subscription_def live_def)
qed

end
