(* ===== verification/Engine_Steps.thy ===== *)
theory Engine_Steps
  imports Engine_Inv "HOL-Library.Code_Target_Nat"
begin

text \<open>
  The engine as a transition system.  A step is a call of the facade or a
  command, under the conditions its callers establish: subscriptions name
  consumers of their stream and valid filters, acks pass the ownership guard,
  and the 32-bit counters have room.  A step is labelled with the credit it
  drops; \<open>reach\<close> collects the states that sequences of steps lead to, with the
  credit dropped on the way.
\<close>

section \<open>Steps\<close>

abbreviation no_slack :: slack where
  "no_slack \<equiv> \<lambda>_ _. 0"

definition deliver_room :: "engine_context \<Rightarrow> u32 \<Rightarrow> nat \<Rightarrow> bool" where
  "deliver_room ctx bid n \<longleftrightarrow> (case cat_binding (ec_catalog ctx) bid of
     None \<Rightarrow> True
   | Some b \<Rightarrow> inflight_get (ec_inflight ctx) Consumer (b_consumer_id b) + n < 2 ^ 32 \<and>
       inflight_get (ec_inflight ctx) Queue (b_queue_id b) + n < 2 ^ 32)"

inductive estep :: "(bytes \<Rightarrow> u32) \<Rightarrow> bytes set \<Rightarrow> engine_context \<Rightarrow> slack \<Rightarrow> engine_context \<Rightarrow> bool"
  for hash F where
  step_create_stream: "estep hash F ctx no_slack (snd (create_stream cfg ctx))"
| step_delete_stream: "estep hash F ctx no_slack (fst (delete_stream sid ctx))"
| step_create_consumer: "estep hash F ctx no_slack (snd (create_consumer ccfg ctx))"
| step_delete_consumer: "estep hash F ctx no_slack (fst (delete_consumer cid ctx))"
| step_create_subscription: "sub_ok F scfg (ec_catalog ctx) \<Longrightarrow>
    estep hash F ctx no_slack (snd (create_subscription hash scfg ctx))"
| step_subscribe: "next_binding_id (ec_catalog ctx) + 1 < 2 ^ 32 \<Longrightarrow>
    d = (if can_subscribe sub (ec_catalog ctx) then displaced_load sub (ec_catalog ctx) else no_slack) \<Longrightarrow>
    estep hash F ctx d (fst (snd (engine_subscribe conn sub ctx)))"
| step_unsubscribe: "estep hash F ctx no_slack (fst (unsubscribe bid ctx))"
| step_open_connection: "estep hash F ctx no_slack (engine_open_connection conn node ctx)"
| step_mark_connection_dead: "estep hash F ctx no_slack (fst (mark_connection_dead conn ctx))"
| step_pause: "estep hash F ctx no_slack (snd (engine_pause_consumer cid ctx))"
| step_resume: "estep hash F ctx no_slack (snd (engine_resume_consumer cid ctx))"
| step_limit: "estep hash F ctx no_slack (snd (engine_set_max_subject_inflight hash sid pat n ctx))"
| step_delivered: "deliver_room ctx bid (length es) \<Longrightarrow>
    estep hash F ctx no_slack (fst (engine_apply (Delivered sid bid es) ctx))"
| step_ack: "connection_owns (ec_catalog ctx) conn cid acks \<Longrightarrow>
    estep hash F ctx no_slack (fst (engine_apply (Ack conn cid acks) ctx))"
| step_nack: "connection_owns (ec_catalog ctx) conn cid acks \<Longrightarrow>
    estep hash F ctx no_slack (fst (engine_apply (Nack conn cid acks) ctx))"
| step_published: "estep hash F ctx no_slack (fst (engine_apply (PublishAccepted sid seq conn env) ctx))"
| step_tombstone: "estep hash F ctx no_slack (fst (engine_apply (Tombstone sid seq reason) ctx))"

inductive reach :: "(bytes \<Rightarrow> u32) \<Rightarrow> bytes set \<Rightarrow> engine_context \<Rightarrow> slack \<Rightarrow> bool"
  for hash F where
  reach_new: "reach hash F engine_new no_slack"
| reach_step: "reach hash F ctx L \<Longrightarrow> estep hash F ctx d ctx' \<Longrightarrow> reach hash F ctx' (\<lambda>sc k. L sc k + d sc k)"

lemma eng_inv_apply_ack:
  assumes "eng_inv hash F L ctx" "connection_owns (ec_catalog ctx) conn cid acks"
  shows "eng_inv hash F L (fst (engine_apply (Ack conn cid acks) ctx))"
    and "eng_inv hash F L (fst (engine_apply (Nack conn cid acks) ctx))"
proof -
  have "eng_inv hash F L (as_ctx (release_entries conn cid acks (on_metrics f ctx)))" for f
    using assms connection_owns_mine by (intro eng_inv_release) (auto simp: on_metrics_def eng_inv_def credit_def)
  then show "eng_inv hash F L (fst (engine_apply (Ack conn cid acks) ctx))"
    "eng_inv hash F L (fst (engine_apply (Nack conn cid acks) ctx))"
    by (simp_all add: engine_apply_def Let_def)
qed

lemma eng_inv_apply_delivered_cmd:
  assumes "eng_inv hash F L ctx" "deliver_room ctx bid (length es)"
  shows "eng_inv hash F L (fst (engine_apply (Delivered sid bid es) ctx))"
proof -
  let ?ctx = "on_metrics (\<lambda>m. m\<lparr>claim_entries_delivered := claim_entries_delivered m + length es\<rparr>) ctx"
  have "eng_inv hash F L (apply_delivered bid es ?ctx)"
    by (rule eng_inv_apply_delivered)
      (use assms in \<open>auto simp: deliver_room_def on_metrics_def cat_binding_def live_def eng_inv_def credit_def\<close>)
  then show ?thesis by (simp add: engine_apply_def Let_def)
qed

lemma cat_op_bindings:
  "bindings (snd (ensure_stream cfg c)) = bindings c"
  "bindings (snd (ensure_consumer ccfg c)) = bindings c"
  "bindings (snd (ensure_subscription hash scfg c)) = bindings c"
  "bindings (snd (set_paused p cid c)) = bindings c"
  "bindings (snd (set_max_subject_inflight hash s pat n c)) = bindings c"
  "bindings (open_connection conn node c) = bindings c"
  by (auto simp: ensure_stream_def ensure_stream_slot_def ensure_consumer_def ensure_consumer_slot_def
      ensure_subscription_def set_paused_def set_max_subject_inflight_def open_connection_def
      ensure_match_table_slot_def Let_def split: option.split sum.split)

lemma estep_inv:
  assumes "estep hash F ctx d ctx'" "eng_inv hash F L ctx"
  shows "eng_inv hash F (\<lambda>sc k. L sc k + d sc k) ctx'"
proof -
  have c: "cat_inv hash F (ec_catalog ctx)" using assms(2) by (simp add: eng_inv_def)
  show ?thesis
    using assms(1)
  proof cases
    case (step_create_stream cfg)
    then show ?thesis using eng_inv_catalog [OF assms(2) cat_inv_ensure_stream [OF c, of cfg] cat_op_bindings(1)]
      by (simp add: create_stream_def Let_def case_prod_beta)
  next
    case (step_create_consumer ccfg)
    then show ?thesis using eng_inv_catalog [OF assms(2) cat_inv_ensure_consumer [OF c, of ccfg] cat_op_bindings(2)]
      by (simp add: create_consumer_def Let_def case_prod_beta)
  next
    case (step_create_subscription scfg)
    then show ?thesis
      using eng_inv_catalog [OF assms(2) cat_inv_ensure_subscription [OF c, of scfg] cat_op_bindings(3)]
      by (simp add: create_subscription_def Let_def case_prod_beta)
  next
    case (step_subscribe sub conn)
    then show ?thesis using eng_inv_subscribe [OF assms(2), of sub conn] by (simp split: if_splits)
  next
    case (step_unsubscribe bid)
    then show ?thesis using eng_inv_retire [of hash F L "(ctx, delta_default)" bid] assms(2)
      by (simp add: unsubscribe_def)
  next
    case (step_pause cid)
    then show ?thesis using eng_inv_catalog [OF assms(2) cat_inv_set_paused [OF c, of True cid] cat_op_bindings(4)]
      by (simp add: engine_pause_consumer_def pause_consumer_def Let_def case_prod_beta)
  next
    case (step_resume cid)
    then show ?thesis using eng_inv_catalog [OF assms(2) cat_inv_set_paused [OF c, of False cid] cat_op_bindings(4)]
      by (simp add: engine_resume_consumer_def resume_consumer_def Let_def case_prod_beta)
  next
    case (step_limit sid pat n)
    then show ?thesis
      using eng_inv_catalog [OF assms(2) cat_inv_set_max_subject_inflight [OF c, of sid pat n] cat_op_bindings(5)]
      by (simp add: engine_set_max_subject_inflight_def Let_def case_prod_beta)
  next
    case (step_open_connection conn node)
    then show ?thesis using eng_inv_catalog [OF assms(2) cat_inv_open_connection(1) [OF c, of conn node] cat_op_bindings(6)]
      by (simp add: engine_open_connection_def on_catalog_def)
  next
    case (step_delivered bid es sid)
    then show ?thesis using eng_inv_apply_delivered_cmd [OF assms(2)] by simp
  next
    case (step_ack conn cid acks)
    then show ?thesis using eng_inv_apply_ack(1) [OF assms(2)] by simp
  next
    case (step_nack conn cid acks)
    then show ?thesis using eng_inv_apply_ack(2) [OF assms(2)] by simp
  qed (use assms(2) in \<open>simp_all add: delete_stream(1) delete_consumer_drop drop_consumer(1)
    mark_connection_dead(1) engine_apply_def split: drop_reason.split\<close>)
qed

lemma reach_inv: "reach hash F ctx L \<Longrightarrow> eng_inv hash F L ctx"
  by (induction rule: reach.induct) (auto intro: estep_inv eng_inv_new)

lemma reach_idx: "reach hash F ctx L \<Longrightarrow> idx_inv (ec_catalog ctx)"
  using reach_inv by (auto simp: eng_inv_def cat_inv_def)

lemma reach_ent: "reach hash F ctx L \<Longrightarrow> ent_inv hash F (ec_catalog ctx)"
  using reach_inv by (auto simp: eng_inv_def cat_inv_def)

section \<open>A concrete run\<close>

definition demo_subject :: bytes where
  "demo_subject = [111, 46, 97]"

definition demo_hash :: "bytes \<Rightarrow> u32" where
  "demo_hash s = 7"

definition demo_stream :: stream_config where
  "demo_stream = \<lparr>sc_id = 1, sc_name = [115]\<rparr>"

definition demo_consumer :: consumer_config where
  "demo_consumer = \<lparr>cc_id = 2, cc_queue_id = 3, cc_stream_id = 1, cc_durable = True,
     cc_ack_policy = AckExplicit, cc_max_inflight = 10, cc_ack_wait_ms = 0, cc_max_nack = 0, cc_filter = []\<rparr>"

definition demo_sub :: subscription_config where
  "demo_sub = \<lparr>uc_id = 5, uc_external_id = 6, uc_stream_id = 1, uc_consumer_id = 2, uc_filters = [[111, 46, 42]]\<rparr>"

definition demo1 :: engine_context where
  "demo1 = snd (create_subscription demo_hash demo_sub
     (snd (create_consumer demo_consumer (snd (create_stream demo_stream engine_new)))))"

definition demo2 :: engine_context where
  "demo2 = fst (snd (engine_subscribe 9 5 demo1))"

definition demo3 :: engine_context where
  "demo3 = fst (engine_apply (Delivered 1 1 [\<lparr>de_seq = 4, de_subject_hash = 7\<rparr>]) demo2)"

definition demo4 :: engine_context where
  "demo4 = fst (snd (engine_subscribe 9 5 demo3))"

lemmas demo_defs = demo_hash_def demo_stream_def demo_consumer_def demo_sub_def demo1_def demo2_def demo3_def
  demo4_def

definition demo0 :: engine_context where
  "demo0 = snd (create_consumer demo_consumer (snd (create_stream demo_stream engine_new)))"

definition demo_consumer_info :: consumer_info where
  "demo_consumer_info = \<lparr>ci_stream_id = 1, ci_queue_id = 3, ci_max_inflight = 10, ci_paused = False,
     ci_ack_policy = AckExplicit, ci_durable = True, ci_ack_wait_ms = 0, ci_max_nack = 0, ci_filter = []\<rparr>"

definition demo_sub_info :: subscription_info where
  "demo_sub_info = \<lparr>ui_stream_id = 1, ui_consumer_id = 2, ui_external_id = 6, ui_filters = [[111, 46, 42]]\<rparr>"

definition demo_binding :: "u32 \<Rightarrow> (u64, pending) hmap \<Rightarrow> binding" where
  "demo_binding bid ps = \<lparr>b_binding_id = bid, b_stream_id = 1, b_consumer_id = 2, b_connection_id = 9,
     b_subscription_id = 5, b_external_sub_id = 6, b_queue_id = 3, b_max_inflight = 10, b_paused = False,
     b_fire_and_forget = False, b_pending = ps\<rparr>"

lemma demo_eval:
  "slot_get (consumers (ec_catalog demo0)) 2 = Some demo_consumer_info"
  "slot_get (consumers (ec_catalog demo1)) 2 = Some demo_consumer_info"
  "slot_get (consumers (ec_catalog demo3)) 2 = Some demo_consumer_info"
  "subscriptions (ec_catalog demo1) = [(5, demo_sub_info)]"
  "subscriptions (ec_catalog demo3) = [(5, demo_sub_info)]"
  "next_binding_id (ec_catalog demo1) = 1" "next_binding_id (ec_catalog demo3) = 2"
  "by_subscription (ec_catalog demo1) = []" "by_subscription (ec_catalog demo3) = [(5, 1)]"
  "bindings (ec_catalog demo2) = [(1, demo_binding 1 [])]"
  "bindings (ec_catalog demo3) = [(1, demo_binding 1 [(4, \<lparr>p_seq = 4, p_subject_hash = 7, p_deliveries = 1\<rparr>)])]"
  "bindings (ec_catalog demo4) = [(2, demo_binding 2 [])]"
  "consumer_inflight demo2 2 = 0" "inflight_get (ec_inflight demo2) Queue 3 = 0"
  "consumer_inflight demo4 2 = 1"
  by code_simp+

lemma live_simps: "live c bid = hm_get (bindings c) bid"
  by (simp add: live_def)

lemma hm_get_single: "hm_get [(k, v)] k' = (if k' = k then Some v else None)"
  by (simp add: hm_get_def)

lemma demo_sub_ok: "sub_ok {demo_subject} demo_sub (ec_catalog demo0)"
proof -
  have "list_all (\<lambda>f. validate_pattern f = Inr () \<and> (has_wildcard f \<or> f \<in> {demo_subject})) (uc_filters demo_sub)"
    by code_simp
  moreover have "uc_consumer_id demo_sub = 2" "uc_stream_id demo_sub = 1" by (simp_all add: demo_sub_def)
  ultimately show ?thesis
    by (simp add: sub_ok_def demo_eval(1)) (simp add: demo_consumer_info_def)
qed

lemma demo_reach1: "reach demo_hash {demo_subject} demo1 no_slack"
proof -
  let ?h = demo_hash and ?F = "{demo_subject}"
  have "reach ?h ?F (snd (create_stream demo_stream engine_new)) no_slack"
    using reach_step [OF reach_new step_create_stream] by simp
  then have "reach ?h ?F demo0 no_slack"
    unfolding demo0_def using reach_step [OF _ step_create_consumer] by force
  moreover note demo_sub_ok
  ultimately show ?thesis
    using reach_step [OF _ step_create_subscription] unfolding demo1_def demo0_def by force
qed

lemma demo_displaced:
  "displaced_load 5 (ec_catalog demo1) = no_slack"
  "displaced_load 5 (ec_catalog demo3) = (\<lambda>sc k. if k = (case sc of Consumer \<Rightarrow> 2 | Queue \<Rightarrow> 3) then 1 else 0)"
  by (auto simp: displaced_load_def demo_eval live_simps hm_get_single demo_binding_def skey_def fun_eq_iff
      split: inflight_scope.split)

lemma demo_can: "can_subscribe 5 (ec_catalog demo1)" "can_subscribe 5 (ec_catalog demo3)"
  by (simp_all add: can_subscribe_def demo_eval hm_get_single demo_sub_info_def)

lemma demo_reach2: "reach demo_hash {demo_subject} demo2 no_slack"
proof -
  have "estep demo_hash {demo_subject} demo1 (displaced_load 5 (ec_catalog demo1)) demo2"
    unfolding demo2_def by (rule step_subscribe) (simp_all add: demo_eval demo_can)
  from reach_step [OF demo_reach1 this] show ?thesis by (simp add: demo_displaced)
qed

lemma demo_reach3: "reach demo_hash {demo_subject} demo3 no_slack"
proof -
  have "deliver_room demo2 1 (length [\<lparr>de_seq = 4, de_subject_hash = 7\<rparr>])"
    using demo_eval(13,14) by (simp add: deliver_room_def cat_binding_def demo_eval(10) hm_get_single demo_binding_def
        consumer_inflight_def)
  from reach_step [OF demo_reach2 step_delivered [OF this]] show ?thesis by (simp add: demo3_def)
qed

lemma demo_reach4: "reach demo_hash {demo_subject} demo4
    (\<lambda>sc k. if k = (case sc of Consumer \<Rightarrow> 2 | Queue \<Rightarrow> 3) then 1 else 0)"
proof -
  have "estep demo_hash {demo_subject} demo3 (displaced_load 5 (ec_catalog demo3)) demo4"
    unfolding demo4_def by (rule step_subscribe) (simp_all add: demo_eval demo_can)
  from reach_step [OF demo_reach3 this] show ?thesis by (simp add: demo_displaced)
qed

text \<open>A second tenant with its own consumer, the same subscription number and the same pending sequence.\<close>

definition demo_consumer2 :: consumer_config where
  "demo_consumer2 = demo_consumer\<lparr>cc_id := 4\<rparr>"

definition demo_sub2 :: subscription_config where
  "demo_sub2 = demo_sub\<lparr>uc_id := 8, uc_consumer_id := 4\<rparr>"

definition demo5 :: engine_context where
  "demo5 = snd (create_consumer demo_consumer2 demo3)"

definition demo6 :: engine_context where
  "demo6 = snd (create_subscription demo_hash demo_sub2 demo5)"

definition demo7 :: engine_context where
  "demo7 = fst (engine_apply (Delivered 1 2 [\<lparr>de_seq = 4, de_subject_hash = 7\<rparr>])
     (fst (snd (engine_subscribe 11 8 demo6))))"

lemma demo_eval2:
  "slot_get (consumers (ec_catalog demo5)) 4 = Some demo_consumer_info"
  "next_binding_id (ec_catalog demo6) = 2" "by_subscription (ec_catalog demo6) = [(5, 1)]"
  "cat_binding (ec_catalog (fst (snd (engine_subscribe 11 8 demo6)))) 2 =
    Some ((demo_binding 2 [])\<lparr>b_consumer_id := 4, b_connection_id := 11, b_subscription_id := 8\<rparr>)"
  "inflight_get (ec_inflight demo6) Consumer 4 = 0" "inflight_get (ec_inflight demo6) Queue 3 = 1"
  by code_simp+

lemma demo_reach7: "reach demo_hash {demo_subject} demo7 no_slack"
proof -
  let ?h = demo_hash and ?F = "{demo_subject}"
  have "reach ?h ?F demo5 no_slack"
    using reach_step [OF demo_reach3 step_create_consumer] by (simp add: demo5_def)
  moreover have "sub_ok ?F demo_sub2 (ec_catalog demo5)"
  proof -
    have "list_all (\<lambda>f. validate_pattern f = Inr () \<and> (has_wildcard f \<or> f \<in> {demo_subject})) (uc_filters demo_sub2)"
      by code_simp
    moreover have "uc_consumer_id demo_sub2 = 4" "uc_stream_id demo_sub2 = 1"
      by (simp_all add: demo_sub2_def demo_sub_def)
    ultimately show ?thesis
      by (simp add: sub_ok_def demo_eval2(1)) (simp add: demo_consumer_info_def)
  qed
  ultimately have r6: "reach ?h ?F demo6 no_slack"
    using reach_step [OF _ step_create_subscription] unfolding demo6_def by force
  have "estep ?h ?F demo6 (if can_subscribe 8 (ec_catalog demo6) then displaced_load 8 (ec_catalog demo6)
      else no_slack) (fst (snd (engine_subscribe 11 8 demo6)))"
    by (rule step_subscribe) (simp_all add: demo_eval2)
  moreover have "displaced_load 8 (ec_catalog demo6) = no_slack"
    by (simp add: displaced_load_def demo_eval2 hm_get_single fun_eq_iff)
  ultimately have "reach ?h ?F (fst (snd (engine_subscribe 11 8 demo6))) no_slack"
    using reach_step [OF r6] by (fastforce split: if_splits)
  moreover have "deliver_room (fst (snd (engine_subscribe 11 8 demo6))) 2 (length [\<lparr>de_seq = 4, de_subject_hash = 7\<rparr>])"
    by (simp add: deliver_room_def demo_eval2(4)) (simp add: engine_subscribe_sel demo_binding_def demo_eval2)
  ultimately show ?thesis
    using reach_step [OF _ step_delivered] unfolding demo7_def by force
qed

section \<open>Properties of reachable engines\<close>



text \<open>C1. Credit accounting.  In every reachable engine each in-flight counter, of a consumer or of a
  queue, is exactly the number of deliveries pending on the bindings of that consumer or queue
  plus the credit of the pending deliveries that re-subscriptions threw away: every delivery,
  ack, nack, retirement and deletion balances, and re-subscribing leaks.\<close>

theorem engine_credit_accounting:
  assumes "reach hash F ctx L"
  shows "inflight_get (ec_inflight ctx) sc k = load sc (live (ec_catalog ctx)) k + L sc k"
  using reach_inv [OF assms] by (simp add: eng_inv_def credit_def)

text \<open>The witness re-subscribes with one delivery pending: afterwards nothing is pending and one
  credit of the consumer is still taken.\<close>

theorem engine_credit_accounting_witness:
  "consumer_inflight demo4 2 = 1 \<and> load Consumer (live (ec_catalog demo4)) 2 = 0"
  using engine_credit_accounting [OF demo_reach4, of Consumer 2] demo_eval(15)
  by (simp add: consumer_inflight_def)

text \<open>C17. Demand.  In every reachable engine a stream has demand exactly when some binding is on it, and
  some stream has demand exactly when there is a binding.\<close>

theorem engine_demand:
  assumes "reach hash F ctx L"
  shows "(has_demand (ec_catalog ctx) s \<longleftrightarrow> (\<exists>bid b. live (ec_catalog ctx) bid = Some b \<and> b_stream_id b = s)) \<and>
    (has_any_demand (ec_catalog ctx) \<longleftrightarrow> (\<exists>bid b. live (ec_catalog ctx) bid = Some b))"
proof
  let ?c = "ec_catalog ctx"
  have i: "idx_inv ?c" using reach_idx [OF assms] .
  have d: "hm_get (demand ?c) s = (if holders b_stream_id (live ?c) s = {} then None
      else Some (card (holders b_stream_id (live ?c) s)))" for s
    using i by (simp add: idx_inv_def count_ok_def)
  show "has_demand ?c s \<longleftrightarrow> (\<exists>bid b. live ?c bid = Some b \<and> b_stream_id b = s)"
    using holders_bound(1) [OF i, of b_stream_id s]
    by (auto simp: has_demand_def get_or_def d card_gt_0_iff) (auto simp: holders_def)
  have "has_any_demand ?c \<longleftrightarrow> (\<exists>s. hm_get (demand ?c) s \<noteq> None)"
    by (cases "demand ?c") (auto simp: has_any_demand_def hm_get_def)
  then show "has_any_demand ?c \<longleftrightarrow> (\<exists>bid b. live ?c bid = Some b)"
    by (auto simp: d holders_def)
qed

theorem engine_demand_witness: "has_demand (ec_catalog demo2) 1 \<and> \<not> has_demand (ec_catalog demo2) 2"
  using engine_demand [OF demo_reach2, of 1] engine_demand [OF demo_reach2, of 2]
  by (simp add: live_simps demo_eval(10) hm_get_single demo_binding_def)

end
