(* ===== verification/Engine_Safety.thy ===== *)
theory Engine_Safety
  imports Engine_Steps
begin

text \<open>
  What the operations of a reachable engine do to the entities: the deletion
  cascades, the isolation of acks between connections and the exactness of the
  credit an ack releases.
\<close>

section \<open>Deletion\<close>



text \<open>C31. Deleting a consumer cascades: its entity, its subscriptions and its bindings are gone, all others
  are untouched, and its in-flight counter falls back to the credit dropped by re-subscriptions.\<close>

theorem delete_consumer_cascade:
  fixes ctx cid
  defines "c \<equiv> ec_catalog ctx" and "c' \<equiv> ec_catalog (fst (delete_consumer cid ctx))"
  assumes "reach hash F ctx L"
  shows "cat_consumer c' k = (if k = cid then None else cat_consumer c k) \<and>
    (hm_get (subscriptions c') sid = Some u \<longleftrightarrow> hm_get (subscriptions c) sid = Some u \<and> ui_consumer_id u \<noteq> cid) \<and>
    (cat_binding c' bid = Some b \<longleftrightarrow> cat_binding c bid = Some b \<and> b_consumer_id b \<noteq> cid) \<and>
    consumer_inflight (fst (delete_consumer cid ctx)) cid = L Consumer cid"
proof -
  have inv: "eng_inv hash F L (fst (ctx, delta_default))" using reach_inv [OF assms(3)] by simp
  note d = drop_consumer [OF inv, of cid]
  have "holders (skey Consumer) (live c') cid = {}"
    using d(2) by (auto simp: assms(2) delete_consumer_drop holders_def skey_def)
  then have "load Consumer (live c') cid = 0" by (simp add: load_def)
  then have "consumer_inflight (fst (delete_consumer cid ctx)) cid = L Consumer cid"
    using d(1) by (simp add: assms(2) delete_consumer_drop eng_inv_def credit_def consumer_inflight_def)
  then show ?thesis
    using d(2,3,5) by (simp add: assms(1,2) delete_consumer_drop cat_consumer_def cat_binding_def live_def)
qed

theorem delete_consumer_cascade_witness:
  "consumer_inflight demo3 2 = 1 \<and> consumer_inflight (fst (delete_consumer 2 demo3)) 2 = 0 \<and>
    cat_consumer (ec_catalog (fst (delete_consumer 2 demo3))) 2 = None"
proof -
  have "consumer_inflight demo3 2 = 1" by code_simp
  then show ?thesis using delete_consumer_cascade [OF demo_reach3, where cid = 2 and k = 2] by simp
qed

text \<open>A dead connection leaves nothing behind: after \<^verbatim>\<open>mark_connection_dead\<close> no binding is on the
  connection, every other binding is untouched with its pending deliveries, and the connection
  passes the ownership test for no consumer.\<close>

theorem dead_connection_owns_nothing:
  fixes ctx conn
  defines "c \<equiv> ec_catalog ctx" and "c' \<equiv> ec_catalog (fst (mark_connection_dead conn ctx))"
  assumes "reach hash F ctx L"
  shows "(cat_binding c' bid = Some b \<longleftrightarrow> cat_binding c bid = Some b \<and> b_connection_id b \<noteq> conn) \<and>
    \<not> connection_owns_consumer c' conn cid \<and> binding_for_subscription c' conn sub = None"
proof -
  note m = mark_connection_dead [OF reach_inv [OF assms(3)], of conn]
  have i: "idx_inv c'" using m(1) by (simp add: assms(2) eng_inv_def cat_inv_def)
  have "\<not> connection_owns_consumer c' conn cid"
    using m(2) by (simp add: connection_owns_consumer_iff [OF i]) (simp add: assms(2))
  moreover have "binding_for_subscription c' conn sub = None"
    using binding_for_subscription_live [OF i, of conn sub] m(2) by (cases "binding_for_subscription c' conn sub") (auto simp: assms(2))
  ultimately show ?thesis using m(2) by (simp add: assms(1,2) cat_binding_def live_def)
qed

theorem dead_connection_owns_nothing_witness:
  "connection_owns_consumer (ec_catalog demo3) 9 2 \<and>
    \<not> connection_owns_consumer (ec_catalog (fst (mark_connection_dead 9 demo3))) 9 2"
proof -
  have "connection_owns_consumer (ec_catalog demo3) 9 2" by code_simp
  then show ?thesis using dead_connection_owns_nothing [OF demo_reach3, where conn = 9 and cid = 2] by simp
qed

section \<open>Acks\<close>

text \<open>A binding the release of an entry may touch.\<close>

definition untouched :: "(binding \<Rightarrow> bool) \<Rightarrow> catalog \<Rightarrow> catalog \<Rightarrow> bool" where
  "untouched P c c' \<longleftrightarrow> (\<forall>bid b. live c bid = Some b \<longrightarrow> \<not> P b \<longrightarrow> live c' bid = Some b)"

definition reachable_by :: "(binding \<Rightarrow> bool) \<Rightarrow> catalog \<Rightarrow> u32 \<Rightarrow> bool" where
  "reachable_by P c bid \<longleftrightarrow> (\<forall>b. live c bid = Some b \<longrightarrow> P b)"

lemma untouched_refl [simp]: "untouched P c c"
  by (simp add: untouched_def)

lemma untouched_try:
  assumes "try_release cid ack bid st = Some st'" "reachable_by P c bid"
    "same_shape c (ec_catalog (as_ctx st)) \<and> untouched P c (ec_catalog (as_ctx st))"
  shows "same_shape c (ec_catalog (as_ctx st')) \<and> untouched P c (ec_catalog (as_ctx st'))"
proof
  obtain b :: binding where
    s: "as_ctx st' = (as_ctx st)\<lparr>ec_catalog := pending_mut bid (hm_remove (ae_seq ack)) (ec_catalog (as_ctx st)),
       ec_inflight := dec_pending cid (b_queue_id b) (ec_inflight (as_ctx st))\<rparr>"
    using assms(1) by (rule try_release_Some) blast
  show "same_shape c (ec_catalog (as_ctx st'))"
    using assms(3) same_shape_trans [OF _ same_shape_mut] by (simp add: s)
  show "untouched P c (ec_catalog (as_ctx st'))"
    unfolding untouched_def
  proof (intro allI impI)
    fix i b0
    assume b0: "live c i = Some b0" "\<not> P b0"
    then have "i \<noteq> bid" using assms(2) by (auto simp: reachable_by_def)
    moreover have "live (ec_catalog (as_ctx st)) i = Some b0" using assms(3) b0 by (simp add: untouched_def)
    ultimately show "live (ec_catalog (as_ctx st')) i = Some b0"
      by (auto simp: s live_pending_mut split: option.split)
  qed
qed

lemma ack_catalog:
  "ec_catalog (fst (engine_apply (Ack conn cid acks) ctx)) =
    ec_catalog (as_ctx (release_entries conn cid acks
      (on_metrics (\<lambda>m. m\<lparr>ack_accepted := ack_accepted m + length acks\<rparr>) ctx)))"
  by (simp add: engine_apply_def Let_def on_metrics_def)

lemma metrics_catalog [simp]: "ec_catalog (on_metrics f ctx) = ec_catalog ctx"
  "ec_inflight (on_metrics f ctx) = ec_inflight ctx"
  by (simp_all add: on_metrics_def)



lemma release_events_bound:
  "length (subject_hashes_acked (as_events (release_entry conn cid bids ack st))) \<le>
    length (subject_hashes_acked (as_events st)) + 1"
proof -
  have t: "try_release cid ack bid st = Some st' \<Longrightarrow>
      length (subject_hashes_acked (as_events st')) = length (subject_hashes_acked (as_events st)) + 1" for bid st'
    by (erule try_release_Some) simp
  have "length (subject_hashes_acked (as_events (release_first cid ack bids st))) \<le>
      length (subject_hashes_acked (as_events st)) + 1"
    by (induction bids) (auto dest: t split: option.split)
  then show ?thesis by (auto simp: release_entry_def dest: t split: option.split)
qed

lemma release_fold_events_bound:
  "length (subject_hashes_acked (as_events (fold (release_entry conn cid bids) acks st))) \<le>
    length (subject_hashes_acked (as_events st)) + length acks"
proof (induction acks arbitrary: st)
  case (Cons ack acks)
  show ?case
    using release_events_bound [of conn cid bids ack st] Cons.IH [of "release_entry conn cid bids ack st"]
    by simp
qed simp

definition ack_bal :: "u32 \<Rightarrow> nat \<Rightarrow> ack_state \<Rightarrow> bool" where
  "ack_bal cid n st \<longleftrightarrow> consumer_inflight (as_ctx st) cid + length (subject_hashes_acked (as_events st)) = n \<and>
    list_all (\<lambda>x. fst x = cid) (subject_hashes_acked (as_events st))"

lemma ack_bal_try:
  assumes "ack_ok hash F L c st \<and> ack_bal cid n st" "owned cid c bid" "try_release cid ack bid st = Some st'"
  shows "ack_ok hash F L c st' \<and> ack_bal cid n st'"
proof -
  have ok: "ack_ok hash F L c st'" using ack_ok_try assms by blast
  obtain b p where b: "live (ec_catalog (as_ctx st)) bid = Some b" "hm_get (b_pending b) (ae_seq ack) = Some p"
    "as_ctx st' = (as_ctx st)\<lparr>ec_catalog := pending_mut bid (hm_remove (ae_seq ack)) (ec_catalog (as_ctx st)),
       ec_inflight := dec_pending cid (b_queue_id b) (ec_inflight (as_ctx st))\<rparr>"
    "subject_hashes_acked (as_events st') =
       subject_hashes_acked (as_events st) @ [(cid, p_subject_hash p, p_seq p)]"
    using assms(3) by (rule try_release_Some)
  have "owned cid (ec_catalog (as_ctx st)) bid"
    using owned_shape [of c "ec_catalog (as_ctx st)" cid bid] assms(1,2) by (simp add: ack_ok_def)
  then have own: "b_consumer_id b = cid" using b(1) by (simp add: owned_def)
  have "0 < length (b_pending b)" using b(2) by (cases "b_pending b") auto
  then have "0 < load Consumer (live (ec_catalog (as_ctx st))) cid"
    using load_del [OF b(1) live_finite, of Consumer cid] own by (simp add: skey_def)
  then have "0 < consumer_inflight (as_ctx st) cid"
    using assms(1) by (simp add: ack_ok_def eng_inv_def credit_def consumer_inflight_def)
  then have "ack_bal cid n st'"
    using assms(1) by (simp add: ack_bal_def b(3,4) consumer_inflight_def infl.get_dec2)
  with ok show ?thesis ..
qed

text \<open>An ack releases exactly what it matched.  When the batch passes the guard, the in-flight counter of
  the consumer falls by the number of \<^verbatim>\<open>subject_hashes_acked\<close> events, the count by which the
  shard decrements its shared counters; each event names the consumer, and there is at most one
  per entry of the batch.\<close>

theorem ack_releases_matched:
  assumes "reach hash F ctx L" and "connection_owns (ec_catalog ctx) conn cid acks"
    and "engine_apply (Ack conn cid acks) ctx = (ctx', ev)"
  shows "consumer_inflight ctx cid = consumer_inflight ctx' cid + length (subject_hashes_acked ev) \<and>
    list_all (\<lambda>x. fst x = cid) (subject_hashes_acked ev) \<and>
    length (subject_hashes_acked ev) \<le> length acks"
proof -
  let ?c = "ec_catalog ctx" and ?n = "consumer_inflight ctx cid"
  let ?m = "on_metrics (\<lambda>m. m\<lparr>ack_accepted := ack_accepted m + length acks\<rparr>) ctx"
  define st where "st = release_entries conn cid acks ?m"
  have i: "idx_inv ?c" using reach_idx [OF assms(1)] .
  have start: "ack_ok hash F L ?c \<lparr>as_ctx = ?m, as_events = delta_default, as_matched = 0\<rparr>"
    using reach_inv [OF assms(1)] by (simp add: ack_ok_def)
  have r: "consumer_inflight ctx' cid = consumer_inflight (as_ctx st) cid" "ev = as_events st"
    using assms(3) by (auto simp: engine_apply_def Let_def st_def consumer_inflight_def)
  have "ack_ok hash F L ?c st \<and> ack_bal cid ?n st"
    unfolding st_def release_entries_def Let_def
  proof (rule release_fold_induct [where T = "owned cid ?c"])
    show "ack_ok hash F L ?c \<lparr>as_ctx = ?m, as_events = delta_default, as_matched = 0\<rparr> \<and>
        ack_bal cid ?n \<lparr>as_ctx = ?m, as_events = delta_default, as_matched = 0\<rparr>"
      using start by (simp add: ack_bal_def consumer_inflight_def delta_default_def)
    show "list_all (owned cid ?c) (bindings_for_consumer (ec_catalog ?m) cid)"
      using owned_bindings_for_consumer [OF i] by simp
    show "owned cid ?c bid" if "ack_ok hash F L ?c st \<and> ack_bal cid ?n st" "ack \<in> set acks" "ae_sub_id ack \<noteq> 0"
      "binding_id_for_subscription (ec_catalog (as_ctx st)) conn (ae_sub_id ack) = Some bid" for st ack bid
      using that connection_owns_mine [OF assms(2)]
      by (auto simp: ack_ok_def same_shape_def list_all_iff mine_def binding_id_for_subscription_def)
  qed (rule ack_bal_try)
  moreover have "length (subject_hashes_acked (as_events st)) \<le> length acks"
    using release_fold_events_bound [of conn cid "bindings_for_consumer (ec_catalog ?m) cid" acks
        "\<lparr>as_ctx = ?m, as_events = delta_default, as_matched = 0\<rparr>"]
    by (simp add: st_def release_entries_def Let_def delta_default_def)
  ultimately show ?thesis unfolding r ack_bal_def by simp
qed

theorem ack_releases_matched_witness:
  "\<exists>ctx' ev. engine_apply (Ack 9 2 [\<lparr>ae_stream_id = 1, ae_seq = 4, ae_sub_id = 6\<rparr>]) demo7 = (ctx', ev) \<and>
    subject_hashes_acked ev = [(2, 7, 4)] \<and> consumer_inflight demo7 2 = 1 \<and> consumer_inflight ctx' 2 = 0"
proof -
  let ?acks = "[\<lparr>ae_stream_id = 1, ae_seq = 4, ae_sub_id = 6\<rparr>]"
  obtain ctx' ev where e: "engine_apply (Ack 9 2 ?acks) demo7 = (ctx', ev)" by fastforce
  have "connection_owns (ec_catalog demo7) 9 2 ?acks" by code_simp
  moreover have "subject_hashes_acked (snd (engine_apply (Ack 9 2 ?acks) demo7)) = [(2, 7, 4)]" by code_simp
  moreover have "consumer_inflight demo7 2 = 1" by code_simp
  ultimately show ?thesis using ack_releases_matched [OF demo_reach7 _ e] e by auto
qed

section \<open>Deliveries\<close>

definition holds_seqs :: "binding \<Rightarrow> binding \<Rightarrow> u64 set \<Rightarrow> bool" where
  "holds_seqs b b' Q \<longleftrightarrow> same_keys b b' \<and> (\<forall>q. q \<in> Q \<or> hm_get (b_pending b) q \<noteq> None \<longrightarrow> hm_get (b_pending b') q \<noteq> None)"

lemma deliver_entry_holds:
  assumes "live (ec_catalog ctx) bid = Some b"
  shows "\<exists>b'. live (ec_catalog (deliver_entry bid c q e ctx)) bid = Some b' \<and> holds_seqs b b' {de_seq e}"
proof (cases "hm_get (b_pending b) (de_seq e)")
  case (Some p)
  then show ?thesis using assms by (intro exI [of _ b]) (simp add: deliver_entry_dup holds_seqs_def)
next
  case None
  then show ?thesis
    by (simp add: deliver_entry_new [OF assms] live_pending_mut assms holds_seqs_def same_keys_def hm_get_insert)
qed

lemma deliver_fold_holds:
  assumes "live (ec_catalog ctx) bid = Some b"
  shows "\<exists>b'. live (ec_catalog (fold (deliver_entry bid c q) es ctx)) bid = Some b' \<and> holds_seqs b b' (de_seq ` set es)"
  using assms
proof (induction es arbitrary: ctx b)
  case Nil
  then show ?case by (simp add: holds_seqs_def)
next
  case (Cons e es)
  obtain b1 where b1: "live (ec_catalog (deliver_entry bid c q e ctx)) bid = Some b1" "holds_seqs b b1 {de_seq e}"
    using deliver_entry_holds [OF Cons.prems] by blast
  obtain b2 where b2: "live (ec_catalog (fold (deliver_entry bid c q) es (deliver_entry bid c q e ctx))) bid = Some b2"
    "holds_seqs b1 b2 (de_seq ` set es)" using Cons.IH [OF b1(1)] by blast
  have "holds_seqs b b2 (de_seq ` set (e # es))"
    using b1(2) b2(2) same_keys_trans [of b b1 b2] unfolding holds_seqs_def by auto
  then show ?case using b2(1) by auto
qed

lemma deliver_fold_dup:
  assumes "live (ec_catalog ctx) bid = Some b" "\<And>e. e \<in> set es \<Longrightarrow> hm_get (b_pending b) (de_seq e) \<noteq> None"
  shows "fold (deliver_entry bid c q) es ctx = ctx"
  using assms(2) by (induction es) (simp_all add: deliver_entry_dup [OF assms(1)])

text \<open>Redelivery is idempotent: reporting the same entries delivered to the same binding a second time
  changes neither the catalog with its pending maps nor the in-flight counters, so a duplicate
  report never takes a second credit.\<close>

theorem redelivery_idempotent:
  "apply_delivered bid es (apply_delivered bid es ctx) = apply_delivered bid es ctx"
proof (cases "live (ec_catalog ctx) bid")
  case None
  then show ?thesis by (simp add: apply_delivered_def cat_binding_def live_def)
next
  case (Some b)
  show ?thesis
  proof (cases "b_fire_and_forget b")
    case True
    then show ?thesis using Some by (simp add: apply_delivered_def cat_binding_def live_def)
  next
    case False
    let ?ctx = "fold (deliver_entry bid (b_consumer_id b) (b_queue_id b)) es ctx"
    obtain b' where b': "live (ec_catalog ?ctx) bid = Some b'" "holds_seqs b b' (de_seq ` set es)"
      using deliver_fold_holds [OF Some] by blast
    note k = same_keysD [of b b']
    have "fold (deliver_entry bid (b_consumer_id b) (b_queue_id b)) es ?ctx = ?ctx"
      using b' by (intro deliver_fold_dup) (auto simp: holds_seqs_def)
    then show ?thesis
      using Some False b' k by (simp add: apply_delivered_def cat_binding_def live_def holds_seqs_def)
  qed
qed

end
