(* ===== verification/Timing_Wheel.thy ===== *)
theory Timing_Wheel
  imports Arbitro_Prelude "HOL-Library.Multiset"
begin

text \<open>
  The hashed timing wheel (\<^verbatim>\<open>arbitro-common/src/wheel.rs\<close>): a ring of buckets and a
  cursor.  The interface \<open>tick_wheel\<close> says when an inserted entry comes out,
  counted in calls of \<^verbatim>\<open>advance\<close>; the idempotency tracker is verified against it.
\<close>

section \<open>The wheel\<close>

datatype wheel_entry_kind = AckTimeout | NackDelay

record wheel_entry =
  we_seq :: u64
  we_consumer_id :: u32
  we_subject_hash :: u32
  we_kind :: wheel_entry_kind

record 'a timing_wheel =
  tw_buckets :: "'a list list"
  tw_current :: usize
  tw_num_buckets :: usize
  tw_len :: usize

definition tw_new :: "usize \<Rightarrow> 'a timing_wheel option" where
  "tw_new num_buckets =
    (if num_buckets = 0 then None
     else Some \<lparr>tw_buckets = replicate num_buckets [], tw_current = 0,
       tw_num_buckets = num_buckets, tw_len = 0\<rparr>)"

definition tw_insert :: "'a \<Rightarrow> u32 \<Rightarrow> 'a timing_wheel \<Rightarrow> 'a timing_wheel" where
  "tw_insert entry delay_ticks w =
    (let ticks = min delay_ticks (tw_num_buckets w - 1);
         bucket = (tw_current w + ticks) mod tw_num_buckets w
     in w\<lparr>tw_buckets := (tw_buckets w)[bucket := tw_buckets w ! bucket @ [entry]],
          tw_len := tw_len w + 1\<rparr>)"

definition tw_advance :: "'a timing_wheel \<Rightarrow> 'a list \<times> 'a timing_wheel" where
  "tw_advance w =
    (let cur = (tw_current w + 1) mod tw_num_buckets w;
         bucket = tw_buckets w ! cur
     in (bucket, w\<lparr>tw_current := cur, tw_buckets := (tw_buckets w)[cur := []],
                  tw_len := tw_len w - length bucket\<rparr>))"

text \<open>\<^verbatim>\<open>advance_into\<close>: the caller's buffer is cleared, filled, and its length subtracted.\<close>

definition tw_advance_into :: "'a timing_wheel \<Rightarrow> 'a list \<Rightarrow> 'a list \<times> 'a timing_wheel" where
  "tw_advance_into w out =
    (let cur = (tw_current w + 1) mod tw_num_buckets w;
         out1 = [] @ tw_buckets w ! cur
     in (out1, w\<lparr>tw_current := cur, tw_buckets := (tw_buckets w)[cur := []],
                 tw_len := tw_len w - length out1\<rparr>))"

definition ticks_until_next_nonempty :: "'a timing_wheel \<Rightarrow> usize option" where
  "ticks_until_next_nonempty w =
    (if tw_len w = 0 then None
     else find (\<lambda>k. tw_buckets w ! ((tw_current w + k) mod tw_num_buckets w) \<noteq> [])
            [1..<tw_num_buckets w + 1])"

fun tw_advance_loop :: "nat \<Rightarrow> 'a timing_wheel \<Rightarrow> 'a list \<Rightarrow> 'a list \<times> 'a timing_wheel" where
  "tw_advance_loop 0 w out = (out, w)"
| "tw_advance_loop (Suc n) w out =
    (let cur = (tw_current w + 1) mod tw_num_buckets w;
         bucket = tw_buckets w ! cur
     in tw_advance_loop n (w\<lparr>tw_current := cur, tw_buckets := (tw_buckets w)[cur := []],
          tw_len := tw_len w - length bucket\<rparr>) (out @ bucket))"

definition tw_advance_by :: "usize \<Rightarrow> 'a timing_wheel \<Rightarrow> 'a list \<times> 'a timing_wheel" where
  "tw_advance_by ticks w = tw_advance_loop ticks w []"

abbreviation tw_is_empty :: "'a timing_wheel \<Rightarrow> bool" where
  "tw_is_empty w \<equiv> tw_len w = 0"

section \<open>Well-formed wheels\<close>

definition tw_wf :: "'a timing_wheel \<Rightarrow> bool" where
  "tw_wf w \<longleftrightarrow> 0 < tw_num_buckets w \<and> length (tw_buckets w) = tw_num_buckets w \<and>
    tw_current w < tw_num_buckets w \<and> tw_len w = sum_list (map length (tw_buckets w))"

lemma tw_wf_new: "tw_new n = Some w \<Longrightarrow> tw_wf w \<and> tw_num_buckets w = n"
  by (auto simp: tw_new_def tw_wf_def sum_list_replicate split: if_splits)

lemma tw_wf_insert: "tw_wf w \<Longrightarrow> tw_wf (tw_insert e d w)"
  by (simp add: tw_wf_def tw_insert_def Let_def map_update sum_list_update)

lemma tw_wf_advance: "tw_wf w \<Longrightarrow> tw_wf (snd (tw_advance w))"
  by (simp add: tw_wf_def tw_advance_def Let_def map_update sum_list_update)

lemma tw_advance_into_eq: "tw_advance_into w out = tw_advance w"
  by (simp add: tw_advance_into_def tw_advance_def Let_def)

lemma num_buckets_simps [simp]:
  "tw_num_buckets (tw_insert e d w) = tw_num_buckets w"
  "tw_num_buckets (snd (tw_advance w)) = tw_num_buckets w"
  by (simp_all add: tw_insert_def tw_advance_def Let_def)

section \<open>When entries come out\<close>

text \<open>The entries the \<open>k\<close>-th \<^verbatim>\<open>advance\<close> from now returns.\<close>

definition tw_due :: "'a timing_wheel \<Rightarrow> nat \<Rightarrow> 'a list" where
  "tw_due w k = (if 1 \<le> k \<and> k \<le> tw_num_buckets w
     then tw_buckets w ! ((tw_current w + k) mod tw_num_buckets w) else [])"

text \<open>The number of advances after which an entry inserted with a delay comes out.\<close>

definition tw_eff :: "usize \<Rightarrow> u32 \<Rightarrow> nat" where
  "tw_eff n d = (if min d (n - 1) = 0 then n else min d (n - 1))"

lemma ring_inj:
  fixes c :: nat
  assumes "1 \<le> i" "i \<le> n" "1 \<le> j" "j \<le> n" "(c + i) mod n = (c + j) mod n"
  shows "i = j"
proof (rule ccontr)
  assume "i \<noteq> j"
  then consider "i < j" | "j < i" by linarith
  then show False
  proof cases
    case 1
    then have "n dvd (c + j) - (c + i)" using assms(5) by (metis mod_eq_dvd_iff_nat nat_add_left_cancel_le less_imp_le)
    then show False using 1 assms by (auto dest: dvd_imp_le)
  next
    case 2
    then have "n dvd (c + i) - (c + j)" using assms(5) by (metis mod_eq_dvd_iff_nat nat_add_left_cancel_le less_imp_le)
    then show False using 2 assms by (auto dest: dvd_imp_le)
  qed
qed

lemma tw_eff_bounds: "0 < n \<Longrightarrow> 1 \<le> tw_eff n d \<and> tw_eff n d \<le> n"
  by (auto simp: tw_eff_def min_def)

lemma tw_eff_mod: "0 < n \<Longrightarrow> (c + min d (n - 1)) mod n = (c + tw_eff n d) mod n"
  by (auto simp: tw_eff_def)

lemma tw_due_insert:
  assumes "tw_wf w"
  shows "tw_due (tw_insert e d w) k = tw_due w k @ (if k = tw_eff (tw_num_buckets w) d then [e] else [])"
proof -
  let ?n = "tw_num_buckets w" and ?c = "tw_current w"
  have n: "0 < ?n" "length (tw_buckets w) = ?n" using assms by (auto simp: tw_wf_def)
  note b = tw_eff_bounds [OF n(1), of d] and m = tw_eff_mod [OF n(1), of ?c d]
  have "(?c + k) mod ?n = (?c + tw_eff ?n d) mod ?n \<longleftrightarrow> k = tw_eff ?n d" if "1 \<le> k" "k \<le> ?n"
    using ring_inj [of k ?n "tw_eff ?n d" ?c] that b by auto
  then show ?thesis
    using n b unfolding tw_due_def tw_insert_def Let_def m by (auto simp: nth_list_update)
qed

lemma tw_advance_due:
  assumes "tw_wf w"
  shows "fst (tw_advance w) = tw_due w 1"
    and "tw_due (snd (tw_advance w)) k = (if 1 \<le> k \<and> k < tw_num_buckets w then tw_due w (k + 1) else [])"
proof -
  let ?n = "tw_num_buckets w" and ?c = "tw_current w"
  have n: "0 < ?n" "length (tw_buckets w) = ?n" using assms by (auto simp: tw_wf_def)
  show "fst (tw_advance w) = tw_due w 1" using n by (simp add: tw_advance_def tw_due_def Let_def)
  have "((?c + 1) mod ?n + k) mod ?n = (?c + (k + 1)) mod ?n"
    by (metis add.assoc add.commute mod_add_left_eq)
  moreover have "(?c + (k + 1)) mod ?n = (?c + 1) mod ?n \<longleftrightarrow> k = ?n" if "1 \<le> k" "k \<le> ?n"
  proof
    assume *: "(?c + (k + 1)) mod ?n = (?c + 1) mod ?n"
    show "k = ?n"
    proof (rule ccontr)
      assume "k \<noteq> ?n"
      then show False using ring_inj [of "k + 1" ?n 1 ?c] * that by simp
    qed
  next
    assume "k = ?n"
    then have "?c + (k + 1) = (?c + 1) + ?n" by simp
    then show "(?c + (k + 1)) mod ?n = (?c + 1) mod ?n" by (simp only: mod_add_self2)
  qed
  ultimately show "tw_due (snd (tw_advance w)) k = (if 1 \<le> k \<and> k < ?n then tw_due w (k + 1) else [])"
    using n by (auto simp: tw_due_def tw_advance_def Let_def nth_list_update)
qed

lemma tw_due_new: "tw_new n = Some w \<Longrightarrow> tw_due w k = []"
  by (auto simp: tw_new_def tw_due_def split: if_splits)

section \<open>The interface\<close>

locale tick_wheel =
  fixes ins :: "'e \<Rightarrow> u32 \<Rightarrow> 'w \<Rightarrow> 'w"
    and adv :: "'w \<Rightarrow> 'e list \<times> 'w"
    and ok :: "'w \<Rightarrow> bool"
    and size_of :: "'w \<Rightarrow> nat"
    and due :: "'w \<Rightarrow> nat \<Rightarrow> 'e list"
  assumes ins_ok: "ok w \<Longrightarrow> ok (ins e d w) \<and> size_of (ins e d w) = size_of w"
    and adv_ok: "ok w \<Longrightarrow> ok (snd (adv w)) \<and> size_of (snd (adv w)) = size_of w"
    and ins_due: "ok w \<Longrightarrow> due (ins e d w) k = due w k @ (if k = tw_eff (size_of w) d then [e] else [])"
    and adv_out: "ok w \<Longrightarrow> fst (adv w) = due w 1"
    and adv_due: "ok w \<Longrightarrow> due (snd (adv w)) k = (if 1 \<le> k \<and> k < size_of w then due w (k + 1) else [])"
begin

text \<open>The wheel after \<open>j\<close> advances, and what the \<open>k\<close>-th of them returned.\<close>

fun after :: "nat \<Rightarrow> 'w \<Rightarrow> 'w" where
  "after 0 w = w"
| "after (Suc j) w = after j (snd (adv w))"

lemma after_ok: "ok w \<Longrightarrow> ok (after j w) \<and> size_of (after j w) = size_of w"
  by (induction j arbitrary: w) (simp_all add: adv_ok)

lemma after_due: "ok w \<Longrightarrow> 1 \<le> k \<Longrightarrow> j + k \<le> size_of w \<Longrightarrow> due (after j w) k = due w (j + k)"
  by (induction j arbitrary: w k) (simp_all add: adv_ok adv_due)

lemma fires_at:
  assumes "ok w" "j < size_of w"
  shows "fst (adv (after j w)) = due w (j + 1)"
  using assms after_ok [OF assms(1), of j] after_due [OF assms(1), of 1 j] by (simp add: adv_out)

text \<open>An entry inserted with a delay is returned by exactly the advance its delay says, and no other of
  the coming rotation returns it unless it was in the wheel before.\<close>

lemma insert_fires:
  assumes "ok w" "j < size_of w"
  shows "fst (adv (after j (ins e d w))) =
    fst (adv (after j w)) @ (if j + 1 = tw_eff (size_of w) d then [e] else [])"
  using assms ins_ok [OF assms(1), of e d] fires_at [of "ins e d w" j] fires_at [OF assms]
  by (simp add: ins_due)

end

interpretation tw: tick_wheel tw_insert tw_advance tw_wf tw_num_buckets tw_due
  by unfold_locales (simp_all add: tw_wf_insert tw_wf_advance tw_due_insert tw_advance_due)

section \<open>Derived operations\<close>

lemma tw_advance_loop_acc:
  "tw_advance_loop n w out = (out @ fst (tw_advance_loop n w []), snd (tw_advance_loop n w []))"
proof (induction n arbitrary: w out)
  case (Suc n)
  let ?c = "(tw_current w + 1) mod tw_num_buckets w"
  let ?b = "tw_buckets w ! ?c"
  let ?w = "w\<lparr>tw_current := ?c, tw_buckets := (tw_buckets w)[?c := []], tw_len := tw_len w - length ?b\<rparr>"
  show ?case
    using Suc.IH [of ?w "out @ ?b"] Suc.IH [of ?w ?b] by (simp only: tw_advance_loop.simps Let_def append_Nil) simp
qed simp

lemma tw_advance_loop_Suc:
  "tw_advance_loop (Suc n) w [] =
    (fst (tw_advance w) @ fst (tw_advance_loop n (snd (tw_advance w)) []), snd (tw_advance_loop n (snd (tw_advance w)) []))"
  unfolding tw_advance_loop.simps Let_def tw_advance_def by (subst tw_advance_loop_acc) simp

lemma tw_advance_by_after:
  "snd (tw_advance_by n w) = tw.after n w"
  "fst (tw_advance_by n w) = concat (map (\<lambda>j. fst (tw_advance (tw.after j w))) [0..<n])"
proof -
  show "snd (tw_advance_by n w) = tw.after n w"
    unfolding tw_advance_by_def by (induction n arbitrary: w) (simp_all add: tw_advance_loop_Suc del: tw_advance_loop.simps(2))
  show "fst (tw_advance_by n w) = concat (map (\<lambda>j. fst (tw_advance (tw.after j w))) [0..<n])"
    unfolding tw_advance_by_def
  proof (induction n arbitrary: w)
    case (Suc n)
    have "[0..<Suc n] = 0 # map Suc [0..<n]" by (simp add: map_Suc_upt upt_conv_Cons)
    then show ?case by (simp add: tw_advance_loop_Suc Suc o_def del: tw_advance_loop.simps(2))
  qed simp
qed

text \<open>C32. The wheel fires on time.  An entry inserted with delay \<open>d\<close> into a wheel of \<open>n\<close> buckets comes out of
  exactly one of the next \<open>n\<close> advances: the \<open>d\<close>-th, the \<open>(n - 1)\<close>-th when the delay is clamped, and the
  \<open>n\<close>-th, a full rotation later, when the delay is zero; the entries already in the wheel come out
  as before.\<close>

theorem wheel_insert_fires:
  assumes "tw_wf w" "j < tw_num_buckets w"
  shows "fst (tw_advance (snd (tw_advance_by j (tw_insert e d w)))) =
    fst (tw_advance (snd (tw_advance_by j w))) @
      (if j + 1 = (if min d (tw_num_buckets w - 1) = 0 then tw_num_buckets w
         else min d (tw_num_buckets w - 1)) then [e] else [])"
  using tw.insert_fires [OF assms, of e d] by (simp add: tw_advance_by_after tw_eff_def)

theorem wheel_insert_fires_witness:
  "\<exists>w. tw_new 4 = Some w \<and> fst (tw_advance (snd (tw_advance_by 1 (tw_insert (7::nat) 2 w)))) = [7]"
proof -
  obtain w :: "nat timing_wheel" where w: "tw_new 4 = Some w" by (simp add: tw_new_def)
  then have "tw_wf w" "tw_num_buckets w = 4" using tw_wf_new by auto
  moreover have "fst (tw_advance (snd (tw_advance_by 1 w))) = []"
    using w by (auto simp: tw_new_def tw_advance_by_def tw_advance_def Let_def)
  ultimately show ?thesis using wheel_insert_fires [of w 1 7 2] w by auto
qed

text \<open>Sleeping to the next deadline is safe.  When \<^verbatim>\<open>ticks_until_next_nonempty\<close> answers \<open>k\<close>, the first
  \<open>k - 1\<close> advances return nothing and the \<open>k\<close>-th returns something; it answers nothing exactly when
  the wheel holds no entry, and then no advance returns anything.\<close>

theorem wheel_next_nonempty:
  assumes "tw_wf w"
  shows "case ticks_until_next_nonempty w of
      Some k \<Rightarrow> 1 \<le> k \<and> k \<le> tw_num_buckets w \<and> fst (tw_advance_by (k - 1) w) = [] \<and>
        fst (tw_advance (snd (tw_advance_by (k - 1) w))) \<noteq> []
    | None \<Rightarrow> tw_len w = 0 \<and> fst (tw_advance_by (tw_num_buckets w) w) = []"
proof -
  let ?n = "tw_num_buckets w"
  let ?P = "\<lambda>k. tw_buckets w ! ((tw_current w + k) mod ?n) \<noteq> []"
  have n: "0 < ?n" "length (tw_buckets w) = ?n" using assms by (auto simp: tw_wf_def)
  have out: "fst (tw_advance (tw.after j w)) = tw_buckets w ! ((tw_current w + (j + 1)) mod ?n)" if "j < ?n" for j
    using tw.fires_at [OF assms that] that by (simp add: tw_due_def)
  show ?thesis
  proof (cases "tw_len w = 0")
    case True
    then have "sum_list (map length (tw_buckets w)) = 0" using assms by (simp add: tw_wf_def)
    then have "tw_buckets w ! i = []" if "i < ?n" for i using that n(2) nth_mem [of i "tw_buckets w"] by simp
    then have "fst (tw_advance (tw.after j w)) = []" if "j < ?n" for j using out [OF that] n(1) by simp
    then show ?thesis using True by (simp add: ticks_until_next_nonempty_def tw_advance_by_after)
  next
    case False
    show ?thesis
    proof (cases "find ?P [1..<?n + 1]")
      case None
      have "tw_buckets w ! i = []" if "i < ?n" for i
      proof -
        define k where "k = (if i > tw_current w then i - tw_current w else i + ?n - tw_current w)"
        have c: "tw_current w < ?n" using assms by (simp add: tw_wf_def)
        have "(tw_current w + k) mod ?n = i" "1 \<le> k" "k \<le> ?n" using that c by (auto simp: k_def)
        then show ?thesis using None by (auto simp: find_None_iff)
      qed
      then have "tw_len w = 0" using assms n by (auto simp: tw_wf_def in_set_conv_nth)
      then show ?thesis using False by simp
    next
      case (Some k)
      then obtain i where i0: "i < length [1..<?n + 1]" "?P ([1..<?n + 1] ! i)" "k = [1..<?n + 1] ! i"
        "\<forall>j<i. \<not> ?P ([1..<?n + 1] ! j)" unfolding find_Some_iff by blast
      have nth: "[1..<?n + 1] ! j = 1 + j" if "j \<le> i" for j
        using i0(1) that by (intro nth_upt) (simp del: upt_Suc)
      have i: "i < ?n" "?P (1 + i)" "k = 1 + i" "\<forall>j<i. \<not> ?P (1 + j)"
        using i0 nth by (simp_all del: upt_Suc)
      then have k: "1 \<le> k" "k \<le> ?n" "?P k" by simp_all
      have "fst (tw_advance (tw.after j w)) = []" if "j < k - 1" for j
        using out [of j] i that by (simp add: add.commute)
      moreover have "fst (tw_advance (tw.after (k - 1) w)) \<noteq> []" using out [of "k - 1"] k by simp
      ultimately show ?thesis
        using False Some k by (simp add: ticks_until_next_nonempty_def tw_advance_by_after)
    qed
  qed
qed

theorem wheel_next_nonempty_witness:
  "\<exists>w. tw_new 4 = Some w \<and> fst (tw_advance_by (3 - 1) (tw_insert (7::nat) 3 w)) = []"
proof -
  obtain w :: "nat timing_wheel" where w: "tw_new 4 = Some w" by (simp add: tw_new_def)
  have "ticks_until_next_nonempty (tw_insert (7 :: nat) 3 (the (tw_new 4))) = Some 3" by code_simp
  then have "ticks_until_next_nonempty (tw_insert 7 3 w) = Some 3" using w by simp
  then show ?thesis
    using wheel_next_nonempty [OF tw_wf_insert, of w 7 3] tw_wf_new [OF w] w by auto
qed

end
