(* ===== verification/Hier_Wheel.thy ===== *)
theory Hier_Wheel
  imports Arbitro_Prelude "HOL-Library.Multiset"
begin

text \<open>
  The hierarchical timing wheel (\<^verbatim>\<open>arbitro-common/src/hierarchical_wheel.rs\<close>): levels of
  64 buckets whose tick grows by a factor of 64, driven by absolute
  milliseconds.  Occupancy masks are 64-bit words.  Capacity trimming has no
  observable effect and is left out; instants are naturals, and the one product
  the source checks for overflow is checked here.
\<close>

unbundle bit_operations_syntax

section \<open>Levels\<close>

definition wheel_size :: nat where
  "wheel_size = 64"

definition max_levels :: nat where
  "max_levels = 6"

definition bottom_lag :: nat where
  "bottom_lag = 1"

definition upper_lag :: nat where
  "upper_lag = 0"

datatype hw_insert_result = Scheduled | Elapsed

record 'a timer =
  t_value :: 'a
  t_expire_at_ms :: u64

record 'a level =
  l_tick_ms :: u64
  l_buckets :: "'a timer list list"
  l_occupied :: "64 word"
  l_next_vid :: u64
  l_len :: usize

definition level_new :: "u64 \<Rightarrow> u64 \<Rightarrow> u64 \<Rightarrow> 'a level" where
  "level_new tick_ms now_ms lag =
    \<lparr>l_tick_ms = tick_ms, l_buckets = replicate wheel_size [], l_occupied = 0,
     l_next_vid = now_ms div tick_ms + (1 - lag), l_len = 0\<rparr>"

definition level_vid :: "'a level \<Rightarrow> u64 \<Rightarrow> u64" where
  "level_vid l at_ms = at_ms div l_tick_ms l"

definition level_accepts :: "'a level \<Rightarrow> u64 \<Rightarrow> bool" where
  "level_accepts l vid \<longleftrightarrow> l_next_vid l \<le> vid \<and> vid < l_next_vid l + wheel_size"

definition level_push :: "u64 \<Rightarrow> 'a timer \<Rightarrow> 'a level \<Rightarrow> 'a level" where
  "level_push vid timer l =
    (let idx = vid mod wheel_size
     in l\<lparr>l_buckets := (l_buckets l)[idx := l_buckets l ! idx @ [timer]],
          l_occupied := l_occupied l OR push_bit idx 1, l_len := l_len l + 1\<rparr>)"

definition drain_vid :: "u64 \<Rightarrow> 'a level \<times> 'a timer list \<Rightarrow> 'a level \<times> 'a timer list" where
  "drain_vid vid st =
    (let l = fst st; idx = vid mod wheel_size
     in if l_occupied l AND push_bit idx 1 = 0 then st
        else (l\<lparr>l_len := l_len l - length (l_buckets l ! idx),
                l_buckets := (l_buckets l)[idx := []],
                l_occupied := l_occupied l AND NOT (push_bit idx 1)\<rparr>,
              snd st @ l_buckets l ! idx))"

definition drain_due :: "u64 \<Rightarrow> u64 \<Rightarrow> 'a level \<Rightarrow> 'a timer list \<Rightarrow> 'a level \<times> 'a timer list" where
  "drain_due now_ms lag l out =
    (let limit = level_vid l now_ms + (1 - lag)
     in if limit \<le> l_next_vid l then (l, out)
        else if l_occupied l = 0 then (l\<lparr>l_next_vid := limit\<rparr>, out)
        else
          let span = min (limit - l_next_vid l) wheel_size;
              first = limit - span;
              (l1, out1) = fold drain_vid [first..<limit] (l, out)
          in (l1\<lparr>l_next_vid := limit\<rparr>, out1))"

text \<open>\<^verbatim>\<open>u64::trailing_zeros\<close>.\<close>

definition trailing_zeros :: "64 word \<Rightarrow> nat" where
  "trailing_zeros w = (case find (bit w) [0..<64] of Some i \<Rightarrow> i | None \<Rightarrow> 64)"

definition next_due_ms :: "u64 \<Rightarrow> 'a level \<Rightarrow> u64 option" where
  "next_due_ms lag l =
    (if l_occupied l = 0 then None
     else
       let rot = l_next_vid l mod wheel_size;
           ahead = trailing_zeros (word_rotr rot (l_occupied l))
       in Some ((l_next_vid l + ahead + lag) * l_tick_ms l))"

definition level_clear :: "'a level \<Rightarrow> 'a level" where
  "level_clear l = l\<lparr>l_buckets := map (\<lambda>_. []) (l_buckets l), l_occupied := 0, l_len := 0\<rparr>"

section \<open>The wheel\<close>

record 'a hwheel =
  hw_levels :: "'a level list"
  hw_tick_ms :: u64
  hw_now_ms :: u64
  hw_len :: usize

definition hw_new :: "u64 \<Rightarrow> u64 \<Rightarrow> 'a hwheel option" where
  "hw_new tick_ms start_ms =
    (if tick_ms = 0 then None
     else Some \<lparr>hw_levels = [level_new tick_ms start_ms bottom_lag], hw_tick_ms = tick_ms,
       hw_now_ms = start_ms, hw_len = 0\<rparr>)"

text \<open>The first loop of \<^verbatim>\<open>place\<close>: the finest level that accepts the timer.\<close>

fun place_existing :: "'a timer \<Rightarrow> 'a level list \<Rightarrow> 'a level list option" where
  "place_existing timer [] = None"
| "place_existing timer (l # ls) =
    (let vid = level_vid l (t_expire_at_ms timer)
     in if level_accepts l vid then Some (level_push vid timer l # ls)
        else map_option ((#) l) (place_existing timer ls))"

text \<open>The second loop: coarser levels are added until one accepts (\<open>Inr\<close>), the cap is reached or the
  tick overflows (\<open>Inl\<close>).\<close>

function place_growing :: "'a timer \<Rightarrow> u64 \<Rightarrow> 'a level list \<Rightarrow> 'a level list + 'a level list" where
  "place_growing timer now_ms levels =
    (if length levels < max_levels then
       (case checked_mul64 (l_tick_ms (last levels)) wheel_size of
          None \<Rightarrow> Inl levels
        | Some next_tick \<Rightarrow>
          let l = level_new next_tick now_ms upper_lag;
              vid = level_vid l (t_expire_at_ms timer)
          in if level_accepts l vid then Inr (levels @ [level_push vid timer l])
             else place_growing timer now_ms (levels @ [l]))
     else Inl levels)"
  by pat_completeness auto
termination by (relation "measure (\<lambda>(_, _, levels). max_levels - length levels)") auto

declare place_growing.simps [simp del]

definition hw_place :: "'a timer \<Rightarrow> u64 \<Rightarrow> nat \<Rightarrow> 'a level list \<Rightarrow> 'a level list" where
  "hw_place timer now_ms from_level levels =
    (case place_existing timer (drop from_level levels) of
       Some ls \<Rightarrow> take from_level levels @ ls
     | None \<Rightarrow>
       (case place_growing timer now_ms levels of
          Inr ls \<Rightarrow> ls
        | Inl ls \<Rightarrow>
          let l = last ls; park = l_next_vid l + wheel_size - 1
          in butlast ls @ [level_push park timer l]))"

definition hw_insert :: "'a \<Rightarrow> u64 \<Rightarrow> 'a hwheel \<Rightarrow> hw_insert_result \<times> 'a hwheel" where
  "hw_insert v expire_at_ms w =
    (if expire_at_ms \<le> hw_now_ms w then (Elapsed, w)
     else (Scheduled, w\<lparr>hw_levels := hw_place \<lparr>t_value = v, t_expire_at_ms = expire_at_ms\<rparr>
             (hw_now_ms w) 0 (hw_levels w), hw_len := hw_len w + 1\<rparr>))"

text \<open>The loop over the levels, bottom first.\<close>

fun drain_levels :: "u64 \<Rightarrow> u64 \<Rightarrow> 'a level list \<Rightarrow> 'a timer list \<Rightarrow> 'a level list \<times> 'a timer list" where
  "drain_levels now_ms lag [] scratch = ([], scratch)"
| "drain_levels now_ms lag (l # ls) scratch =
    (let (l1, scratch1) = drain_due now_ms lag l scratch;
         (ls1, scratch2) = drain_levels now_ms upper_lag ls scratch1
     in (l1 # ls1, scratch2))"

definition fire_or_place :: "u64 \<Rightarrow> 'a timer \<Rightarrow> 'a hwheel \<times> 'a list \<Rightarrow> 'a hwheel \<times> 'a list" where
  "fire_or_place now_ms timer st =
    (if t_expire_at_ms timer \<le> now_ms
     then ((fst st)\<lparr>hw_len := hw_len (fst st) - 1\<rparr>, snd st @ [t_value timer])
     else ((fst st)\<lparr>hw_levels := hw_place timer (hw_now_ms (fst st)) 0 (hw_levels (fst st))\<rparr>, snd st))"

definition advance_to :: "u64 \<Rightarrow> 'a hwheel \<Rightarrow> 'a hwheel \<times> 'a list" where
  "advance_to now_ms w =
    (if now_ms \<le> hw_now_ms w then (w, [])
     else
       let (levels, scratch) = drain_levels now_ms bottom_lag (hw_levels w) []
       in fold (fire_or_place now_ms) scratch (w\<lparr>hw_now_ms := now_ms, hw_levels := levels\<rparr>, []))"

fun next_expiry_loop :: "u64 \<Rightarrow> 'a level list \<Rightarrow> u64 option \<Rightarrow> u64 option" where
  "next_expiry_loop lag [] best = best"
| "next_expiry_loop lag (l # ls) best =
    next_expiry_loop upper_lag ls
      (case next_due_ms lag l of
         None \<Rightarrow> best
       | Some due \<Rightarrow> Some (case best of None \<Rightarrow> due | Some b \<Rightarrow> min b due))"

definition next_expiry_ms :: "'a hwheel \<Rightarrow> u64 option" where
  "next_expiry_ms w =
    (if hw_len w = 0 then None else next_expiry_loop bottom_lag (hw_levels w) None)"

abbreviation sleep_for_ms :: "u64 \<Rightarrow> 'a hwheel \<Rightarrow> u64 option" where
  "sleep_for_ms now_ms w \<equiv> map_option (\<lambda>due. due - now_ms) (next_expiry_ms w)"

abbreviation hw_is_empty :: "'a hwheel \<Rightarrow> bool" where
  "hw_is_empty w \<equiv> hw_len w = 0"

abbreviation span_ms :: "'a hwheel \<Rightarrow> u64" where
  "span_ms w \<equiv> (case hw_levels w of [] \<Rightarrow> 0
     | _ \<Rightarrow> min (l_tick_ms (last (hw_levels w)) * wheel_size) (2 ^ 64 - 1))"

definition hw_clear :: "'a hwheel \<Rightarrow> 'a hwheel" where
  "hw_clear w = w\<lparr>hw_levels := map level_clear (hw_levels w), hw_len := 0\<rparr>"

section \<open>Level invariant\<close>

definition level_timers :: "'a level \<Rightarrow> 'a timer multiset" where
  "level_timers l = mset (concat (l_buckets l))"

definition occ_ok :: "'a level \<Rightarrow> bool" where
  "occ_ok l \<longleftrightarrow> length (l_buckets l) = 64 \<and> (\<forall>i < 64. bit (l_occupied l) i \<longleftrightarrow> l_buckets l ! i \<noteq> [])"

text \<open>Every timer sits in the bucket of a virtual id of the window that starts no later than its
  deadline.\<close>

definition pos_ok :: "'a level \<Rightarrow> bool" where
  "pos_ok l \<longleftrightarrow> (\<forall>i < 64. \<forall>t \<in> set (l_buckets l ! i). \<exists>v. v mod 64 = i \<and> l_next_vid l \<le> v \<and>
     v < l_next_vid l + 64 \<and> v * l_tick_ms l \<le> t_expire_at_ms t)"

definition level_ok :: "u64 \<Rightarrow> u64 \<Rightarrow> 'a level \<Rightarrow> bool" where
  "level_ok lag now l \<longleftrightarrow> 0 < l_tick_ms l \<and> l_next_vid l = now div l_tick_ms l + (1 - lag) \<and>
     occ_ok l \<and> pos_ok l \<and> l_len l = size (level_timers l)"

lemma bit_push1: "bit (2 ^ i :: 64 word) j \<longleftrightarrow> j = i \<and> i < 64"
  by (auto simp: bit_exp_iff)

lemma and_push1:
  assumes "i < 64"
  shows "(w AND 2 ^ i = (0 :: 64 word)) \<longleftrightarrow> \<not> bit w i"
proof
  assume "w AND 2 ^ i = 0"
  then have "\<not> bit (w AND 2 ^ i) i" by simp
  then show "\<not> bit w i" using assms by (auto simp: bit_and_iff bit_push1)
next
  assume "\<not> bit w i"
  then show "w AND 2 ^ i = 0" by (intro bit_word_eqI) (auto simp: bit_and_iff bit_push1)
qed

lemma mset_concat_update:
  "i < length bs \<Longrightarrow> mset (concat (bs[i := b])) + mset (bs ! i) = mset (concat bs) + mset b"
proof (induction bs arbitrary: i)
  case (Cons x bs)
  then show ?case by (cases i) (auto simp: ac_simps)
qed simp

lemma level_new_ok:
  assumes "0 < tick"
  shows "level_ok lag now (level_new tick now lag)" "level_timers (level_new tick now lag) = {#}"
proof -
  show t: "level_timers (level_new tick now lag) = {#}"
    by (simp add: level_timers_def level_new_def wheel_size_def)
  then show "level_ok lag now (level_new tick now lag)"
    using assms by (simp add: level_ok_def occ_ok_def pos_ok_def level_new_def wheel_size_def)
qed

lemma level_push_sel [simp]:
  "l_tick_ms (level_push v t l) = l_tick_ms l" "l_next_vid (level_push v t l) = l_next_vid l"
  by (simp_all add: level_push_def Let_def)

lemma level_push_timers: "occ_ok l \<Longrightarrow> level_timers (level_push v t l) = add_mset t (level_timers l)"
  using mset_concat_update [of "v mod 64" "l_buckets l" "l_buckets l ! (v mod 64) @ [t]"]
  by (simp add: level_timers_def level_push_def wheel_size_def Let_def occ_ok_def)

lemma level_push_ok:
  assumes "level_ok lag now l" "l_next_vid l \<le> v" "v < l_next_vid l + 64" "v * l_tick_ms l \<le> t_expire_at_ms t"
  shows "level_ok lag now (level_push v t l)"
proof -
  let ?i = "v mod 64"
  have o: "occ_ok l" "pos_ok l" using assms(1) by (auto simp: level_ok_def)
  have "occ_ok (level_push v t l)"
    using o(1) by (auto simp: occ_ok_def level_push_def wheel_size_def Let_def bit_or_iff bit_push1 nth_list_update)
  moreover have "pos_ok (level_push v t l)"
    unfolding pos_ok_def
  proof (intro allI impI ballI)
    fix i s
    assume i: "i < 64" and s: "s \<in> set (l_buckets (level_push v t l) ! i)"
    show "\<exists>u. u mod 64 = i \<and> l_next_vid (level_push v t l) \<le> u \<and> u < l_next_vid (level_push v t l) + 64 \<and>
        u * l_tick_ms (level_push v t l) \<le> t_expire_at_ms s"
    proof (cases "s = t \<and> i = ?i")
      case True
      then show ?thesis using assms(2-4) by auto
    next
      case False
      then have "s \<in> set (l_buckets l ! i)"
        using s i o(1) by (auto simp: level_push_def wheel_size_def Let_def nth_list_update occ_ok_def split: if_splits)
      then show ?thesis using o(2) i unfolding pos_ok_def by simp
    qed
  qed
  moreover have "l_len (level_push v t l) = size (level_timers (level_push v t l))"
    using assms(1) by (simp add: level_push_timers [OF o(1)] level_ok_def) (simp add: level_push_def Let_def)
  ultimately show ?thesis using assms(1) by (simp add: level_ok_def)
qed

section \<open>Draining a level\<close>

lemma drain_vid_spec:
  assumes "occ_ok (fst st)"
  shows "occ_ok (fst (drain_vid v st))"
    and "l_buckets (fst (drain_vid v st)) = (l_buckets (fst st))[v mod 64 := []]"
    and "mset (snd (drain_vid v st)) + level_timers (fst (drain_vid v st)) = mset (snd st) + level_timers (fst st)"
    and "l_tick_ms (fst (drain_vid v st)) = l_tick_ms (fst st)"
    and "l_next_vid (fst (drain_vid v st)) = l_next_vid (fst st)"
    and "l_len (fst st) = size (level_timers (fst st)) \<Longrightarrow>
      l_len (fst (drain_vid v st)) = size (level_timers (fst (drain_vid v st)))"
proof -
  let ?i = "v mod 64" and ?l = "fst st"
  have i: "?i < 64" by simp
  have o: "length (l_buckets ?l) = 64" "bit (l_occupied ?l) ?i \<longleftrightarrow> l_buckets ?l ! ?i \<noteq> []"
    using assms i unfolding occ_ok_def by blast+
  have c: "mset (concat ((l_buckets ?l)[?i := []])) + mset (l_buckets ?l ! ?i) = mset (concat (l_buckets ?l))"
    using mset_concat_update [of ?i "l_buckets ?l" "[]"] o(1) by simp
  note d = drain_vid_def wheel_size_def Let_def and_push1 [OF i]
  show b: "l_buckets (fst (drain_vid v st)) = (l_buckets ?l)[?i := []]"
    using o(2) list_update_id [of "l_buckets ?l" ?i] by (cases "l_buckets ?l ! ?i = []") (simp_all add: d)
  show "occ_ok (fst (drain_vid v st))"
    using assms o by (auto simp: occ_ok_def d bit_and_iff bit_not_iff bit_push1 nth_list_update)
  show m: "mset (snd (drain_vid v st)) + level_timers (fst (drain_vid v st)) = mset (snd st) + level_timers ?l"
    using c o(2) by (auto simp: level_timers_def d ac_simps)
  show "l_tick_ms (fst (drain_vid v st)) = l_tick_ms ?l" "l_next_vid (fst (drain_vid v st)) = l_next_vid ?l"
    by (simp_all add: d)
  show "l_len (fst (drain_vid v st)) = size (level_timers (fst (drain_vid v st)))"
    if "l_len ?l = size (level_timers ?l)"
    using that arg_cong [OF c, of size] by (auto simp: d level_timers_def)
qed

lemma drain_fold_spec:
  "occ_ok (fst st) \<Longrightarrow>
    occ_ok (fst (fold drain_vid vs st)) \<and>
    (\<forall>i < 64. l_buckets (fst (fold drain_vid vs st)) ! i =
      (if i \<in> (\<lambda>v. v mod 64) ` set vs then [] else l_buckets (fst st) ! i)) \<and>
    mset (snd (fold drain_vid vs st)) + level_timers (fst (fold drain_vid vs st)) =
      mset (snd st) + level_timers (fst st) \<and>
    l_tick_ms (fst (fold drain_vid vs st)) = l_tick_ms (fst st) \<and>
    l_next_vid (fst (fold drain_vid vs st)) = l_next_vid (fst st) \<and>
    (l_len (fst st) = size (level_timers (fst st)) \<longrightarrow>
      l_len (fst (fold drain_vid vs st)) = size (level_timers (fst (fold drain_vid vs st))))"
proof (induction vs arbitrary: st)
  case (Cons v vs)
  note d = drain_vid_spec [OF Cons.prems, of v]
  have "length (l_buckets (fst st)) = 64" using Cons.prems by (simp add: occ_ok_def)
  then have n: "i < 64 \<Longrightarrow> (l_buckets (fst st))[v mod 64 := []] ! i =
      (if i = v mod 64 then [] else l_buckets (fst st) ! i)" for i by (simp add: nth_list_update)
  note IH = Cons.IH [OF d(1)]
  have "i < 64 \<Longrightarrow> l_buckets (fst (fold drain_vid (v # vs) st)) ! i =
      (if i \<in> (\<lambda>v. v mod 64) ` set (v # vs) then [] else l_buckets (fst st) ! i)" for i
    using IH by (simp add: d(2) n)
  then show ?case using IH d(3-6) by simp
qed simp

lemma window_residues:
  fixes a :: nat
  assumes "i < 64"
  shows "\<exists>v \<in> {a..<a + 64}. v mod 64 = i"
proof -
  define v where "v = a + (i + 64 - a mod 64) mod 64"
  have "v mod 64 = (a mod 64 + (i + 64 - a mod 64)) mod 64"
    unfolding v_def by (metis mod_add_left_eq mod_add_right_eq)
  also have "a mod 64 + (i + 64 - a mod 64) = i + 64"
    using mod_less_divisor [of 64 a] by linarith
  finally have "v mod 64 = i" using assms by simp
  moreover have "v \<in> {a..<a + 64}" by (simp add: v_def)
  ultimately show ?thesis by blast
qed

lemma pos_okD:
  "pos_ok l \<Longrightarrow> i < 64 \<Longrightarrow> t \<in> set (l_buckets l ! i) \<Longrightarrow>
    \<exists>v. v mod 64 = i \<and> l_next_vid l \<le> v \<and> v < l_next_vid l + 64 \<and> v * l_tick_ms l \<le> t_expire_at_ms t"
  unfolding pos_ok_def by blast

lemma occ_zero_empty: "occ_ok l \<Longrightarrow> l_occupied l = 0 \<Longrightarrow> i < 64 \<Longrightarrow> l_buckets l ! i = []"
  by (simp add: occ_ok_def)

text \<open>A position that the drained window misses lies behind it.\<close>

lemma drained_window:
  fixes n :: nat
  assumes "i < 64" "v mod 64 = i" "n \<le> v" "n < limit" "i \<notin> (\<lambda>v. v mod 64) ` {limit - min (limit - n) 64..<limit}"
  shows "limit \<le> v"
proof -
  have "limit - n < 64"
  proof (rule ccontr)
    assume "\<not> limit - n < 64"
    then have "{limit - min (limit - n) 64..<limit} = {limit - 64..<limit - 64 + 64}" by auto
    then show False using window_residues [OF assms(1), of "limit - 64"] assms(5) by auto
  qed
  then have "limit - min (limit - n) 64 = n" using assms(4) by (auto simp: min_def)
  then show ?thesis using assms(2,3,5) by (metis atLeastLessThan_iff image_eqI not_le)
qed

lemma drain_due_spec:
  assumes ok: "level_ok lag now l" and le: "now \<le> now'"
  shows "level_ok lag now' (fst (drain_due now' lag l out))"
    and "mset (snd (drain_due now' lag l out)) + level_timers (fst (drain_due now' lag l out)) =
      mset out + level_timers l"
    and "l_tick_ms (fst (drain_due now' lag l out)) = l_tick_ms l"
proof -
  define limit where "limit = level_vid l now' + (1 - lag)"
  let ?n = "l_next_vid l"
  have o: "occ_ok l" "pos_ok l" "?n = now div l_tick_ms l + (1 - lag)" "0 < l_tick_ms l"
    "l_len l = size (level_timers l)" using ok by (auto simp: level_ok_def)
  have mono: "?n \<le> limit" using div_le_mono [OF le, of "l_tick_ms l"] by (simp add: o(3) limit_def level_vid_def)
  consider (same) "limit = ?n" | (empty) "?n < limit" "l_occupied l = 0" | (run) "?n < limit" "l_occupied l \<noteq> 0"
    using mono by fastforce
  then have "level_ok lag now' (fst (drain_due now' lag l out)) \<and>
    mset (snd (drain_due now' lag l out)) + level_timers (fst (drain_due now' lag l out)) = mset out + level_timers l \<and>
    l_tick_ms (fst (drain_due now' lag l out)) = l_tick_ms l"
  proof cases
    case same
    then have "drain_due now' lag l out = (l, out)" by (simp add: drain_due_def limit_def)
    then show ?thesis using ok same by (simp add: level_ok_def limit_def level_vid_def)
  next
    case empty
    then have d: "drain_due now' lag l out = (l\<lparr>l_next_vid := limit\<rparr>, out)"
      by (simp add: drain_due_def limit_def Let_def)
    have "pos_ok (l\<lparr>l_next_vid := limit\<rparr>)"
      using occ_zero_empty [OF o(1) empty(2)] by (simp add: pos_ok_def)
    then show ?thesis using ok by (simp add: d level_ok_def occ_ok_def level_timers_def limit_def level_vid_def)
  next
    case run
    define span where "span = min (limit - ?n) 64"
    let ?st = "fold drain_vid [limit - span..<limit] (l, out)"
    have d: "drain_due now' lag l out = ((fst ?st)\<lparr>l_next_vid := limit\<rparr>, snd ?st)"
      using run by (simp add: drain_due_def limit_def span_def Let_def case_prod_beta wheel_size_def)
    have o': "occ_ok (fst (l, out))" using o(1) by simp
    note f0 = drain_fold_spec [OF o', of "[limit - span..<limit]"]
    have f: "occ_ok (fst ?st)" "mset (snd ?st) + level_timers (fst ?st) = mset out + level_timers l"
      "l_tick_ms (fst ?st) = l_tick_ms l" "l_len (fst ?st) = size (level_timers (fst ?st))"
      using f0 o(5) by simp_all
    have fb: "l_buckets (fst ?st) ! i = (if i \<in> (\<lambda>v. v mod 64) ` {limit - span..<limit} then [] else l_buckets l ! i)"
      if "i < 64" for i using f0 that by simp
    have "pos_ok ((fst ?st)\<lparr>l_next_vid := limit\<rparr>)"
      unfolding pos_ok_def
    proof (intro allI impI ballI)
      fix i t
      assume i: "i < 64" and "t \<in> set (l_buckets ((fst ?st)\<lparr>l_next_vid := limit\<rparr>) ! i)"
      then have t: "t \<in> set (l_buckets l ! i)" and out: "i \<notin> (\<lambda>v. v mod 64) ` {limit - span..<limit}"
        using fb [OF i] by (simp_all split: if_splits)
      obtain v where v: "v mod 64 = i" "?n \<le> v" "v < ?n + 64" "v * l_tick_ms l \<le> t_expire_at_ms t"
        using pos_okD [OF o(2) i t] by blast
      have "limit \<le> v" using drained_window [OF i v(1,2) run(1)] out by (simp add: span_def)
      then show "\<exists>v. v mod 64 = i \<and> l_next_vid ((fst ?st)\<lparr>l_next_vid := limit\<rparr>) \<le> v \<and>
          v < l_next_vid ((fst ?st)\<lparr>l_next_vid := limit\<rparr>) + 64 \<and>
          v * l_tick_ms ((fst ?st)\<lparr>l_next_vid := limit\<rparr>) \<le> t_expire_at_ms t"
        using v run f(3) by (intro exI [of _ v]) auto
    qed
    then show ?thesis
      using f o by (simp add: d level_ok_def occ_ok_def level_timers_def limit_def level_vid_def)
  qed
  then show "level_ok lag now' (fst (drain_due now' lag l out))"
    "mset (snd (drain_due now' lag l out)) + level_timers (fst (drain_due now' lag l out)) = mset out + level_timers l"
    "l_tick_ms (fst (drain_due now' lag l out)) = l_tick_ms l" by blast+
qed

section \<open>Placing a timer\<close>

fun levels_ok :: "u64 \<Rightarrow> u64 \<Rightarrow> u64 \<Rightarrow> 'a level list \<Rightarrow> bool" where
  "levels_ok lag tick now [] \<longleftrightarrow> True"
| "levels_ok lag tick now (l # ls) \<longleftrightarrow>
    l_tick_ms l = tick \<and> level_ok lag now l \<and> levels_ok upper_lag (tick * 64) now ls"

definition timers :: "'a level list \<Rightarrow> 'a timer multiset" where
  "timers ls = sum_list (map level_timers ls)"

lemma timers_simps [simp]: "timers [] = {#}" "timers (l # ls) = level_timers l + timers ls"
  "timers (ls @ ls') = timers ls + timers ls'"
  by (simp_all add: timers_def)

definition beyond :: "'a timer \<Rightarrow> 'a level \<Rightarrow> bool" where
  "beyond t l \<longleftrightarrow> l_next_vid l + 64 \<le> t_expire_at_ms t div l_tick_ms l"

lemma beyond_next:
  assumes "level_ok lag now l" "beyond t l"
  shows "now div (l_tick_ms l * 64) + 1 \<le> t_expire_at_ms t div (l_tick_ms l * 64)"
proof -
  have "now div l_tick_ms l + 64 \<le> t_expire_at_ms t div l_tick_ms l"
    using assms by (auto simp: level_ok_def beyond_def)
  then have "(now div l_tick_ms l + 64) div 64 \<le> t_expire_at_ms t div l_tick_ms l div 64"
    by (rule div_le_mono)
  then show ?thesis by (simp add: div_mult2_eq)
qed

lemma place_here:
  assumes "level_ok lag now l" "level_accepts l (level_vid l (t_expire_at_ms t))"
  shows "level_ok lag now (level_push (level_vid l (t_expire_at_ms t)) t l)"
    "level_timers (level_push (level_vid l (t_expire_at_ms t)) t l) = add_mset t (level_timers l)"
proof -
  show "level_ok lag now (level_push (level_vid l (t_expire_at_ms t)) t l)"
    using assms by (intro level_push_ok)
      (auto simp: level_accepts_def wheel_size_def level_vid_def div_times_less_eq_dividend)
  show "level_timers (level_push (level_vid l (t_expire_at_ms t)) t l) = add_mset t (level_timers l)"
    using assms(1) by (intro level_push_timers) (simp add: level_ok_def)
qed

lemma not_here:
  assumes "level_ok lag now l" "\<not> level_accepts l (level_vid l (t_expire_at_ms t))"
    "now div l_tick_ms l + (1 - lag) \<le> t_expire_at_ms t div l_tick_ms l"
  shows "beyond t l"
  using assms by (auto simp: level_accepts_def wheel_size_def level_vid_def level_ok_def beyond_def)

lemma place_existing_ok:
  assumes "levels_ok lag tick now ls" "now div tick + (1 - lag) \<le> t_expire_at_ms t div tick"
  shows "case place_existing t ls of
      Some ls' \<Rightarrow> levels_ok lag tick now ls' \<and> timers ls' = add_mset t (timers ls) \<and> length ls' = length ls
    | None \<Rightarrow> ls \<noteq> [] \<longrightarrow> beyond t (last ls)"
  using assms
proof (induction ls arbitrary: lag tick)
  case (Cons l ls)
  have l: "level_ok lag now l" "l_tick_ms l = tick" and ls: "levels_ok upper_lag (tick * 64) now ls"
    using Cons.prems(1) by simp_all
  show ?case
  proof (cases "level_accepts l (level_vid l (t_expire_at_ms t))")
    case True
    then show ?thesis using place_here [OF l(1) True] l ls by (simp add: Let_def)
  next
    case False
    have b: "beyond t l" using not_here [OF l(1) False] Cons.prems(2) l(2) by simp
    have "now div (tick * 64) + (1 - upper_lag) \<le> t_expire_at_ms t div (tick * 64)"
      using beyond_next [OF l(1) b] l(2) by (simp add: upper_lag_def)
    note IH = Cons.IH [OF ls this]
    show ?thesis
      using False l b IH by (auto simp: Let_def split: option.splits)
  qed
qed simp

lemma levels_ok_snoc:
  "levels_ok lag tick now ls \<Longrightarrow> ls \<noteq> [] \<Longrightarrow> l_tick_ms l = l_tick_ms (last ls) * 64 \<Longrightarrow> level_ok upper_lag now l \<Longrightarrow>
    levels_ok lag tick now (ls @ [l])"
proof (induction ls arbitrary: lag tick)
  case (Cons a ls)
  then show ?case by (cases ls) auto
qed simp

lemma levels_ok_last:
  "levels_ok lag tick now ls \<Longrightarrow> ls \<noteq> [] \<Longrightarrow> \<exists>lg. level_ok lg now (last ls)"
proof (induction ls arbitrary: lag tick)
  case (Cons a ls)
  then show ?case by (cases ls) auto
qed simp

lemma levels_ok_park:
  assumes "levels_ok lag tick now ls" "ls \<noteq> []" "beyond t (last ls)"
  shows "levels_ok lag tick now (butlast ls @ [level_push (l_next_vid (last ls) + wheel_size - 1) t (last ls)]) \<and>
    timers (butlast ls @ [level_push (l_next_vid (last ls) + wheel_size - 1) t (last ls)]) = add_mset t (timers ls)"
  using assms
proof (induction ls arbitrary: lag tick)
  case (Cons a ls)
  show ?case
  proof (cases ls)
    case Nil
    let ?v = "l_next_vid a + wheel_size - 1"
    have a: "level_ok lag now a" "l_tick_ms a = tick" "beyond t a" using Cons.prems Nil by auto
    have "?v * tick \<le> t_expire_at_ms t div tick * tick"
      using a by (intro mult_right_mono) (auto simp: beyond_def wheel_size_def)
    then have "?v * tick \<le> t_expire_at_ms t" using div_times_less_eq_dividend order_trans by blast
    then have "level_ok lag now (level_push ?v t a)"
      using a by (intro level_push_ok) (auto simp: wheel_size_def)
    moreover have "occ_ok a" using a(1) by (simp add: level_ok_def)
    ultimately show ?thesis using Nil a(2) level_push_timers [of a ?v t] by simp
  next
    case (Cons b bs)
    then show ?thesis using Cons.IH Cons.prems by auto
  qed
qed simp

lemma place_growing_ok:
  assumes "levels_ok lag tick now ls" "ls \<noteq> []" "beyond t (last ls)" "length ls \<le> max_levels" "0 < tick"
  shows "case place_growing t now ls of
      Inr ls' \<Rightarrow> levels_ok lag tick now ls' \<and> timers ls' = add_mset t (timers ls) \<and> ls' \<noteq> [] \<and> length ls' \<le> max_levels
    | Inl ls' \<Rightarrow> levels_ok lag tick now ls' \<and> timers ls' = timers ls \<and> ls' \<noteq> [] \<and> length ls' \<le> max_levels \<and>
        beyond t (last ls')"
  using assms
proof (induction t now ls rule: place_growing.induct)
  case (1 t now ls)
  show ?case
  proof (cases "length ls < max_levels")
    case False
    then show ?thesis using "1.prems" by (subst place_growing.simps) simp
  next
    case less: True
    show ?thesis
    proof (cases "checked_mul64 (l_tick_ms (last ls)) wheel_size")
      case None
      then show ?thesis using "1.prems" less by (subst place_growing.simps) simp
    next
      case (Some nt)
      define l where "l = (level_new nt now upper_lag :: 'a level)"
      obtain lg where lg: "level_ok lg now (last ls)" using levels_ok_last "1.prems" by blast
      then have nt: "nt = l_tick_ms (last ls) * 64" "0 < nt"
        using Some by (auto simp: checked_mul64_def wheel_size_def level_ok_def split: if_splits)
      have l: "level_ok upper_lag now l" "level_timers l = {#}" "l_tick_ms l = nt"
        using level_new_ok [OF nt(2)] unfolding l_def by (auto simp: level_new_def)
      have okl: "levels_ok lag tick now (ls @ [l])"
        using levels_ok_snoc "1.prems" l nt by blast
      have vid: "now div l_tick_ms l + (1 - upper_lag) \<le> t_expire_at_ms t div l_tick_ms l"
        using beyond_next [OF lg "1.prems"(3)] by (simp add: l nt upper_lag_def)
      show ?thesis
      proof (cases "level_accepts l (level_vid l (t_expire_at_ms t))")
        case True
        have "levels_ok lag tick now (ls @ [level_push (level_vid l (t_expire_at_ms t)) t l])"
          using levels_ok_snoc [OF "1.prems"(1,2)] place_here [OF l(1) True] l nt by simp
        then show ?thesis
          using less Some True place_here(2) [OF l(1) True] l(2)
          by (subst place_growing.simps) (simp add: l_def [symmetric] Let_def)
      next
        case False
        have "beyond t l" using not_here [OF l(1) False vid] .
        then show ?thesis
          using "1.IH" [OF less Some l_def refl, folded l_def] False okl less "1.prems" Some l(2)
          by (subst place_growing.simps) (simp add: l_def [symmetric] Let_def split: sum.splits)
      qed
    qed
  qed
qed

lemma hw_place_ok:
  assumes "levels_ok bottom_lag tick now ls" "ls \<noteq> []" "length ls \<le> max_levels" "0 < tick"
    "now < t_expire_at_ms t"
  shows "levels_ok bottom_lag tick now (hw_place t now 0 ls) \<and>
    timers (hw_place t now 0 ls) = add_mset t (timers ls) \<and> hw_place t now 0 ls \<noteq> [] \<and>
    length (hw_place t now 0 ls) \<le> max_levels"
proof -
  have "now div tick + (1 - bottom_lag) \<le> t_expire_at_ms t div tick"
    using assms(5) by (simp add: bottom_lag_def div_le_mono)
  note e = place_existing_ok [OF assms(1) this]
  show ?thesis
  proof (cases "place_existing t ls")
    case (Some ls')
    then show ?thesis using e assms by (auto simp: hw_place_def)
  next
    case None
    then have "beyond t (last ls)" using e assms(2) by simp
    note g = place_growing_ok [OF assms(1,2) this assms(3,4)]
    show ?thesis
      using None g levels_ok_park [of bottom_lag tick now _ t]
      by (auto simp: hw_place_def Let_def split: sum.splits)
  qed
qed

section \<open>The wheel invariant\<close>

definition hw_timers :: "'a hwheel \<Rightarrow> 'a timer multiset" where
  "hw_timers w = timers (hw_levels w)"

definition hw_ok :: "'a hwheel \<Rightarrow> bool" where
  "hw_ok w \<longleftrightarrow> 0 < hw_tick_ms w \<and> hw_levels w \<noteq> [] \<and> length (hw_levels w) \<le> max_levels \<and>
     levels_ok bottom_lag (hw_tick_ms w) (hw_now_ms w) (hw_levels w) \<and> hw_len w = size (hw_timers w) \<and>
     (\<forall>t. t \<in># hw_timers w \<longrightarrow> hw_now_ms w < t_expire_at_ms t + hw_tick_ms w)"

lemma in_level_timers:
  assumes "level_ok lag now l" "t \<in># level_timers l"
  shows "\<exists>v. l_next_vid l \<le> v \<and> v < l_next_vid l + 64 \<and> v * l_tick_ms l \<le> t_expire_at_ms t \<and>
    t \<in> set (l_buckets l ! (v mod 64))"
proof -
  have o: "occ_ok l" "pos_ok l" using assms(1) by (auto simp: level_ok_def)
  obtain b where "b \<in> set (l_buckets l)" "t \<in> set b" using assms(2) by (auto simp: level_timers_def)
  then obtain i where "i < 64" "t \<in> set (l_buckets l ! i)"
    using o(1) by (auto simp: in_set_conv_nth occ_ok_def)
  then show ?thesis using pos_okD [OF o(2)] by metis
qed

lemma deadline_bound:
  fixes now tick :: nat
  assumes "now div tick \<le> v" "v * tick \<le> e" "0 < tick"
  shows "now < e + tick"
proof -
  have "now < (now div tick + 1) * tick" using dividend_less_div_times [OF assms(3), of now] by (simp add: algebra_simps)
  also have "\<dots> \<le> (v + 1) * tick" using assms(1) by (intro mult_right_mono) auto
  also have "\<dots> \<le> e + tick" using assms(2) by simp
  finally show ?thesis .
qed

lemma levels_late:
  assumes "levels_ok lag tick now ls" "t \<in># timers ls" "lag = bottom_lag \<or> lag = upper_lag"
  shows "now < t_expire_at_ms t + (if lag = upper_lag then 0 else tick)"
  using assms
proof (induction ls arbitrary: lag tick)
  case (Cons l ls)
  show ?case
  proof (cases "t \<in># level_timers l")
    case True
    have l: "level_ok lag now l" "l_tick_ms l = tick" using Cons.prems by auto
    then obtain v where v: "l_next_vid l \<le> v" "v * tick \<le> t_expire_at_ms t"
      using in_level_timers [OF l(1) True] by auto
    have n: "l_next_vid l = now div tick + (1 - lag)" "0 < tick" using l by (auto simp: level_ok_def)
    show ?thesis
    proof (cases "lag = upper_lag")
      case up: True
      then have "(now div tick + 1) * tick \<le> v * tick" using v(1) n by (intro mult_right_mono) (auto simp: upper_lag_def)
      then show ?thesis
        using up v(2) dividend_less_div_times [OF n(2), of now] by (simp add: algebra_simps)
    next
      case False
      then show ?thesis using deadline_bound [of now tick v "t_expire_at_ms t"] v n by auto
    qed
  next
    case False
    then have "now < t_expire_at_ms t" using Cons.IH [of upper_lag "tick * 64"] Cons.prems by simp
    then show ?thesis by simp
  qed
qed simp

lemma hw_okI:
  assumes "0 < hw_tick_ms w" "hw_levels w \<noteq> []" "length (hw_levels w) \<le> max_levels"
    "levels_ok bottom_lag (hw_tick_ms w) (hw_now_ms w) (hw_levels w)" "hw_len w = size (hw_timers w)"
  shows "hw_ok w"
  using assms levels_late [OF assms(4)] by (auto simp: hw_ok_def hw_timers_def bottom_lag_def upper_lag_def)

lemma level_new_tick: "l_tick_ms (level_new tick now lag) = tick"
  by (simp add: level_new_def)

lemma hw_new_ok: "hw_new tick start = Some w \<Longrightarrow> hw_ok w \<and> hw_timers w = {#}"
  using level_new_ok(1) [of tick bottom_lag start] level_new_ok(2) [of tick start bottom_lag]
  by (auto simp: hw_new_def hw_timers_def max_levels_def level_new_tick split: if_splits intro!: hw_okI)

lemma hw_insert_ok:
  assumes "hw_ok w"
  shows "hw_ok (snd (hw_insert v e w))"
    and "hw_timers (snd (hw_insert v e w)) =
      (if e \<le> hw_now_ms w then hw_timers w else add_mset \<lparr>t_value = v, t_expire_at_ms = e\<rparr> (hw_timers w))"
proof -
  have "hw_ok (snd (hw_insert v e w)) \<and> hw_timers (snd (hw_insert v e w)) =
      (if e \<le> hw_now_ms w then hw_timers w else add_mset \<lparr>t_value = v, t_expire_at_ms = e\<rparr> (hw_timers w))"
  proof (cases "e \<le> hw_now_ms w")
    case True
    then show ?thesis using assms by (simp add: hw_insert_def)
  next
    case False
    then show ?thesis
      using hw_place_ok [of "hw_tick_ms w" "hw_now_ms w" "hw_levels w" "\<lparr>t_value = v, t_expire_at_ms = e\<rparr>"] assms
      by (auto simp: hw_insert_def hw_ok_def hw_timers_def intro!: hw_okI)
  qed
  then show "hw_ok (snd (hw_insert v e w))" "hw_timers (snd (hw_insert v e w)) =
      (if e \<le> hw_now_ms w then hw_timers w else add_mset \<lparr>t_value = v, t_expire_at_ms = e\<rparr> (hw_timers w))" by auto
qed

lemma drain_levels_ok:
  assumes "levels_ok lag tick now ls" "now \<le> now'"
  shows "levels_ok lag tick now' (fst (drain_levels now' lag ls out)) \<and>
    mset (snd (drain_levels now' lag ls out)) + timers (fst (drain_levels now' lag ls out)) = mset out + timers ls \<and>
    length (fst (drain_levels now' lag ls out)) = length ls"
  using assms
proof (induction ls arbitrary: lag tick out)
  case (Cons l ls)
  have l: "level_ok lag now l" "l_tick_ms l = tick" and ls: "levels_ok upper_lag (tick * 64) now ls"
    using Cons.prems(1) by simp_all
  note d = drain_due_spec [OF l(1) Cons.prems(2), of out]
  note IH = Cons.IH [OF ls Cons.prems(2), of "snd (drain_due now' lag l out)"]
  let ?l = "fst (drain_due now' lag l out)" and ?o = "snd (drain_due now' lag l out)"
  let ?ls = "fst (drain_levels now' upper_lag ls ?o)" and ?p = "snd (drain_levels now' upper_lag ls ?o)"
  have "mset ?p + (level_timers ?l + timers ?ls) = (mset ?p + timers ?ls) + level_timers ?l"
    by (simp only: ac_simps)
  also have "\<dots> = mset ?o + level_timers ?l + timers ls" using IH by (simp only: ac_simps)
  also have "\<dots> = mset out + level_timers l + timers ls" using d(2) by simp
  finally show ?case using d(1,3) IH l(2) by (simp add: Let_def case_prod_beta ac_simps)
qed simp

text \<open>The final loop: due timers fire, the others are placed again.\<close>

lemma fire_fold:
  assumes "levels_ok bottom_lag (hw_tick_ms (fst st)) (hw_now_ms (fst st)) (hw_levels (fst st))"
    "hw_levels (fst st) \<noteq> []" "length (hw_levels (fst st)) \<le> max_levels" "0 < hw_tick_ms (fst st)"
    "hw_now_ms (fst st) = n" "hw_len (fst st) = size (timers (hw_levels (fst st))) + length ts"
  shows "let st' = fold (fire_or_place n) ts st in
    hw_ok (fst st') \<and> hw_now_ms (fst st') = n \<and> hw_tick_ms (fst st') = hw_tick_ms (fst st) \<and>
    snd st' = snd st @ map t_value (filter (\<lambda>t. t_expire_at_ms t \<le> n) ts) \<and>
    hw_timers (fst st') = timers (hw_levels (fst st)) + mset (filter (\<lambda>t. n < t_expire_at_ms t) ts)"
  using assms
proof (induction ts arbitrary: st)
  case Nil
  then show ?case by (auto simp: hw_timers_def intro!: hw_okI)
next
  case (Cons t ts)
  show ?case
  proof (cases "t_expire_at_ms t \<le> n")
    case True
    then show ?thesis
      using Cons.IH [of "fire_or_place n t st"] Cons.prems by (simp add: fire_or_place_def Let_def)
  next
    case False
    note p = hw_place_ok [of "hw_tick_ms (fst st)" "hw_now_ms (fst st)" "hw_levels (fst st)" t]
    show ?thesis
      using Cons.IH [of "fire_or_place n t st"] Cons.prems False p by (simp add: fire_or_place_def Let_def)
  qed
qed

definition drained :: "u64 \<Rightarrow> 'a hwheel \<Rightarrow> 'a timer list" where
  "drained n w = snd (drain_levels n bottom_lag (hw_levels w) [])"

lemma advance_to_spec:
  assumes ok: "hw_ok w" and lt: "hw_now_ms w < n"
  shows "hw_ok (fst (advance_to n w))" "hw_now_ms (fst (advance_to n w)) = n"
    "hw_tick_ms (fst (advance_to n w)) = hw_tick_ms w"
    "snd (advance_to n w) = map t_value (filter (\<lambda>t. t_expire_at_ms t \<le> n) (drained n w))"
    "hw_timers (fst (advance_to n w)) + mset (filter (\<lambda>t. t_expire_at_ms t \<le> n) (drained n w)) = hw_timers w"
proof -
  let ?d = "drain_levels n bottom_lag (hw_levels w) []"
  let ?st = "(w\<lparr>hw_now_ms := n, hw_levels := fst ?d\<rparr>, [] :: 'a list)"
  have d: "levels_ok bottom_lag (hw_tick_ms w) n (fst ?d)" "mset (drained n w) + timers (fst ?d) = hw_timers w"
    "length (fst ?d) = length (hw_levels w)"
    using drain_levels_ok [of bottom_lag "hw_tick_ms w" "hw_now_ms w" "hw_levels w" n "[]"] ok lt
    by (auto simp: hw_ok_def hw_timers_def drained_def)
  have "size (hw_timers w) = length (drained n w) + size (timers (fst ?d))"
    using arg_cong [OF d(2), of size] by simp
  then have "let st' = fold (fire_or_place n) (drained n w) ?st in
    hw_ok (fst st') \<and> hw_now_ms (fst st') = n \<and> hw_tick_ms (fst st') = hw_tick_ms (fst ?st) \<and>
    snd st' = snd ?st @ map t_value (filter (\<lambda>t. t_expire_at_ms t \<le> n) (drained n w)) \<and>
    hw_timers (fst st') = timers (hw_levels (fst ?st)) + mset (filter (\<lambda>t. n < t_expire_at_ms t) (drained n w))"
    using ok d by (intro fire_fold) (auto simp: hw_ok_def)
  moreover have "advance_to n w = fold (fire_or_place n) (drained n w) ?st"
    using lt by (simp add: advance_to_def drained_def case_prod_beta)
  moreover have "mset (filter (\<lambda>t. t_expire_at_ms t \<le> n) (drained n w)) +
      mset (filter (\<lambda>t. n < t_expire_at_ms t) (drained n w)) = mset (drained n w)"
    by (induction "drained n w" rule: rev_induct) (auto simp: not_le [symmetric])
  ultimately show "hw_ok (fst (advance_to n w))" "hw_now_ms (fst (advance_to n w)) = n"
    "hw_tick_ms (fst (advance_to n w)) = hw_tick_ms w"
    "snd (advance_to n w) = map t_value (filter (\<lambda>t. t_expire_at_ms t \<le> n) (drained n w))"
    "hw_timers (fst (advance_to n w)) + mset (filter (\<lambda>t. t_expire_at_ms t \<le> n) (drained n w)) = hw_timers w"
    using d(2) by (auto simp: Let_def ac_simps)
qed

section \<open>The next expiry\<close>

lemma trailing_zeros_spec:
  assumes "bit w i" "i < 64"
  shows "trailing_zeros w < 64" "bit w (trailing_zeros w)" "k < trailing_zeros w \<Longrightarrow> \<not> bit w k"
proof -
  obtain z where z: "find (bit w) [0..<64] = Some z"
    using assms by (cases "find (bit w) [0..<64]") (auto simp: find_None_iff)
  then obtain j where j: "j < 64" "bit w j" "z = j" "\<forall>k<j. \<not> bit w k"
    unfolding find_Some_iff by auto
  have t: "trailing_zeros w = j" using z j(3) by (simp add: trailing_zeros_def)
  show "trailing_zeros w < 64" "bit w (trailing_zeros w)" "k < trailing_zeros w \<Longrightarrow> \<not> bit w k"
    using j unfolding t by blast+
qed

text \<open>The nearest occupied bucket of a level, counted from its cursor.\<close>

definition ahead :: "'a level \<Rightarrow> nat" where
  "ahead l = trailing_zeros (word_rotr (l_next_vid l mod 64) (l_occupied l))"

lemma rot_bit:
  assumes "occ_ok l" "k < 64"
  shows "bit (word_rotr (l_next_vid l mod 64) (l_occupied l)) k \<longleftrightarrow> l_buckets l ! ((l_next_vid l + k) mod 64) \<noteq> []"
proof -
  have "(k + l_next_vid l mod 64) mod 64 = (l_next_vid l + k) mod 64" by (simp add: mod_simps add.commute)
  then show ?thesis using assms by (simp add: bit_word_rotr_iff occ_ok_def)
qed

lemma ahead_spec:
  assumes ok: "level_ok lag now l" and ne: "level_timers l \<noteq> {#}"
  shows "l_occupied l \<noteq> 0" "ahead l < 64" "k < ahead l \<Longrightarrow> l_buckets l ! ((l_next_vid l + k) mod 64) = []"
proof -
  have o: "occ_ok l" using ok by (simp add: level_ok_def)
  obtain t where "t \<in># level_timers l" using ne by blast
  then obtain v where v: "l_next_vid l \<le> v" "v < l_next_vid l + 64" "t \<in> set (l_buckets l ! (v mod 64))"
    using in_level_timers [OF ok] by blast
  let ?r = "word_rotr (l_next_vid l mod 64) (l_occupied l)"
  have b: "bit ?r (v - l_next_vid l)" using rot_bit [OF o, of "v - l_next_vid l"] v by auto
  then show "l_occupied l \<noteq> 0" by auto
  note z = trailing_zeros_spec [OF b]
  show lt: "ahead l < 64" using z(1) v by (simp add: ahead_def)
  show "k < ahead l \<Longrightarrow> l_buckets l ! ((l_next_vid l + k) mod 64) = []"
    using z(3) [of k] v rot_bit [OF o, of k] lt by (simp add: ahead_def)
qed

lemma occupied_iff: "occ_ok l \<Longrightarrow> l_occupied l = 0 \<longleftrightarrow> level_timers l = {#}"
proof
  assume o: "occ_ok l" and z: "l_occupied l = 0"
  then have "b = []" if "b \<in> set (l_buckets l)" for b
    using that occ_zero_empty [OF o z] by (auto simp: in_set_conv_nth occ_ok_def)
  then show "level_timers l = {#}" by (simp add: level_timers_def)
next
  assume o: "occ_ok l" and e: "level_timers l = {#}"
  then have "l_buckets l ! i = []" if "i < 64" for i
    using that nth_mem [of i "l_buckets l"] by (auto simp: level_timers_def occ_ok_def)
  then show "l_occupied l = 0" using o by (intro bit_word_eqI) (auto simp: occ_ok_def)
qed

lemma next_due_spec:
  assumes ok: "level_ok lag now l" and lag: "lag \<le> 1"
  shows "next_due_ms lag l = None \<longleftrightarrow> level_timers l = {#}"
    and "next_due_ms lag l = Some m \<Longrightarrow> now < m"
    and "next_due_ms lag l = Some m \<Longrightarrow> t \<in># level_timers l \<Longrightarrow> m \<le> t_expire_at_ms t + lag * l_tick_ms l"
    and "next_due_ms lag l = Some m \<Longrightarrow> n < m \<Longrightarrow> snd (drain_due n lag l out) = out"
proof -
  let ?n = "l_next_vid l" and ?T = "l_tick_ms l"
  have o: "occ_ok l" "?n = now div ?T + (1 - lag)" "0 < ?T" using ok by (auto simp: level_ok_def)
  show e: "next_due_ms lag l = None \<longleftrightarrow> level_timers l = {#}"
    by (simp add: next_due_ms_def Let_def occupied_iff [OF o(1)])
  assume m: "next_due_ms lag l = Some m"
  then have meq: "m = (?n + ahead l + lag) * ?T"
    by (auto simp: next_due_ms_def Let_def ahead_def wheel_size_def split: if_splits)
  have ne: "level_timers l \<noteq> {#}" using e m by auto
  have "now < (now div ?T + 1) * ?T" using dividend_less_div_times [OF o(3), of now] by (simp add: algebra_simps)
  also have "\<dots> \<le> m" unfolding meq using o(2) lag by (intro mult_right_mono) auto
  finally show "now < m" .
  show "m \<le> t_expire_at_ms t + lag * ?T" if t: "t \<in># level_timers l"
  proof -
    obtain v where v: "?n \<le> v" "v < ?n + 64" "v * ?T \<le> t_expire_at_ms t" "t \<in> set (l_buckets l ! (v mod 64))"
      using in_level_timers [OF ok t] by blast
    have "ahead l \<le> v - ?n"
    proof (rule ccontr)
      assume "\<not> ahead l \<le> v - ?n"
      then show False using ahead_spec(3) [OF ok ne, of "v - ?n"] v by simp
    qed
    then have "m \<le> (v + lag) * ?T" unfolding meq using v(1) by (intro mult_right_mono) auto
    then show ?thesis using v(3) by (simp add: algebra_simps)
  qed
  show "snd (drain_due n lag l out) = out" if n: "n < m"
  proof -
    define limit where "limit = n div ?T + (1 - lag)"
    have "n div ?T < ?n + ahead l + lag" using n unfolding meq by (simp add: less_mult_imp_div_less)
    then have lim: "limit \<le> ?n + ahead l" using lag by (auto simp: limit_def)
    have quiet: "fold drain_vid vs (l, out) = (l, out)" if "\<forall>v \<in> set vs. ?n \<le> v \<and> v < ?n + ahead l" for vs
      using that
    proof (induction vs)
      case (Cons v vs)
      then have "v - ?n < ahead l" "?n + (v - ?n) = v" by auto
      then have "l_buckets l ! (v mod 64) = []" using ahead_spec(3) [OF ok ne, of "v - ?n"] by simp
      then have "drain_vid v (l, out) = (l, out)"
        using o(1) and_push1 [of "v mod 64" "l_occupied l"]
        by (simp add: drain_vid_def wheel_size_def Let_def occ_ok_def)
      then show ?case using Cons by simp
    qed simp
    show ?thesis
    proof (cases "limit \<le> ?n")
      case True
      then show ?thesis by (simp add: drain_due_def level_vid_def limit_def Let_def)
    next
      case False
      then have "limit - min (limit - ?n) wheel_size = ?n"
        using lim ahead_spec(2) [OF ok ne] by (simp add: wheel_size_def)
      moreover have "fold drain_vid [?n..<limit] (l, out) = (l, out)" using quiet lim by simp
      ultimately show ?thesis
        using False by (simp add: drain_due_def level_vid_def limit_def Let_def case_prod_beta)
    qed
  qed
qed

lemma next_loop_spec:
  assumes "levels_ok lag tick now ls" "lag = bottom_lag \<or> lag = upper_lag" "\<And>b. best = Some b \<Longrightarrow> now < b"
  shows "case next_expiry_loop lag ls best of
      None \<Rightarrow> best = None \<and> timers ls = {#}
    | Some m \<Rightarrow> now < m \<and> (\<forall>b. best = Some b \<longrightarrow> m \<le> b) \<and>
        (\<forall>t. t \<in># timers ls \<longrightarrow> m \<le> t_expire_at_ms t + lag * tick) \<and>
        (\<forall>n out. n < m \<longrightarrow> snd (drain_levels n lag ls out) = out)"
  using assms
proof (induction ls arbitrary: lag tick best)
  case Nil
  then show ?case by (cases best) auto
next
  case (Cons l ls)
  have l: "level_ok lag now l" "l_tick_ms l = tick" and ls: "levels_ok upper_lag (tick * 64) now ls"
    using Cons.prems(1) by simp_all
  have lag: "lag \<le> 1" using Cons.prems(2) by (auto simp: bottom_lag_def upper_lag_def)
  note d = next_due_spec [OF l(1) lag]
  define best' where "best' = (case next_due_ms lag l of None \<Rightarrow> best
    | Some due \<Rightarrow> Some (case best of None \<Rightarrow> due | Some b \<Rightarrow> min b due))"
  have pos: "now < b" if "best' = Some b" for b
    using that d(2) Cons.prems(3) by (auto simp: best'_def split: option.splits)
  have up: "upper_lag = bottom_lag \<or> upper_lag = upper_lag" by simp
  note IH = Cons.IH [OF ls up, of best', OF pos]
  have eq: "next_expiry_loop lag (l # ls) best = next_expiry_loop upper_lag ls best'"
    by (simp add: best'_def)
  show ?case
  proof (cases "next_expiry_loop upper_lag ls best'")
    case None
    then show ?thesis using IH eq d(1) by (auto simp: best'_def split: option.splits)
  next
    case (Some m)
    have i: "now < m" "\<And>b. best' = Some b \<Longrightarrow> m \<le> b" "\<And>t. t \<in># timers ls \<Longrightarrow> m \<le> t_expire_at_ms t"
      "\<And>n out. n < m \<Longrightarrow> snd (drain_levels n upper_lag ls out) = out"
      using IH Some by (auto simp: upper_lag_def)
    have due: "m \<le> due" if "next_due_ms lag l = Some due" for due
      using i(2) that by (auto simp: best'_def split: option.splits)
    have b: "m \<le> b" if "best = Some b" for b
      using i(2) that by (cases "next_due_ms lag l") (auto simp: best'_def)
    have t: "m \<le> t_expire_at_ms t + lag * tick" if "t \<in># timers (l # ls)" for t
    proof (cases "t \<in># level_timers l")
      case True
      then obtain due where "next_due_ms lag l = Some due" using d(1) by (cases "next_due_ms lag l") auto
      then show ?thesis using d(3) [OF _ True] due l(2) order_trans by blast
    next
      case False
      then show ?thesis using i(3) that by (auto intro: trans_le_add1)
    qed
    have dr: "snd (drain_due n lag l out) = out" if "n < m" for n out
    proof (cases "next_due_ms lag l")
      case None
      then have "l_occupied l = 0" by (simp add: next_due_ms_def Let_def split: if_splits)
      then show ?thesis by (simp add: drain_due_def Let_def)
    next
      case (Some due)
      then show ?thesis using d(4) [OF Some] due [OF Some] that by simp
    qed
    then show ?thesis
      using eq Some i b t by (auto simp: Let_def case_prod_beta)
  qed
qed

section \<open>Properties\<close>

text \<open>C11. The firing guarantee.  Advancing a wheel to an instant keeps it well formed and returns a sub-bag of
  the scheduled timers, removed exactly once: none of them before its deadline, and all whose
  deadline lies a tick or more in the past.  Nothing is lost, duplicated or clamped, however far the
  clock jumps and however distant the deadlines.\<close>

theorem advance_to_fires:
  assumes "hw_ok w" and "hw_now_ms w < n"
  shows "\<exists>fired. snd (advance_to n w) = map t_value fired \<and>
    hw_timers (fst (advance_to n w)) + mset fired = hw_timers w \<and>
    list_all (\<lambda>t. t_expire_at_ms t \<le> n) fired \<and>
    (\<forall>t. t \<in># hw_timers (fst (advance_to n w)) \<longrightarrow> n < t_expire_at_ms t + hw_tick_ms w) \<and>
    hw_ok (fst (advance_to n w))"
proof -
  note a = advance_to_spec [OF assms]
  have "n < t_expire_at_ms t + hw_tick_ms w" if "t \<in># hw_timers (fst (advance_to n w))" for t
    using a(1-3) that by (auto simp: hw_ok_def)
  then show ?thesis
    using a by (intro exI [of _ "filter (\<lambda>t. t_expire_at_ms t \<le> n) (drained n w)"]) (auto simp: list_all_iff)
qed

definition demo_wheel :: "nat hwheel" where
  "demo_wheel = snd (hw_insert 7 250 (the (hw_new 100 0)))"

lemma demo_wheel_ok: "hw_ok demo_wheel"
  unfolding demo_wheel_def
  by (rule hw_insert_ok(1)) (use hw_new_ok [of 100 0 "the (hw_new 100 0) :: nat hwheel"] in \<open>simp add: hw_new_def\<close>)

theorem advance_to_fires_witness:
  "\<exists>fired. snd (advance_to 350 demo_wheel) = map t_value fired \<and>
    hw_timers (fst (advance_to 350 demo_wheel)) + mset fired = hw_timers demo_wheel \<and> map t_value fired = [7]"
proof -
  have "hw_now_ms demo_wheel < 350" by code_simp
  moreover have "snd (advance_to 350 demo_wheel) = [7]" by code_simp
  ultimately show ?thesis using advance_to_fires [OF demo_wheel_ok, of 350] by metis
qed

text \<open>C33. Sleeping to the next expiry is safe and in time.  \<^verbatim>\<open>next_expiry_ms\<close> answers nothing exactly when no timer is
  scheduled.  When it answers \<open>m\<close>, the instant \<open>m\<close> lies in the future, no timer is due a tick before
  it, and advancing to any earlier instant fires nothing, so a driver that sleeps until \<open>m\<close> misses
  no deadline by more than a tick and never spins.\<close>

theorem next_expiry_safe:
  assumes "hw_ok w"
  shows "case next_expiry_ms w of
      None \<Rightarrow> hw_timers w = {#}
    | Some m \<Rightarrow> hw_now_ms w < m \<and> (\<forall>t. t \<in># hw_timers w \<longrightarrow> m \<le> t_expire_at_ms t + hw_tick_ms w) \<and>
        (\<forall>n < m. snd (advance_to n w) = [])"
proof (cases "hw_len w = 0")
  case True
  then show ?thesis using assms by (simp add: next_expiry_ms_def hw_ok_def)
next
  case False
  have l: "levels_ok bottom_lag (hw_tick_ms w) (hw_now_ms w) (hw_levels w)" using assms by (simp add: hw_ok_def)
  note n = next_loop_spec [OF l, of None]
  have "snd (advance_to n w) = []" if "snd (drain_levels n bottom_lag (hw_levels w) []) = []" for n
    using that by (simp add: advance_to_def case_prod_beta)
  then show ?thesis
    using n False by (auto simp: next_expiry_ms_def hw_timers_def bottom_lag_def split: option.splits)
qed

theorem next_expiry_safe_witness:
  "next_expiry_ms demo_wheel = Some 300 \<and> snd (advance_to 299 demo_wheel) = []"
proof -
  have "next_expiry_ms demo_wheel = Some 300" by code_simp
  then show ?thesis using next_expiry_safe [OF demo_wheel_ok] by simp
qed

end
