(* ===== verification/Id_Pool.thy ===== *)
theory Id_Pool
  imports Arbitro_Prelude
begin

text \<open>
  The slot allocator of \<^verbatim>\<open>arbitro-common/src/id_pool.rs\<close>: a free list of released
  slots, a generation per slot, the snapshot taken for compaction and the two
  operations that replay a command log.  The locale \<open>id_allocator\<close> is the contract the
  name registry relies on; it is interpreted on the pool at the end.
\<close>

section \<open>The pool\<close>

datatype pool_error = Exhausted | OutOfRange | DoubleFree

record id_pool =
  next_slot :: u32
  free_slots :: "u32 list"
  generations :: "u32 list"
  max_slots :: u32

definition pool_new :: "u32 \<Rightarrow> id_pool" where
  "pool_new n = \<lparr>next_slot = 0, free_slots = [], generations = [], max_slots = n\<rparr>"

text \<open>The index of the reused slot is in range in every pool that satisfies \<open>pool_wf\<close>
  below, which every constructor establishes and every operation keeps.\<close>

definition pool_alloc :: "id_pool \<Rightarrow> (pool_error + u32 \<times> u32) \<times> id_pool" where
  "pool_alloc p =
    (if free_slots p \<noteq> [] then
       let slot = last (free_slots p);
           g = u32_add (generations p ! slot) 1
       in (Inr (slot, g), p\<lparr>free_slots := butlast (free_slots p),
                            generations := (generations p)[slot := g]\<rparr>)
     else if next_slot p \<ge> max_slots p then (Inl Exhausted, p)
     else (Inr (next_slot p, 0),
           p\<lparr>next_slot := next_slot p + 1, generations := generations p @ [0]\<rparr>))"

definition pool_free :: "u32 \<Rightarrow> id_pool \<Rightarrow> (pool_error + unit) \<times> id_pool" where
  "pool_free slot p =
    (if slot \<ge> length (generations p) then (Inl OutOfRange, p)
     else if slot \<in> set (free_slots p) then (Inl DoubleFree, p)
     else (Inr (), p\<lparr>free_slots := free_slots p @ [slot]\<rparr>))"

definition is_current :: "id_pool \<Rightarrow> u32 \<Rightarrow> u32 \<Rightarrow> bool" where
  "is_current p slot g = (vec_get (generations p) slot = Some g)"

definition generation :: "id_pool \<Rightarrow> u32 \<Rightarrow> u32 option" where
  "generation p slot = vec_get (generations p) slot"

definition slot_count :: "id_pool \<Rightarrow> usize" where
  "slot_count p = length (generations p)"

definition active_count :: "id_pool \<Rightarrow> usize" where
  "active_count p = length (generations p) - length (free_slots p)"

definition has_free :: "id_pool \<Rightarrow> bool" where
  "has_free p = (free_slots p \<noteq> [])"

record pool_snapshot =
  ps_next_slot :: u32
  ps_free_slots :: "u32 list"
  ps_generations :: "u32 list"
  ps_max_slots :: u32

definition pool_snapshot_of :: "id_pool \<Rightarrow> pool_snapshot" where
  "pool_snapshot_of p = \<lparr>ps_next_slot = next_slot p, ps_free_slots = free_slots p,
     ps_generations = generations p, ps_max_slots = max_slots p\<rparr>"

definition restore_from :: "pool_snapshot \<Rightarrow> pool_error + id_pool" where
  "restore_from s =
    (if ps_next_slot s \<noteq> length (ps_generations s) then Inl OutOfRange
     else if card (set (ps_free_slots s)) \<noteq> length (ps_free_slots s) then Inl DoubleFree
     else if \<exists>x\<in>set (ps_free_slots s). x \<ge> length (ps_generations s) then Inl OutOfRange
     else Inr \<lparr>next_slot = ps_next_slot s, free_slots = ps_free_slots s,
               generations = ps_generations s, max_slots = ps_max_slots s\<rparr>)"

definition replay_alloc :: "u32 \<Rightarrow> u32 \<Rightarrow> id_pool \<Rightarrow> (pool_error + unit) \<times> id_pool" where
  "replay_alloc slot g p =
    (if slot \<ge> max_slots p then (Inl OutOfRange, p)
     else
       let gens = generations p @ replicate (slot + 1 - length (generations p)) 0
       in (Inr (), p\<lparr>generations := gens[slot := g],
                     free_slots := filter (\<lambda>s. s \<noteq> slot) (free_slots p),
                     next_slot := (if slot + 1 > next_slot p then slot + 1 else next_slot p)\<rparr>))"

definition replay_free :: "u32 \<Rightarrow> id_pool \<Rightarrow> (pool_error + unit) \<times> id_pool" where
  "replay_free slot p =
    (if slot \<ge> length (generations p) then (Inl OutOfRange, p)
     else if slot \<in> set (free_slots p) then (Inl DoubleFree, p)
     else (Inr (), p\<lparr>free_slots := free_slots p @ [slot]\<rparr>))"

section \<open>Invariant and live slots\<close>

definition pool_wf :: "id_pool \<Rightarrow> bool" where
  "pool_wf p \<longleftrightarrow> next_slot p = length (generations p) \<and> distinct (free_slots p) \<and>
     set (free_slots p) \<subseteq> {..<length (generations p)}"

definition pool_live :: "id_pool \<Rightarrow> u32 set" where
  "pool_live p = {..<length (generations p)} - set (free_slots p)"

definition pool_ok :: "id_pool \<Rightarrow> bool" where
  "pool_ok p \<longleftrightarrow> pool_wf p \<and> next_slot p \<le> max_slots p"

lemma last_butlast_distinct:
  assumes "xs \<noteq> []" "distinct xs"
  shows "last xs \<in> set xs" "last xs \<notin> set (butlast xs)" "set (butlast xs) = set xs - {last xs}"
    "filter (\<lambda>x. x \<noteq> last xs) xs = butlast xs" "distinct (butlast xs)"
proof -
  obtain ys y where xs: "xs = ys @ [y]" using assms(1) by (metis append_butlast_last_id)
  have "filter (\<lambda>x. x \<noteq> y) ys = ys" using assms(2) xs by (intro filter_True) auto
  then show "last xs \<in> set xs" "last xs \<notin> set (butlast xs)" "set (butlast xs) = set xs - {last xs}"
    "filter (\<lambda>x. x \<noteq> last xs) xs = butlast xs" "distinct (butlast xs)"
    using assms(2) xs by auto
qed

lemma pool_new_ok [simp]: "pool_ok (pool_new n)" "pool_live (pool_new n) = {}"
  by (simp_all add: pool_ok_def pool_wf_def pool_live_def pool_new_def)

lemma pool_live_finite [simp]: "finite (pool_live p)"
  by (simp add: pool_live_def)

lemma active_count_card: "pool_wf p \<Longrightarrow> active_count p = card (pool_live p)"
  by (simp add: active_count_def pool_live_def pool_wf_def card_Diff_subset distinct_card)

lemma pool_alloc_fresh:
  assumes "free_slots p = []" "next_slot p < max_slots p"
  shows "pool_alloc p = (Inr (next_slot p, 0),
    p\<lparr>next_slot := next_slot p + 1, generations := generations p @ [0]\<rparr>)"
  using assms by (simp add: pool_alloc_def)

lemma pool_alloc_reuse:
  assumes "free_slots p \<noteq> []"
  shows "pool_alloc p = (Inr (last (free_slots p), u32_add (generations p ! last (free_slots p)) 1),
    p\<lparr>free_slots := butlast (free_slots p),
      generations := (generations p)[last (free_slots p) := u32_add (generations p ! last (free_slots p)) 1]\<rparr>)"
  using assms by (simp add: pool_alloc_def Let_def)

lemma pool_alloc_full:
  assumes "free_slots p = []" "\<not> next_slot p < max_slots p"
  shows "pool_alloc p = (Inl Exhausted, p)"
  using assms by (simp add: pool_alloc_def)

lemma pool_alloc_cases:
  obtains (fresh) "free_slots p = []" "next_slot p < max_slots p"
  | (reuse) "free_slots p \<noteq> []"
  | (full) "free_slots p = []" "\<not> next_slot p < max_slots p"
  by blast

lemma pool_ok_reuse:
  assumes "pool_ok p" "free_slots p \<noteq> []"
  defines "s \<equiv> last (free_slots p)"
  shows "s < length (generations p)" "s < max_slots p" "s \<notin> pool_live p"
    "distinct (butlast (free_slots p))" "set (butlast (free_slots p)) = set (free_slots p) - {s}"
    "filter (\<lambda>x. x \<noteq> s) (free_slots p) = butlast (free_slots p)"
proof -
  have d: "distinct (free_slots p)" "set (free_slots p) \<subseteq> {..<length (generations p)}"
    "length (generations p) \<le> max_slots p"
    using assms(1) by (auto simp: pool_ok_def pool_wf_def)
  note l = last_butlast_distinct [OF assms(2) d(1), folded s_def]
  show s: "s < length (generations p)" using l(1) d(2) by blast
  show "s < max_slots p" using s d(3) by simp
  show "s \<notin> pool_live p" using l(1) by (simp add: pool_live_def)
  show "distinct (butlast (free_slots p))" "set (butlast (free_slots p)) = set (free_slots p) - {s}"
    "filter (\<lambda>x. x \<noteq> s) (free_slots p) = butlast (free_slots p)" using l by blast+
qed

lemma pool_alloc_ok:
  assumes "pool_ok p" "pool_alloc p = (Inr (s, g), p')"
  shows "pool_ok p' \<and> s \<notin> pool_live p \<and> pool_live p' = insert s (pool_live p) \<and> s < max_slots p \<and>
    max_slots p' = max_slots p"
proof (cases p rule: pool_alloc_cases)
  case fresh
  note e = pool_alloc_fresh [OF fresh]
  have p': "s = next_slot p" "p' = p\<lparr>next_slot := next_slot p + 1, generations := generations p @ [0]\<rparr>"
    using e assms(2) by simp_all
  show ?thesis using fresh assms(1) unfolding p'
    by (auto simp: pool_ok_def pool_wf_def pool_live_def)
next
  case reuse
  note r = pool_ok_reuse [OF assms(1) reuse]
  have s: "s = last (free_slots p)" using pool_alloc_reuse [OF reuse] assms(2) by simp
  have p': "free_slots p' = butlast (free_slots p)" "length (generations p') = length (generations p)"
    "next_slot p' = next_slot p" "max_slots p' = max_slots p"
    using pool_alloc_reuse [OF reuse] assms(2) by auto
  have "set (free_slots p) \<subseteq> {..<length (generations p)}" "s \<in> set (free_slots p)"
    using assms(1) reuse s by (simp_all add: pool_ok_def pool_wf_def)
  then have "pool_live p' = insert s (pool_live p)"
    using r(1,5) unfolding pool_live_def p' s by blast
  moreover have "pool_ok p'" using assms(1) r(4,5) by (auto simp: pool_ok_def pool_wf_def p')
  ultimately show ?thesis using r(2,3) p'(4) s by blast
next
  case full
  then show ?thesis using pool_alloc_full assms(2) by simp
qed

lemma pool_alloc_Inl:
  assumes "pool_ok p" "pool_alloc p = (Inl e, p')"
  shows "e = Exhausted" "p' = p" "pool_live p = {..<max_slots p}"
  using assms by (auto simp: pool_alloc_def pool_ok_def pool_wf_def pool_live_def Let_def split: if_splits)

lemma pool_free_Inr:
  assumes "pool_ok p" "pool_free s p = (Inr (), p')"
  shows "pool_ok p'" "s \<in> pool_live p" "pool_live p' = pool_live p - {s}" "max_slots p' = max_slots p"
  using assms by (auto simp: pool_free_def pool_ok_def pool_wf_def pool_live_def split: if_splits)

lemma pool_free_Inl:
  assumes "pool_free s p = (Inl e, p')"
  shows "s \<notin> pool_live p" "p' = p"
  using assms by (auto simp: pool_free_def pool_live_def split: if_splits)

lemma pool_free_live: "s \<in> pool_live p \<Longrightarrow> \<exists>p'. pool_free s p = (Inr (), p')"
  by (simp add: pool_free_def pool_live_def)

section \<open>The allocator contract\<close>

text \<open>
  What a table of names relies on: a successful allocation returns a slot that is not
  live and makes it live, an allocation fails only when every slot of the pool is live
  and then changes nothing, and a release succeeds exactly on a live slot.  The client
  side is a table from keys to slots; \<open>R\<close> is a set of slots no key is given.
\<close>

locale id_allocator =
  fixes ok :: "'p \<Rightarrow> bool"
    and live :: "'p \<Rightarrow> nat set"
    and cap :: "'p \<Rightarrow> nat"
    and alloc :: "'p \<Rightarrow> ('e + nat \<times> nat) \<times> 'p"
    and release :: "nat \<Rightarrow> 'p \<Rightarrow> ('e + unit) \<times> 'p"
  assumes alloc_ok: "ok p \<Longrightarrow> alloc p = (Inr (s, g), p') \<Longrightarrow>
      ok p' \<and> s \<notin> live p \<and> live p' = insert s (live p) \<and> s < cap p \<and> cap p' = cap p"
    and alloc_full: "ok p \<Longrightarrow> alloc p = (Inl e, p') \<Longrightarrow> p' = p \<and> live p = {..<cap p}"
    and release_live: "ok p \<Longrightarrow> s \<in> live p \<Longrightarrow> \<exists>p'. release s p = (Inr (), p') \<and>
      ok p' \<and> live p' = live p - {s} \<and> cap p' = cap p"
    and release_dead: "ok p \<Longrightarrow> s \<notin> live p \<Longrightarrow> \<exists>e. release s p = (Inl e, p)"
begin

definition table_ok :: "nat set \<Rightarrow> ('k, nat) hmap \<Rightarrow> 'p \<Rightarrow> bool" where
  "table_ok R tbl p \<longleftrightarrow> ok p \<and> R \<subseteq> live p \<and> {s. \<exists>k. hm_get tbl k = Some s} = live p - R \<and>
     (\<forall>k k' s. hm_get tbl k = Some s \<and> hm_get tbl k' = Some s \<longrightarrow> k = k')"

lemma table_okD:
  assumes "table_ok R tbl p" "hm_get tbl k = Some s"
  shows "s \<in> live p" "s \<notin> R" "hm_get tbl k' = Some s \<Longrightarrow> k' = k"
  using assms by (auto simp: table_ok_def)

lemma table_claim:
  assumes "table_ok R tbl p" "hm_get tbl k = None" "alloc p = (Inr (s, g), p')"
  shows "table_ok R (hm_insert k s tbl) p'"
proof -
  have a: "ok p'" "s \<notin> live p" "live p' = insert s (live p)"
    using alloc_ok [of p s g p'] assms(1,3) by (auto simp: table_ok_def)
  have fresh: "hm_get tbl k' \<noteq> Some s" for k' using assms(1) a(2) by (auto simp: table_ok_def)
  have R: "s \<notin> R" using assms(1) a(2) by (auto simp: table_ok_def)
  have "{x. \<exists>k'. hm_get (hm_insert k s tbl) k' = Some x} = insert s {x. \<exists>k'. hm_get tbl k' = Some x}"
    by (rule hm_range_insert) (rule assms(2))
  then show ?thesis using assms(1) a fresh R
    by (auto simp: table_ok_def hm_get_insert split: if_splits)
qed

lemma table_drop:
  assumes "table_ok R tbl p" "hm_get tbl k = Some s"
  shows "\<exists>p'. release s p = (Inr (), p') \<and> live p' = live p - {s} \<and> table_ok R (hm_remove k tbl) p'"
proof -
  note t = table_okD [OF assms]
  obtain p' where p': "release s p = (Inr (), p')" "ok p'" "live p' = live p - {s}"
    using release_live [of p s] t(1) assms(1) by (auto simp: table_ok_def)
  have "{x. \<exists>k'. hm_get (hm_remove k tbl) k' = Some x} = {x. \<exists>k'. hm_get tbl k' = Some x} - {s}"
    by (rule hm_range_remove [OF assms(2)]) (rule t(3))
  then have "table_ok R (hm_remove k tbl) p'" using assms(1) p' t(2)
    by (auto simp: table_ok_def hm_get_remove split: if_splits)
  then show ?thesis using p' by blast
qed

end

interpretation ip: id_allocator pool_ok pool_live max_slots pool_alloc pool_free
proof unfold_locales
  fix p s g p' assume "pool_ok p" "pool_alloc p = (Inr (s, g), p')"
  then show "pool_ok p' \<and> s \<notin> pool_live p \<and> pool_live p' = insert s (pool_live p) \<and>
    s < max_slots p \<and> max_slots p' = max_slots p"
    by (rule pool_alloc_ok)
next
  fix p e p' assume "pool_ok p" "pool_alloc p = (Inl e, p')"
  then show "p' = p \<and> pool_live p = {..<max_slots p}" using pool_alloc_Inl by blast
next
  fix p s assume p: "pool_ok p" "s \<in> pool_live p"
  obtain p' where "pool_free s p = (Inr (), p')" using pool_free_live [OF p(2)] by blast
  then show "\<exists>p'. pool_free s p = (Inr (), p') \<and> pool_ok p' \<and> pool_live p' = pool_live p - {s} \<and>
    max_slots p' = max_slots p"
    using pool_free_Inr [OF p(1)] by blast
next
  fix p s assume "pool_ok p" "s \<notin> pool_live p"
  then show "\<exists>e. pool_free s p = (Inl e, p)" by (auto simp: pool_free_def pool_live_def)
qed

section \<open>Runs and their logs\<close>

text \<open>
  A run is a sequence of allocations and releases; its log has a record for each
  operation that succeeded, as the command log of the server has.  \<open>replay\<close> applies
  the records of a log with the replay operations and fails when one of them does.
\<close>

datatype pool_op = OpAlloc | OpFree u32

datatype pool_record = Created u32 u32 | Freed u32

definition pool_step :: "pool_op \<Rightarrow> id_pool \<Rightarrow> pool_record list \<times> id_pool" where
  "pool_step op p =
    (case op of
       OpAlloc \<Rightarrow> (case pool_alloc p of (Inr (s, g), p') \<Rightarrow> ([Created s g], p') | (Inl _, p') \<Rightarrow> ([], p'))
     | OpFree s \<Rightarrow> (case pool_free s p of (Inr _, p') \<Rightarrow> ([Freed s], p') | (Inl _, p') \<Rightarrow> ([], p')))"

fun pool_run :: "pool_op list \<Rightarrow> id_pool \<Rightarrow> pool_record list \<times> id_pool" where
  "pool_run [] p = ([], p)"
| "pool_run (op # ops) p =
    (let (l, p1) = pool_step op p; (ls, p2) = pool_run ops p1 in (l @ ls, p2))"

fun replay :: "pool_record list \<Rightarrow> id_pool \<Rightarrow> id_pool option" where
  "replay [] p = Some p"
| "replay (Created s g # rs) p = (case replay_alloc s g p of (Inr _, p') \<Rightarrow> replay rs p' | (Inl _, _) \<Rightarrow> None)"
| "replay (Freed s # rs) p = (case replay_free s p of (Inr _, p') \<Rightarrow> replay rs p' | (Inl _, _) \<Rightarrow> None)"

fun created :: "pool_record list \<Rightarrow> (u32 \<times> u32) list" where
  "created [] = []"
| "created (Created s g # rs) = (s, g) # created rs"
| "created (Freed s # rs) = created rs"

lemma created_append [simp]: "created (xs @ ys) = created xs @ created ys"
  by (induction xs rule: created.induct) auto

lemma replay_append: "replay (xs @ ys) p = (case replay xs p of None \<Rightarrow> None | Some p' \<Rightarrow> replay ys p')"
  by (induction xs p rule: replay.induct) (auto split: sum.splits prod.splits)

lemma replay_alloc_same:
  assumes "pool_ok p" "pool_alloc p = (Inr (s, g), p')"
  shows "replay_alloc s g p = (Inr (), p')"
proof (cases p rule: pool_alloc_cases)
  case fresh
  have n: "length (generations p) = next_slot p" using assms(1) by (simp add: pool_ok_def pool_wf_def)
  have "(generations p @ [0])[next_slot p := 0] = generations p @ [0]"
    by (simp add: list_update_append n)
  then show ?thesis using fresh assms(2) n unfolding pool_alloc_fresh [OF fresh]
    by (cases p) (auto simp: replay_alloc_def)
next
  case reuse
  note r = pool_ok_reuse [OF assms(1) reuse]
  have n: "length (generations p) = next_slot p" using assms(1) by (simp add: pool_ok_def pool_wf_def)
  have s: "s = last (free_slots p)" "g = u32_add (generations p ! s) 1"
    and p': "p' = p\<lparr>free_slots := butlast (free_slots p), generations := (generations p)[s := g]\<rparr>"
    using pool_alloc_reuse [OF reuse] assms(2) by auto
  have "\<not> s \<ge> max_slots p" "s + 1 - length (generations p) = 0" "\<not> s + 1 > next_slot p"
    using r(1,2) s n by simp_all
  then show ?thesis unfolding replay_alloc_def p' using r(6) s(1) by (cases p) simp
next
  case full
  then show ?thesis using pool_alloc_full assms(2) by simp
qed

lemma pool_step_cases:
  assumes "pool_ok p"
  obtains (none) "pool_step op p = ([], p)"
  | (alloc) s g p' where "op = OpAlloc" "pool_alloc p = (Inr (s, g), p')" "pool_step op p = ([Created s g], p')"
  | (free) s p' where "op = OpFree s" "pool_free s p = (Inr (), p')" "pool_step op p = ([Freed s], p')"
proof (cases op)
  case OpAlloc
  show ?thesis
  proof (cases "pool_alloc p")
    case (Pair r p')
    show ?thesis
    proof (cases r)
      case (Inl e)
      then show ?thesis using pool_alloc_Inl(2) [OF assms, of e p'] Pair OpAlloc
        by (intro none) (simp add: pool_step_def)
    next
      case (Inr h)
      then show ?thesis using Pair OpAlloc by (cases h) (simp add: alloc pool_step_def)
    qed
  qed
next
  case (OpFree s)
  show ?thesis
  proof (cases "pool_free s p")
    case (Pair r p')
    then show ?thesis using OpFree pool_free_Inl(2) [of s p _ p']
      by (cases r) (simp_all add: none free pool_step_def)
  qed
qed

lemma pool_step_ok:
  assumes "pool_ok p"
  shows "pool_ok (snd (pool_step op p)) \<and> replay (fst (pool_step op p)) p = Some (snd (pool_step op p))"
  using assms
proof (cases rule: pool_step_cases [of p op])
  case none
  then show ?thesis using assms by simp
next
  case (alloc s g p')
  then show ?thesis using pool_alloc_ok [OF assms] replay_alloc_same [OF assms] by simp
next
  case (free s p')
  moreover from this have "replay_free s p = (Inr (), p')" by (simp add: replay_free_def pool_free_def)
  ultimately show ?thesis using pool_free_Inr(1) [OF assms] by simp
qed

lemma pool_run_ok:
  "pool_ok p \<Longrightarrow> pool_ok (snd (pool_run ops p)) \<and> replay (fst (pool_run ops p)) p = Some (snd (pool_run ops p))"
proof (induction ops arbitrary: p)
  case (Cons op ops)
  show ?case using Cons.IH [of "snd (pool_step op p)"] pool_step_ok [OF Cons.prems, of op]
    by (simp add: case_prod_unfold Let_def replay_append)
qed simp

lemma pool_run_max: "pool_ok p \<Longrightarrow> max_slots (snd (pool_run ops p)) = max_slots p"
proof (induction ops arbitrary: p)
  case (Cons op ops)
  have "max_slots (snd (pool_step op p)) = max_slots p"
    using Cons.prems
  proof (cases rule: pool_step_cases [of p op])
    case (alloc s g p')
    then show ?thesis using pool_alloc_ok [OF Cons.prems] by simp
  next
    case (free s p')
    then show ?thesis using pool_free_Inr(4) [OF Cons.prems] by simp
  qed simp
  then show ?case using Cons.IH [of "snd (pool_step op p)"] pool_step_ok [OF Cons.prems, of op]
    by (simp add: case_prod_unfold Let_def)
qed simp

text \<open>The generations a run hands out for one slot, in order, are \<open>0, 1, 2, \<dots>\<close> modulo \<open>2 ^ 32\<close>.\<close>

definition tags :: "u32 \<Rightarrow> (u32 \<times> u32) list \<Rightarrow> u32 list" where
  "tags s hs = map snd (filter (\<lambda>h. fst h = s) hs)"

definition tags_ok :: "(u32 \<times> u32) list \<Rightarrow> id_pool \<Rightarrow> bool" where
  "tags_ok hs p \<longleftrightarrow> (\<forall>s. tags s hs = map (\<lambda>i. i mod 2 ^ 32) [0..<length (tags s hs)] \<and>
     (if s < length (generations p) then tags s hs \<noteq> [] \<and> last (tags s hs) = generations p ! s
      else tags s hs = []))"

lemma tags_snoc: "tags s (hs @ [(s', g)]) = (if s' = s then tags s hs @ [g] else tags s hs)"
  by (simp add: tags_def)

lemma tags_okD:
  assumes "tags_ok hs p"
  shows "tags s hs = map (\<lambda>i. i mod 2 ^ 32) [0..<length (tags s hs)]"
    "s < length (generations p) \<Longrightarrow> tags s hs \<noteq> [] \<and> last (tags s hs) = generations p ! s"
    "\<not> s < length (generations p) \<Longrightarrow> tags s hs = []"
proof -
  have "tags s hs = map (\<lambda>i. i mod 2 ^ 32) [0..<length (tags s hs)] \<and>
     (if s < length (generations p) then tags s hs \<noteq> [] \<and> last (tags s hs) = generations p ! s
      else tags s hs = [])"
    using assms unfolding tags_ok_def by (rule spec)
  then show "tags s hs = map (\<lambda>i. i mod 2 ^ 32) [0..<length (tags s hs)]"
    "s < length (generations p) \<Longrightarrow> tags s hs \<noteq> [] \<and> last (tags s hs) = generations p ! s"
    "\<not> s < length (generations p) \<Longrightarrow> tags s hs = []" by simp_all
qed

lemma next_tag:
  assumes "xs = map (\<lambda>i. i mod 2 ^ 32) [0..<length xs]" "xs \<noteq> []"
  shows "xs @ [u32_add (last xs) 1] = map (\<lambda>i. i mod 2 ^ 32) [0..<length (xs @ [u32_add (last xs) 1])]"
proof -
  obtain n where n: "length xs = Suc n" using assms(2) by (cases xs) auto
  have "last xs = n mod 2 ^ 32" using assms(1) unfolding n by (metis last_map last_snoc upt_Suc_append
    le0 map_append snoc_eq_iff_butlast list.simps(8,9))
  then have "u32_add (last xs) 1 = Suc n mod 2 ^ 32" by (simp add: u32_add_def mod_Suc_eq)
  then show ?thesis using assms(1) n by simp
qed

lemma tags_ok_alloc:
  assumes "pool_ok p" "tags_ok hs p" "pool_alloc p = (Inr (s, g), p')"
  shows "tags_ok (hs @ [(s, g)]) p'"
proof (cases p rule: pool_alloc_cases)
  case fresh
  have n: "length (generations p) = next_slot p" using assms(1) by (simp add: pool_ok_def pool_wf_def)
  have e: "s = next_slot p" "g = 0" "generations p' = generations p @ [0]"
    using assms(3) unfolding pool_alloc_fresh [OF fresh] by auto
  have t: "tags s hs = []" using tags_okD(3) [OF assms(2)] e(1) n by simp
  show ?thesis unfolding tags_ok_def
  proof
    fix x
    consider "x = s" | "x \<noteq> s" by blast
    then show "tags x (hs @ [(s, g)]) = map (\<lambda>i. i mod 2 ^ 32) [0..<length (tags x (hs @ [(s, g)]))] \<and>
      (if x < length (generations p') then tags x (hs @ [(s, g)]) \<noteq> [] \<and>
         last (tags x (hs @ [(s, g)])) = generations p' ! x else tags x (hs @ [(s, g)]) = [])"
    proof cases
      case 1
      then show ?thesis using t e n by (simp add: tags_snoc nth_append)
    next
      case 2
      then show ?thesis using tags_okD [OF assms(2), of x] e n
        by (auto simp: tags_snoc nth_append)
    qed
  qed
next
  case reuse
  note r = pool_ok_reuse [OF assms(1) reuse]
  have e: "s = last (free_slots p)" "g = u32_add (generations p ! s) 1"
    "generations p' = (generations p)[s := g]"
    using assms(3) unfolding pool_alloc_reuse [OF reuse] by auto
  have l: "s < length (generations p)" using r(1) e(1) by simp
  note t = tags_okD(2) [OF assms(2) l]
  show ?thesis unfolding tags_ok_def
  proof
    fix x
    consider "x = s" | "x \<noteq> s" by blast
    then show "tags x (hs @ [(s, g)]) = map (\<lambda>i. i mod 2 ^ 32) [0..<length (tags x (hs @ [(s, g)]))] \<and>
      (if x < length (generations p') then tags x (hs @ [(s, g)]) \<noteq> [] \<and>
         last (tags x (hs @ [(s, g)])) = generations p' ! x else tags x (hs @ [(s, g)]) = [])"
    proof cases
      case 1
      have snoc: "tags x (hs @ [(s, g)]) = tags s hs @ [g]" using 1 by (simp add: tags_snoc)
      have "tags s hs @ [g] = map (\<lambda>i. i mod 2 ^ 32) [0..<length (tags s hs @ [g])]"
        using next_tag [OF tags_okD(1) [OF assms(2), of s]] t e(2) by simp
      moreover have "last (tags s hs @ [g]) = generations p' ! x" using 1 l e(3) by simp
      ultimately show ?thesis unfolding snoc using 1 l e(3) by fastforce
    next
      case 2
      then show ?thesis using tags_okD [OF assms(2), of x] e(3) by (simp add: tags_snoc)
    qed
  qed
next
  case full
  then show ?thesis using pool_alloc_full assms(3) by simp
qed

lemma tags_ok_run:
  "pool_ok p \<Longrightarrow> tags_ok hs p \<Longrightarrow> tags_ok (hs @ created (fst (pool_run ops p))) (snd (pool_run ops p))"
proof (induction ops arbitrary: p hs)
  case (Cons op ops)
  have "tags_ok (hs @ created (fst (pool_step op p))) (snd (pool_step op p))"
    using Cons.prems(1)
  proof (cases rule: pool_step_cases [of p op])
    case (alloc s g p')
    then show ?thesis using tags_ok_alloc [OF Cons.prems] by simp
  next
    case (free s p')
    then have "generations p' = generations p" by (auto simp: pool_free_def split: if_splits)
    then show ?thesis using free Cons.prems(2) by (simp add: tags_ok_def)
  qed (simp add: Cons.prems)
  then show ?case using Cons.IH pool_step_ok [OF Cons.prems(1), of op]
    by (simp add: case_prod_unfold Let_def flip: append_assoc)
qed simp

lemma created_length: "length (created (fst (pool_run ops p))) \<le> length ops"
proof (induction ops arbitrary: p)
  case (Cons op ops)
  have "length (created (fst (pool_step op p))) \<le> 1"
    by (simp add: pool_step_def split: pool_op.splits sum.splits prod.splits)
  then show ?case using Cons.IH [of "snd (pool_step op p)"]
    by (simp add: case_prod_unfold Let_def)
qed simp

lemma tags_distinct:
  assumes "\<And>s. distinct (tags s hs)"
  shows "distinct hs"
  using assms
proof (induction hs rule: rev_induct)
  case (snoc h hs)
  obtain s g where h: "h = (s, g)" by (cases h)
  have "distinct (tags x hs)" for x using snoc.prems [of x] unfolding h tags_snoc by (simp split: if_splits)
  moreover have "g \<notin> set (tags s hs)" using snoc.prems [of s] unfolding h tags_snoc by simp
  ultimately show ?case using snoc.IH unfolding h tags_def by force
qed simp

lemma tags_last: "tags s hs \<noteq> [] \<Longrightarrow> map_of (rev hs) s = Some (last (tags s hs))"
proof (induction hs rule: rev_induct)
  case (snoc h hs)
  then show ?case by (cases h) (auto simp: tags_snoc split: if_splits)
qed (simp add: tags_def)

lemma tags_none: "tags s hs = [] \<Longrightarrow> map_of (rev hs) s = None"
  by (auto simp: tags_def map_of_eq_None_iff filter_empty_conv)

section \<open>Properties\<close>

text \<open>C24. Recovery of the pool is exact.  After any sequence of allocations and releases, both
  ways to rebuild the pool give it back: restoring its snapshot, and replaying from an
  empty pool the log of the operations that succeeded.  This includes the order of the free
  list and the generations, so the pool hands out the same identifiers afterwards.\<close>

theorem pool_recovery:
  "restore_from (pool_snapshot_of (snd (pool_run ops (pool_new n)))) = Inr (snd (pool_run ops (pool_new n))) \<and>
   replay (fst (pool_run ops (pool_new n))) (pool_new n) = Some (snd (pool_run ops (pool_new n)))"
proof -
  define p where "p = snd (pool_run ops (pool_new n))"
  have r: "pool_ok p" "replay (fst (pool_run ops (pool_new n))) (pool_new n) = Some p"
    using pool_run_ok [OF pool_new_ok(1), of ops n] unfolding p_def by blast+
  have "restore_from (pool_snapshot_of p) = Inr p" using r(1)
    by (cases p) (auto simp: restore_from_def pool_snapshot_of_def pool_ok_def pool_wf_def distinct_card)
  then show ?thesis using r(2) unfolding p_def by blast
qed

text \<open>C23. Identifiers with a generation tag are never confused.  In a run of at most
  \<open>2 ^ 32\<close> operations no (slot, generation) pair is handed out twice, and a pair
  passes the freshness check exactly when it is the last one handed out for its slot: a
  pair that was kept from before a reuse is rejected.\<close>

theorem pool_handles_fresh:
  assumes "length ops \<le> 2 ^ 32" "pool_run ops (pool_new n) = (log, p)"
  shows "distinct (created log) \<and>
    (\<forall>s g. is_current p s g \<longleftrightarrow> map_of (rev (created log)) s = Some g)"
proof -
  have "tags_ok [] (pool_new n)" by (simp add: tags_ok_def tags_def pool_new_def)
  then have t: "tags_ok (created log) p"
    using tags_ok_run [OF pool_new_ok(1), of "[]" n ops] assms(2) by simp
  have len: "length (tags s (created log)) \<le> 2 ^ 32" for s
  proof -
    have "length (tags s (created log)) \<le> length (created log)" by (simp add: tags_def)
    then show ?thesis using created_length [of ops "pool_new n"] assms by simp
  qed
  have "inj_on (\<lambda>i. i mod 2 ^ 32) {0..<k}" if "k \<le> 2 ^ 32" for k :: nat
    using that by (auto simp: inj_on_def)
  then have "distinct (tags s (created log))" for s
    by (subst tags_okD(1) [OF t]) (use len in \<open>simp add: distinct_map\<close>)
  then have "distinct (created log)" by (rule tags_distinct)
  moreover have "is_current p s g \<longleftrightarrow> map_of (rev (created log)) s = Some g" for s g
    using tags_okD(2,3) [OF t, of s] tags_last [of s "created log"] tags_none [of s "created log"]
    by (cases "s < length (generations p)") (auto simp: is_current_def vec_get_def)
  ultimately show ?thesis by blast
qed

theorem pool_handles_fresh_witness:
  "\<exists>log p. pool_run [OpAlloc, OpFree 0, OpAlloc] (pool_new 1) = (log, p) \<and>
     distinct (created log) \<and> created log = [(0, 0), (0, 1)] \<and> is_current p 0 1 \<and> \<not> is_current p 0 0"
proof -
  have e: "pool_run [OpAlloc, OpFree 0, OpAlloc] (pool_new 1) =
    ([Created 0 0, Freed 0, Created 0 1],
     \<lparr>next_slot = 1, free_slots = [], generations = [1], max_slots = 1\<rparr>)"
    by (simp add: pool_step_def pool_alloc_def pool_free_def pool_new_def u32_add_def)
  show ?thesis using pool_handles_fresh [OF _ e] e by simp
qed

text \<open>C34. Live slots are exclusive and bounded.  In every state a run reaches, an allocation
  returns a slot below the configured maximum that no one holds and adds it to the live
  slots; it fails only with \<open>Exhausted\<close>, changes nothing then, and only when all
  \<open>max_slots\<close> slots are live.  A release succeeds exactly on a live slot and
  removes just that slot, and \<open>active_count\<close> counts the live slots.\<close>

theorem pool_exclusive:
  fixes ops :: "pool_op list" and n :: u32
  defines "p \<equiv> snd (pool_run ops (pool_new n))"
  shows "active_count p = card (pool_live p) \<and>
    (case pool_alloc p of
       (Inr (s, g), p') \<Rightarrow> s < n \<and> s \<notin> pool_live p \<and> pool_live p' = insert s (pool_live p)
     | (Inl e, p') \<Rightarrow> e = Exhausted \<and> p' = p \<and> active_count p = n) \<and>
    (case pool_free s p of
       (Inr _, p') \<Rightarrow> s \<in> pool_live p \<and> pool_live p' = pool_live p - {s}
     | (Inl _, p') \<Rightarrow> s \<notin> pool_live p \<and> p' = p)"
proof -
  have ok: "pool_ok p" using pool_run_ok [OF pool_new_ok(1), of ops n] unfolding p_def by blast
  have m: "max_slots p = n" using pool_run_max [OF pool_new_ok(1), of ops n]
    unfolding p_def by (simp add: pool_new_def)
  have a: "active_count p = card (pool_live p)" using ok by (simp add: active_count_card pool_ok_def)
  have "case pool_alloc p of
       (Inr (s, g), p') \<Rightarrow> s < n \<and> s \<notin> pool_live p \<and> pool_live p' = insert s (pool_live p)
     | (Inl e, p') \<Rightarrow> e = Exhausted \<and> p' = p \<and> active_count p = n"
    using pool_alloc_ok [OF ok] pool_alloc_Inl [OF ok] a m
    by (auto split: sum.splits prod.splits)
  moreover have "case pool_free s p of
       (Inr _, p') \<Rightarrow> s \<in> pool_live p \<and> pool_live p' = pool_live p - {s}
     | (Inl _, p') \<Rightarrow> s \<notin> pool_live p \<and> p' = p"
    using pool_free_Inr [OF ok] pool_free_Inl [of s p] by (auto split: sum.splits prod.splits)
  ultimately show ?thesis using a by blast
qed

end
