(* ===== verification/Validate.thy ===== *)
theory Validate
  imports Subject
begin

text \<open>
  Name and subject validation of \<^verbatim>\<open>arbitro-proto/src/validate.rs\<close>, which every
  management request passes at the dispatch boundary, and its relation to the pattern
  rules of the engine (\<^verbatim>\<open>validate_pattern\<close>, \<^verbatim>\<open>subjects_overlap\<close>).
\<close>

section \<open>The checks\<close>

abbreviation max_name_len :: usize where "max_name_len \<equiv> 255"
definition max_subject_len :: usize where "max_subject_len = 255"

datatype validate_error = VEmpty | VTooLong | VInvalidChar byte

definition in_range :: "byte \<Rightarrow> byte \<Rightarrow> byte \<Rightarrow> bool" where
  "in_range lo hi b \<longleftrightarrow> lo \<le> b \<and> b \<le> hi"

definition name_char :: "byte \<Rightarrow> bool" where
  "name_char b \<longleftrightarrow> in_range 97 122 b \<or> in_range 65 90 b \<or> in_range 48 57 b \<or> b = 95 \<or> b = 45"

definition subject_char :: "byte \<Rightarrow> bool" where
  "subject_char b \<longleftrightarrow> name_char b \<or> b = 46 \<or> b = 42 \<or> b = 62"

fun check_chars :: "(byte \<Rightarrow> bool) \<Rightarrow> bytes \<Rightarrow> validate_error + unit" where
  "check_chars ok [] = Inr ()"
| "check_chars ok (b # bs) = (if ok b then check_chars ok bs else Inl (VInvalidChar b))"

definition validate_name :: "bytes \<Rightarrow> validate_error + unit" where
  "validate_name name =
    (if name = [] then Inl VEmpty
     else if length name > max_name_len then Inl VTooLong
     else check_chars name_char name)"

text \<open>\<^verbatim>\<open>split(|b| b == b'.')\<close>: one more piece than there are dots, empty pieces included.\<close>

fun split_dot :: "bytes \<Rightarrow> bytes list" where
  "split_dot [] = [[]]"
| "split_dot (b # bs) =
    (if b = dot then [] # split_dot bs
     else case split_dot bs of [] \<Rightarrow> [[b]] | t # ts \<Rightarrow> (b # t) # ts)"

text \<open>The loop over the tokens; it carries the last token seen.\<close>

fun check_tokens :: "bytes list \<Rightarrow> bytes \<Rightarrow> validate_error + bytes" where
  "check_tokens [] last_token = Inr last_token"
| "check_tokens (token # ts) last_token =
    (if token = [] then Inl (VInvalidChar 46)
     else if 42 \<in> set token \<and> length token > 1 then Inl (VInvalidChar 42)
     else if 62 \<in> set token \<and> length token > 1 then Inl (VInvalidChar 62)
     else check_tokens ts token)"

definition validate_subject :: "bytes \<Rightarrow> validate_error + unit" where
  "validate_subject subject =
    (if subject = [] then Inl VEmpty
     else if length subject > max_subject_len then Inl VTooLong
     else case check_chars subject_char subject of
       Inl e \<Rightarrow> Inl e
     | Inr _ \<Rightarrow>
       (case check_tokens (split_dot subject) [] of
          Inl e \<Rightarrow> Inl e
        | Inr last_token \<Rightarrow>
            if 62 \<in> set subject \<and> last_token \<noteq> [62] then Inl (VInvalidChar 62) else Inr ()))"

fun overlap_tokens :: "bytes list \<Rightarrow> bytes list \<Rightarrow> bool" where
  "overlap_tokens [] [] = True"
| "overlap_tokens [] (bt # bs) = False"
| "overlap_tokens (at # as) [] = False"
| "overlap_tokens (at # as) (bt # bs) =
    (if at = [62] \<or> bt = [62] then True
     else if at = [42] \<or> bt = [42] \<or> at = bt then overlap_tokens as bs
     else False)"

definition proto_subjects_overlap :: "bytes \<Rightarrow> bytes \<Rightarrow> bool" where
  "proto_subjects_overlap a b = overlap_tokens (split_dot a) (split_dot b)"

section \<open>Splitting and tokens\<close>

lemma split_dot_last: "dot \<notin> set t \<Longrightarrow> split_dot t = [t]"
  by (induction t) auto

lemma split_dot_cons: "dot \<notin> set t \<Longrightarrow> split_dot (t @ dot # r) = t # split_dot r"
  by (induction t) auto

lemma next_token_split:
  assumes "next_token s = (t, r)"
  shows "dot \<notin> set t \<and> (s = t \<and> r = [] \<or> s = t @ dot # r)"
proof (cases "dot \<in> set s")
  case True
  then obtain xs ys where s: "s = xs @ dot # ys" "dot \<notin> set xs" by (meson split_list_first)
  then show ?thesis using next_token_cons [OF s(2), of ys] assms by simp
next
  case False
  then show ?thesis using next_token_last [OF False] assms by simp
qed

text \<open>A string that ends in no dot splits into the tokens the engine's cursor visits.\<close>

lemma split_dot_toks: "s \<noteq> [] \<Longrightarrow> last s \<noteq> dot \<Longrightarrow> split_dot s = toks s"
proof (induction s rule: toks.induct)
  case (1 s)
  obtain t r where e: "next_token s = (t, r)" by fastforce
  have d: "dot \<notin> set t" and c: "s = t \<and> r = [] \<or> s = t @ dot # r" using next_token_split [OF e] by blast+
  have toks: "toks s = t # toks r" using toks_next [OF "1.prems"(1) e] .
  show ?case
  proof (cases "s = t \<and> r = []")
    case True
    then show ?thesis using toks split_dot_last [OF d] by simp
  next
    case False
    then have s: "s = t @ dot # r" using c by blast
    have r: "r \<noteq> []" using s "1.prems"(2) by auto
    then have "last r \<noteq> dot" using s "1.prems"(2) by simp
    then show ?thesis using "1.IH" "1.prems"(1) e r toks s split_dot_cons [OF d] by simp
  qed
qed

lemma split_dot_ne: "split_dot s \<noteq> []"
  by (induction s) (auto split: list.splits)

lemma split_dot_snoc: "split_dot (s @ [dot]) = split_dot s @ [[]]"
proof (induction s)
  case (Cons b bs)
  then show ?case using split_dot_ne [of bs] by (auto split: list.splits)
qed simp

lemma last_split_dot: "last s = dot \<Longrightarrow> s \<noteq> [] \<Longrightarrow> [] \<in> set (split_dot s)"
  using split_dot_snoc [of "butlast s"] append_butlast_last_id [of s] by simp

lemma check_chars_iff: "check_chars ok bs = Inr () \<longleftrightarrow> list_all ok bs"
  by (induction bs) auto

text \<open>What the token loop accepts: no empty token, wildcards alone in their token.\<close>

definition token_ok :: "bytes \<Rightarrow> bool" where
  "token_ok t \<longleftrightarrow> t \<noteq> [] \<and> (42 \<in> set t \<longrightarrow> t = [42]) \<and> (62 \<in> set t \<longrightarrow> t = [62])"

lemma alone: "t \<noteq> [] \<Longrightarrow> \<not> (x \<in> set t \<and> length t > 1) \<longleftrightarrow> (x \<in> set t \<longrightarrow> t = [x])"
  by (cases t rule: remdups_adj.cases) auto

lemma check_tokens_iff:
  "check_tokens ts l = Inr l' \<longleftrightarrow> list_all token_ok ts \<and> l' = (if ts = [] then l else last ts)"
proof (induction ts arbitrary: l)
  case (Cons t ts)
  then show ?case using alone [of t 42] alone [of t 62] by (auto simp: token_ok_def)
qed auto

lemma validate_subject_iff:
  "validate_subject s = Inr () \<longleftrightarrow> s \<noteq> [] \<and> length s \<le> 255 \<and> list_all subject_char s \<and>
     list_all token_ok (split_dot s) \<and> (62 \<in> set s \<longrightarrow> last (split_dot s) = [62])"
proof -
  have "(\<exists>l. check_tokens (split_dot s) [] = Inr l) \<longleftrightarrow> list_all token_ok (split_dot s)"
    by (simp add: check_tokens_iff)
  moreover have "check_tokens (split_dot s) [] = Inr l \<Longrightarrow> l = last (split_dot s)" for l
    by (simp add: check_tokens_iff split_dot_ne)
  ultimately show ?thesis using check_chars_iff [of subject_char s]
    by (auto simp: validate_subject_def max_subject_len_def split: sum.splits)
qed

lemma validate_subject_toks:
  assumes "validate_subject s = Inr ()"
  shows "s \<noteq> []" "last s \<noteq> dot" "hd s \<noteq> dot" "split_dot s = toks s" "list_all token_ok (toks s)" "clean s"
proof -
  note v = assms [unfolded validate_subject_iff]
  show ne: "s \<noteq> []" using v by blast
  have t: "[] \<notin> set (split_dot s)" using v by (auto simp: list_all_iff token_ok_def)
  show l: "last s \<noteq> dot" using last_split_dot ne t by blast
  show "hd s \<noteq> dot" using t ne by (cases s) auto
  show s: "split_dot s = toks s" by (rule split_dot_toks [OF ne l])
  show "list_all token_ok (toks s)" using v s by simp
  show "clean s" using t s by (simp add: clean_def)
qed

section \<open>Agreement with the engine\<close>

lemma overlap_tokens_toverlap: "overlap_tokens as bs = toverlap as bs"
  by (induction as bs rule: overlap_tokens.induct) (auto simp: gt_tok_def star_tok_def)

lemma count_split_dot:
  "b \<noteq> dot \<Longrightarrow> count_list s b = sum_list (map (\<lambda>t. count_list t b) (split_dot s))"
proof (induction s)
  case (Cons c s)
  then show ?case using split_dot_ne [of s] by (auto split: list.splits)
qed simp

lemma gt_last_butlast: "gt_last ts \<longleftrightarrow> gt_tok \<notin> set (butlast ts)"
  by (induction ts) auto

lemma count_gt_tokens:
  "list_all token_ok ts \<Longrightarrow> sum_list (map (\<lambda>t. count_list t 62) ts) = count_list ts gt_tok"
proof (induction ts)
  case (Cons t ts)
  have "count_list t 62 = (if t = gt_tok then 1 else 0)"
  proof (cases "62 \<in> set t")
    case True
    then have "t = [62]" using Cons.prems by (simp add: token_ok_def)
    then show ?thesis by (simp add: gt_tok_def)
  next
    case False
    moreover from this have "t \<noteq> gt_tok" by (auto simp: gt_tok_def)
    ultimately show ?thesis by simp
  qed
  then show ?case using Cons by simp
qed simp

text \<open>C35. The wire-level subject check and the engine's pattern check accept the same
  strings except for one class: a subject the protocol accepts is a valid engine pattern
  exactly when it holds at most one \<open>>\<close>.  A subject such as \<open>>.a.>\<close> passes
  \<^verbatim>\<open>validate_subject\<close>, which looks only at the last token, although its own comment
  requires \<open>>\<close> to be the last token, and the engine calls it malformed.\<close>

theorem validate_subject_pattern:
  assumes "validate_subject s = Inr ()"
  shows "validate_pattern s = Inr () \<longleftrightarrow> count_list s 62 \<le> 1"
proof -
  note t = validate_subject_toks [OF assms]
  have e: "validate_pattern s = Inr () \<longleftrightarrow> gt_last (toks s)"
    using t by (simp add: validate_pattern_def validate_tokens_iff)
  have n: "count_list s 62 = count_list (toks s) gt_tok"
    using count_split_dot [of 62 s] count_gt_tokens [OF t(5)] t(4) by (simp add: dot_def)
  obtain ts l where ts: "toks s = ts @ [l]" using t(1) by (metis rev_exhaust toks_eq_Nil)
  have "gt_tok \<in> set ts \<Longrightarrow> l = gt_tok"
  proof -
    assume "gt_tok \<in> set ts"
    then have "0 < count_list (toks s) gt_tok" using ts count_notin [of gt_tok "toks s"]
      by (metis Un_iff count_list_0_iff neq0_conv set_append)
    then have "62 \<in> set s" using n by (metis count_notin less_irrefl)
    then show ?thesis using assms t(4) ts by (simp add: validate_subject_iff gt_tok_def)
  qed
  moreover have "count_list ts gt_tok = 0 \<longleftrightarrow> gt_tok \<notin> set ts" by (rule count_list_0_iff)
  ultimately show ?thesis unfolding e n ts gt_last_butlast by (cases "gt_tok \<in> set ts") auto
qed

theorem validate_subject_pattern_witness:
  "validate_subject [97, 46, 62] = Inr () \<and> validate_pattern [97, 46, 62] = Inr () \<and>
   validate_subject [62, 46, 97, 46, 62] = Inr () \<and> validate_pattern [62, 46, 97, 46, 62] \<noteq> Inr ()"
proof -
  have v: "validate_subject [97, 46, 62] = Inr ()" "validate_subject [62, 46, 97, 46, 62] = Inr ()"
    by code_simp+
  show ?thesis using validate_subject_pattern [OF v(1)] validate_subject_pattern [OF v(2)] v by simp
qed

text \<open>C36. The two overlap checks of the code base agree: on subjects that pass the wire-level
  check, \<^verbatim>\<open>subjects_overlap\<close> of the protocol crate, which iterates over split
  tokens, and \<^verbatim>\<open>subjects_overlap\<close> of the engine, which walks two cursors, give the
  same answer.\<close>

theorem proto_overlap_agrees:
  assumes "validate_subject a = Inr ()" "validate_subject b = Inr ()"
  shows "proto_subjects_overlap a b = subjects_overlap a b"
  using validate_subject_toks(4,6) [OF assms(1)] validate_subject_toks(4,6) [OF assms(2)]
  by (simp add: proto_subjects_overlap_def overlap_tokens_toverlap subjects_overlap_toks)

theorem proto_overlap_agrees_witness:
  "proto_subjects_overlap [97, 46, 62] [97, 46, 42] \<and> subjects_overlap [97, 46, 62] [97, 46, 42]"
proof -
  have "validate_subject [97, 46, 62] = Inr ()" "validate_subject [97, 46, 42] = Inr ()"
    "proto_subjects_overlap [97, 46, 62] [97, 46, 42]" by code_simp+
  then show ?thesis using proto_overlap_agrees by blast
qed

end
