(* ===== verification/Proto_Codes.thy ===== *)
theory Proto_Codes
  imports Arbitro_Prelude
begin

text \<open>
  The numbers that travel on the wire: the action codes of
  \<^verbatim>\<open>arbitro-proto/src/action.rs\<close>, the error codes of \<^verbatim>\<open>arbitro-proto/src/error.rs\<close>
  and their decoding.
\<close>

type_synonym u16 = nat

section \<open>Actions\<close>

datatype action =
    Publish
  | PublishBatch
  | PublishWithReply
  | Hello
  | Auth
  | Deliver
  | Ack
  | Nack
  | RepOk
  | RepError
  | RepBatch
  | BatchAck
  | FanoutBatch
  | BatchNack
  | AckTerm
  | Subscribe
  | Unsubscribe
  | SubscribeBatch
  | RepSubscribeBatch
  | CreateStream
  | DeleteStream
  | GetStream
  | ListStreams
  | PurgeStream
  | DrainSubject
  | DeleteMessage
  | CreateConsumer
  | DeleteConsumer
  | GetConsumer
  | ListConsumers
  | ConsumerStats
  | PauseConsumer
  | ResumeConsumer
  | Ping
  | Pong
  | Disconnect
  | PublishDelayed
  | CreateCron
  | DeleteCron
  | ListCrons
  | CronFire
  | CronAck
  | AckStateReq
  | AckStateRep
  | AckBatch
  | AckBatchResp

primrec action_as_u16 :: "action \<Rightarrow> u16" where
  "action_as_u16 Publish = 0x0101"
| "action_as_u16 PublishBatch = 0x0103"
| "action_as_u16 PublishWithReply = 0x0104"
| "action_as_u16 Hello = 0x0001"
| "action_as_u16 Auth = 0x0002"
| "action_as_u16 Deliver = 0x0200"
| "action_as_u16 Ack = 0x0201"
| "action_as_u16 Nack = 0x0202"
| "action_as_u16 RepOk = 0x0203"
| "action_as_u16 RepError = 0x0204"
| "action_as_u16 RepBatch = 0x0205"
| "action_as_u16 BatchAck = 0x0206"
| "action_as_u16 FanoutBatch = 0x0207"
| "action_as_u16 BatchNack = 0x020A"
| "action_as_u16 AckTerm = 0x020B"
| "action_as_u16 Subscribe = 0x0301"
| "action_as_u16 Unsubscribe = 0x0302"
| "action_as_u16 SubscribeBatch = 0x0303"
| "action_as_u16 RepSubscribeBatch = 0x0304"
| "action_as_u16 CreateStream = 0x0401"
| "action_as_u16 DeleteStream = 0x0402"
| "action_as_u16 GetStream = 0x0403"
| "action_as_u16 ListStreams = 0x0404"
| "action_as_u16 PurgeStream = 0x0405"
| "action_as_u16 DrainSubject = 0x0406"
| "action_as_u16 DeleteMessage = 0x0407"
| "action_as_u16 CreateConsumer = 0x0501"
| "action_as_u16 DeleteConsumer = 0x0502"
| "action_as_u16 GetConsumer = 0x0503"
| "action_as_u16 ListConsumers = 0x0504"
| "action_as_u16 ConsumerStats = 0x0505"
| "action_as_u16 PauseConsumer = 0x0506"
| "action_as_u16 ResumeConsumer = 0x0507"
| "action_as_u16 Ping = 0x0601"
| "action_as_u16 Pong = 0x0602"
| "action_as_u16 Disconnect = 0x0605"
| "action_as_u16 PublishDelayed = 0x0801"
| "action_as_u16 CreateCron = 0x0701"
| "action_as_u16 DeleteCron = 0x0702"
| "action_as_u16 ListCrons = 0x0703"
| "action_as_u16 CronFire = 0x0704"
| "action_as_u16 CronAck = 0x0705"
| "action_as_u16 AckStateReq = 0x0A01"
| "action_as_u16 AckStateRep = 0x0A02"
| "action_as_u16 AckBatch = 0x0A03"
| "action_as_u16 AckBatchResp = 0x0A04"

definition action_from_u16 :: "u16 \<Rightarrow> action option" where
  "action_from_u16 v = map_of [
     (0x0001, Hello), (0x0002, Auth), (0x0101, Publish), (0x0103, PublishBatch),
     (0x0104, PublishWithReply), (0x0200, Deliver), (0x0201, Ack), (0x0202, Nack),
     (0x0203, RepOk), (0x0204, RepError), (0x0205, RepBatch), (0x0206, BatchAck),
     (0x0207, FanoutBatch), (0x020A, BatchNack), (0x020B, AckTerm), (0x0301, Subscribe),
     (0x0302, Unsubscribe), (0x0303, SubscribeBatch), (0x0304, RepSubscribeBatch), (0x0401, CreateStream),
     (0x0402, DeleteStream), (0x0403, GetStream), (0x0404, ListStreams), (0x0405, PurgeStream),
     (0x0406, DrainSubject), (0x0407, DeleteMessage), (0x0501, CreateConsumer), (0x0502, DeleteConsumer),
     (0x0503, GetConsumer), (0x0504, ListConsumers), (0x0505, ConsumerStats), (0x0506, PauseConsumer),
     (0x0507, ResumeConsumer), (0x0601, Ping), (0x0602, Pong), (0x0605, Disconnect),
     (0x0801, PublishDelayed), (0x0701, CreateCron), (0x0702, DeleteCron), (0x0703, ListCrons),
     (0x0704, CronFire), (0x0705, CronAck), (0x0A01, AckStateReq), (0x0A02, AckStateRep),
     (0x0A03, AckBatch), (0x0A04, AckBatchResp)] v"

abbreviation is_hot :: "action \<Rightarrow> bool" where
  "is_hot a \<equiv> a \<in> {Publish, PublishBatch, PublishWithReply, Ack, Nack, BatchAck, BatchNack}"

definition has_subject :: "action \<Rightarrow> bool" where
  "has_subject a \<longleftrightarrow> a \<in> {Publish, PublishBatch, PublishWithReply, PublishDelayed, Subscribe}"

abbreviation is_publish :: "action \<Rightarrow> bool" where
  "is_publish a \<equiv> a \<in> {Publish, PublishBatch, PublishWithReply, PublishDelayed}"

section \<open>Error codes\<close>

datatype wire_error =
    UnknownAction
  | BufferTooShort
  | InvalidLength
  | InvalidEntryCount
  | AuthRequired
  | AuthFailed
  | StreamNotFound
  | StreamAlreadyExists
  | StreamFull
  | IdempotencyDuplicate
  | InvalidStreamFilter
  | StreamFilterConflict
  | ConsumerNotFound
  | ConsumerAlreadyExists
  | InvalidConsumerConfig
  | InvalidConsumerFilter
  | InvalidSubscriptionFilter
  | ServerShuttingDown
  | InternalError
  | Unimplemented

primrec error_as_u16 :: "wire_error \<Rightarrow> u16" where
  "error_as_u16 UnknownAction = 0x0001"
| "error_as_u16 BufferTooShort = 0x0002"
| "error_as_u16 InvalidLength = 0x0003"
| "error_as_u16 InvalidEntryCount = 0x0004"
| "error_as_u16 AuthRequired = 0x0101"
| "error_as_u16 AuthFailed = 0x0102"
| "error_as_u16 StreamNotFound = 0x0201"
| "error_as_u16 StreamAlreadyExists = 0x0202"
| "error_as_u16 StreamFull = 0x0203"
| "error_as_u16 IdempotencyDuplicate = 0x0206"
| "error_as_u16 InvalidStreamFilter = 0x0207"
| "error_as_u16 StreamFilterConflict = 0x0208"
| "error_as_u16 ConsumerNotFound = 0x0301"
| "error_as_u16 ConsumerAlreadyExists = 0x0302"
| "error_as_u16 InvalidConsumerConfig = 0x0304"
| "error_as_u16 InvalidConsumerFilter = 0x0305"
| "error_as_u16 InvalidSubscriptionFilter = 0x0306"
| "error_as_u16 ServerShuttingDown = 0x0501"
| "error_as_u16 InternalError = 0x0502"
| "error_as_u16 Unimplemented = 0x0503"

definition error_from_u16 :: "u16 \<Rightarrow> wire_error option" where
  "error_from_u16 v = map_of [
     (0x0001, UnknownAction), (0x0002, BufferTooShort), (0x0003, InvalidLength), (0x0004, InvalidEntryCount),
     (0x0101, AuthRequired), (0x0102, AuthFailed), (0x0201, StreamNotFound), (0x0202, StreamAlreadyExists),
     (0x0203, StreamFull), (0x0206, IdempotencyDuplicate), (0x0207, InvalidStreamFilter), (0x0208, StreamFilterConflict),
     (0x0301, ConsumerNotFound), (0x0302, ConsumerAlreadyExists), (0x0304, InvalidConsumerConfig), (0x0305, InvalidConsumerFilter),
     (0x0306, InvalidSubscriptionFilter), (0x0501, ServerShuttingDown), (0x0502, InternalError), (0x0503, Unimplemented)] v"

datatype proto_error =
    PBufferTooShort u32 u32
  | PUnknownAction u16
  | PInvalidLength
  | PInvalidEntryCount
  | PAlignmentError

section \<open>Decoding\<close>

text \<open>The wire codes are a bijection between the defined actions (and errors) and the
  numbers the decoder knows: decoding the code of an action gives that action back, and
  whatever number decodes at all is the code of what it decodes to, so no two actions share
  a code and no reserved code is revived.\<close>

theorem wire_codes_roundtrip:
  "(action_from_u16 v = Some a \<longleftrightarrow> action_as_u16 a = v) \<and>
   (error_from_u16 w = Some e \<longleftrightarrow> error_as_u16 e = w)"
proof
  have "action_from_u16 (action_as_u16 a) = Some a"
    by (cases a) (simp_all add: action_from_u16_def)
  moreover have "action_as_u16 a = v" if "action_from_u16 v = Some a"
    using map_of_SomeD [OF that [unfolded action_from_u16_def]] by auto
  ultimately show "action_from_u16 v = Some a \<longleftrightarrow> action_as_u16 a = v" by blast
next
  have "error_from_u16 (error_as_u16 e) = Some e"
    by (cases e) (simp_all add: error_from_u16_def)
  moreover have "error_as_u16 e = w" if "error_from_u16 w = Some e"
    using map_of_SomeD [OF that [unfolded error_from_u16_def]] by auto
  ultimately show "error_from_u16 w = Some e \<longleftrightarrow> error_as_u16 e = w" by blast
qed

end
