(* ===== verification/Admission_Rules.thy ===== *)
theory Admission_Rules
  imports Validate Proto_Codes
begin

text \<open>
  The admission rules of \<^verbatim>\<open>arbitro-server/src/transport/rules/\<close>: what a stream, a consumer
  and a subscription must satisfy to be created.  Every rule is a pure function of the new
  filter and the filters already claimed; the \<open>on_create\<close> functions compose them in the
  order of the source.
\<close>

section \<open>Violations\<close>

datatype violation =
    StreamFilterMissing
  | StreamFilterGlobal
  | StreamFilterDuplicate
  | StreamFilterOverlap
  | StreamFilterMismatch
  | ConsumerOutsideStream
  | ConsumerNestedUnderSibling
  | SubscriptionOutsideConsumer
  | SubscriptionIdMissing

primrec wire_code :: "violation \<Rightarrow> wire_error" where
  "wire_code StreamFilterMissing = InvalidStreamFilter"
| "wire_code StreamFilterGlobal = InvalidStreamFilter"
| "wire_code StreamFilterDuplicate = StreamFilterConflict"
| "wire_code StreamFilterOverlap = StreamFilterConflict"
| "wire_code StreamFilterMismatch = StreamFilterConflict"
| "wire_code ConsumerOutsideStream = InvalidConsumerFilter"
| "wire_code ConsumerNestedUnderSibling = InvalidConsumerFilter"
| "wire_code SubscriptionOutsideConsumer = InvalidSubscriptionFilter"
| "wire_code SubscriptionIdMissing = InvalidSubscriptionFilter"

definition is_global :: "bytes \<Rightarrow> bool" where
  "is_global flt \<longleftrightarrow> flt = [] \<or> flt = [62]"

text \<open>The \<^verbatim>\<open>?\<close> operator: stop at the first error.\<close>

definition and_then :: "'e + 'a \<Rightarrow> ('a \<Rightarrow> 'e + 'b) \<Rightarrow> 'e + 'b" where
  "and_then r f = (case r of Inl e \<Rightarrow> Inl e | Inr x \<Rightarrow> f x)"

lemma and_then_Inr: "and_then r f = Inr y \<longleftrightarrow> (\<exists>x. r = Inr x \<and> f x = Inr y)"
  by (auto simp: and_then_def split: sum.splits)

section \<open>Streams\<close>

definition filter_is_declared :: "bytes \<Rightarrow> violation + unit" where
  "filter_is_declared flt = (if flt = [] then Inl StreamFilterMissing else Inr ())"

definition filter_is_not_global :: "bytes \<Rightarrow> violation + unit" where
  "filter_is_not_global flt = (if flt = [62] then Inl StreamFilterGlobal else Inr ())"

definition filter_is_not_duplicate :: "bytes \<Rightarrow> bytes list \<Rightarrow> violation + unit" where
  "filter_is_not_duplicate flt claimed =
    (if is_global flt then Inr ()
     else if flt \<in> set claimed then Inl StreamFilterDuplicate
     else Inr ())"

definition filter_does_not_overlap :: "bytes \<Rightarrow> bytes list \<Rightarrow> violation + unit" where
  "filter_does_not_overlap flt claimed =
    (if is_global flt then Inr ()
     else if list_ex (\<lambda>other. \<not> is_global other \<and> subjects_overlap other flt) claimed
       then Inl StreamFilterOverlap
     else Inr ())"

definition recreate_keeps_its_filter :: "bytes \<Rightarrow> bytes \<Rightarrow> violation + unit" where
  "recreate_keeps_its_filter flt existing =
    (if flt = [] \<or> flt = existing then Inr () else Inl StreamFilterMismatch)"

definition stream_on_create :: "bytes \<Rightarrow> bytes list \<Rightarrow> violation + unit" where
  "stream_on_create flt claimed =
     and_then (filter_is_declared flt) (\<lambda>_.
     and_then (filter_is_not_global flt) (\<lambda>_.
     and_then (filter_is_not_duplicate flt claimed) (\<lambda>_.
     and_then (filter_does_not_overlap flt claimed) (\<lambda>_. Inr ()))))"

definition stream_on_recreate :: "bytes \<Rightarrow> bytes \<Rightarrow> violation + unit" where
  "stream_on_recreate flt existing = recreate_keeps_its_filter flt existing"

section \<open>Consumers\<close>

definition inherits_the_stream_filter :: "bytes \<Rightarrow> bytes \<Rightarrow> bytes" where
  "inherits_the_stream_filter flt stream_filter = (if flt = [] then stream_filter else flt)"

definition stays_inside_its_stream :: "bytes \<Rightarrow> bytes \<Rightarrow> violation + unit" where
  "stays_inside_its_stream flt stream_filter =
    (if is_global stream_filter \<or> flt = [] then Inr ()
     else if \<not> subject_covers stream_filter flt then Inl ConsumerOutsideStream
     else Inr ())"

fun nested_under_one :: "bytes \<Rightarrow> bytes list \<Rightarrow> bool" where
  "nested_under_one flt [] = False"
| "nested_under_one flt (other # siblings) =
    (if is_global other \<or> other = flt then nested_under_one flt siblings
     else if subject_covers other flt \<or> subject_covers flt other then True
     else nested_under_one flt siblings)"

definition not_nested_under_a_sibling :: "bytes \<Rightarrow> bytes list \<Rightarrow> violation + unit" where
  "not_nested_under_a_sibling flt siblings =
    (if is_global flt then Inr ()
     else if nested_under_one flt siblings then Inl ConsumerNestedUnderSibling
     else Inr ())"

definition consumer_on_create :: "bytes \<Rightarrow> bytes \<Rightarrow> bytes list \<Rightarrow> violation + bytes" where
  "consumer_on_create flt stream_filter siblings =
     and_then (stays_inside_its_stream flt stream_filter) (\<lambda>_.
     let resolved = inherits_the_stream_filter flt stream_filter in
     and_then (not_nested_under_a_sibling resolved siblings) (\<lambda>_. Inr resolved))"

section \<open>Subscriptions\<close>

definition inherits_the_consumer_filter :: "bytes list \<Rightarrow> bytes \<Rightarrow> bytes list" where
  "inherits_the_consumer_filter filters consumer_filter =
    (if filters = [] \<and> consumer_filter \<noteq> [] then [consumer_filter] else filters)"

definition stays_inside_its_consumer :: "bytes list \<Rightarrow> bytes \<Rightarrow> violation + unit" where
  "stays_inside_its_consumer filters consumer_filter =
    (if is_global consumer_filter then Inr ()
     else if list_ex (\<lambda>f. \<not> subject_covers consumer_filter f) filters then Inl SubscriptionOutsideConsumer
     else Inr ())"

definition has_its_own_id :: "u32 \<Rightarrow> violation + unit" where
  "has_its_own_id subscription_id = (if subscription_id = 0 then Inl SubscriptionIdMissing else Inr ())"

definition subscription_on_create :: "u32 \<Rightarrow> bytes list \<Rightarrow> bytes \<Rightarrow> violation + bytes list" where
  "subscription_on_create subscription_id filters consumer_filter =
     and_then (has_its_own_id subscription_id) (\<lambda>_.
     and_then (stays_inside_its_consumer filters consumer_filter) (\<lambda>_.
     Inr (inherits_the_consumer_filter filters consumer_filter)))"

section \<open>What an accepted creation guarantees\<close>

lemmas rule_defs = stream_on_create_def filter_is_declared_def filter_is_not_global_def
  filter_is_not_duplicate_def filter_does_not_overlap_def consumer_on_create_def
  stays_inside_its_stream_def not_nested_under_a_sibling_def subscription_on_create_def
  stays_inside_its_consumer_def has_its_own_id_def

lemma stream_on_create_Inr:
  "stream_on_create flt claimed = Inr () \<longleftrightarrow> \<not> is_global flt \<and> flt \<notin> set claimed \<and>
     (\<forall>other \<in> set claimed. is_global other \<or> \<not> subjects_overlap other flt)"
  by (auto simp: rule_defs is_global_def and_then_def list_ex_iff split: if_splits)

lemma consumer_on_create_Inr:
  "consumer_on_create flt stream_filter siblings = Inr r \<longleftrightarrow>
     (is_global stream_filter \<or> flt = [] \<or> subject_covers stream_filter flt) \<and>
     r = inherits_the_stream_filter flt stream_filter \<and>
     (is_global r \<or> \<not> nested_under_one r siblings)"
  by (auto simp: rule_defs and_then_def Let_def split: if_splits)

lemma nested_under_one_iff:
  "nested_under_one flt siblings \<longleftrightarrow> (\<exists>other \<in> set siblings. \<not> is_global other \<and> other \<noteq> flt \<and>
     (subject_covers other flt \<or> subject_covers flt other))"
  by (induction siblings) auto

lemma subscription_on_create_Inr:
  "subscription_on_create sid filters consumer_filter = Inr fs \<longleftrightarrow> sid \<noteq> 0 \<and>
     (is_global consumer_filter \<or> (\<forall>f \<in> set filters. subject_covers consumer_filter f)) \<and>
     fs = inherits_the_consumer_filter filters consumer_filter"
  by (auto simp: rule_defs and_then_def list_ex_iff split: if_splits)

text \<open>A filter that covers \<open>>\<close> starts with \<open>>\<close>, so it matches every concrete subject.\<close>

lemma covers_everything:
  assumes "subject_covers w [62]" "wf_subject s"
  shows "subject_matches w s"
proof (rule subject_covers_sound [OF assms(1)])
  obtain t r where e: "next_token s = (t, r)" by fastforce
  have "toks s = t # toks r" using assms(2) toks_next [OF _ e] by (simp add: wf_subject_def)
  then have "t \<noteq> []" using assms(2) by (auto simp: wf_subject_def plain_tok_def)
  moreover have "next_token [62] = (gt_tok, [])" using next_token_last [of "[62]"] by (simp add: dot_def gt_tok_def)
  ultimately show "subject_matches [62] s" using subject_matches_step e by metis
qed

text \<open>C22. Confinement through the whole chain.  When a stream was admitted, a consumer on that
  stream and a subscription on that consumer, every concrete subject that a filter of the
  subscription matches lies in the slice of the stream.  The filters are the ones the
  registry stores: the declared ones, or the inherited ones when none were declared.  The
  subscription is checked against its consumer only, so this is the transitivity the comment
  in \<^verbatim>\<open>subscription_rules.rs\<close> relies on.\<close>

theorem subscription_confined:
  assumes "stream_on_create stream_filter claimed = Inr ()"
    and "consumer_on_create flt stream_filter siblings = Inr consumer_filter"
    and "subscription_on_create sid filters consumer_filter = Inr fs"
    and "f \<in> set fs" "subject_matches f s" "wf_subject s"
  shows "subject_matches stream_filter s"
proof -
  have g: "\<not> is_global stream_filter" using assms(1) stream_on_create_Inr by blast
  have c: "flt = [] \<or> subject_covers stream_filter flt"
    "consumer_filter = (if flt = [] then stream_filter else flt)"
    using assms(2) g unfolding consumer_on_create_Inr inherits_the_stream_filter_def by auto
  show ?thesis
  proof (cases "is_global consumer_filter")
    case True
    then have "subject_covers stream_filter [62]" using c g by (auto simp: is_global_def split: if_splits)
    then show ?thesis using covers_everything assms(6) by blast
  next
    case False
    have fs: "fs = (if filters = [] then [consumer_filter] else filters)"
      "\<forall>f \<in> set filters. subject_covers consumer_filter f"
      using assms(3) False unfolding subscription_on_create_Inr inherits_the_consumer_filter_def
      by (auto simp: is_global_def)
    have "subject_matches consumer_filter s"
      using fs assms(4,5) subject_covers_sound by (cases "filters = []") auto
    then show ?thesis using c subject_covers_sound by (cases "flt = []") auto
  qed
qed

theorem subscription_confined_witness:
  "stream_on_create [97, 46, 62] [[98]] = Inr () \<and>
   consumer_on_create [97, 46, 42] [97, 46, 62] [] = Inr [97, 46, 42] \<and>
   subscription_on_create 7 [] [97, 46, 42] = Inr [[97, 46, 42]] \<and>
   subject_matches [97, 46, 42] [97, 46, 98] \<and> subject_matches [97, 46, 62] [97, 46, 98]"
proof -
  have e: "stream_on_create [97, 46, 62] [[98]] = Inr ()"
    "consumer_on_create [97, 46, 42] [97, 46, 62] [] = Inr [97, 46, 42]"
    "subscription_on_create 7 [] [97, 46, 42] = Inr [[97, 46, 42]]"
    "subject_matches [97, 46, 42] [97, 46, 98]" "wf_subject [97, 46, 98]" by code_simp+
  show ?thesis using subscription_confined [OF e(1-3) _ e(4,5)] e by simp
qed

end
