(* ===== verification/Name_Registry.thy ===== *)
theory Name_Registry
  imports Id_Pool Admission_Rules
begin

text \<open>
  The name registry of \<^verbatim>\<open>arbitro-common/src/name_registry.rs\<close>: the translation of wire
  stream identifiers, consumer names, queue groups and client subscription numbers into the
  small identifiers of the engine.  \<open>inner\<close> is the state behind the mutex, \<open>hot\<close> the snapshot
  that the publish and ack paths read without the lock; every operation runs under the lock,
  so a run of the registry is a sequence of them.
\<close>

section \<open>State\<close>

record stream_quota =
  q_max_msgs :: u64
  q_max_bytes :: u64
  q_discard :: nat

abbreviation stream_quota_default :: stream_quota where
  "stream_quota_default \<equiv> \<lparr>q_max_msgs = 0, q_max_bytes = 0, q_discard = 0\<rparr>"

record hot_snapshot =
  h_streams_by_wire :: "(u32, u32) hmap"
  h_streams_seq_to_wire :: "u32 list"
  h_streams_idempotency_window_ms :: "u32 list"
  h_streams_replicas :: "nat list"
  h_consumer_stream :: "u32 list"
  h_stream_quotas :: "stream_quota list"

record inner =
  streams_by_wire :: "(u32, u32) hmap"
  streams_seq_to_wire :: "u32 list"
  streams_idempotency_window_ms :: "u32 list"
  streams_replicas :: "nat list"
  streams_name_by_wire :: "(u32, bytes) hmap"
  stream_quotas :: "stream_quota list"
  stream_filters :: "bytes list"
  consumer_filters :: "bytes list"
  stream_pool :: id_pool
  consumers_by_name :: "(u32 \<times> bytes, u32) hmap"
  consumer_queue :: "(u32, u32) hmap"
  consumer_stream :: "u32 list"
  consumer_deliver :: "(u32, nat \<times> u64) hmap"
  consumer_cursors :: "(u32, u64) hmap"
  consumer_pool :: id_pool
  queues_by_key :: "(u32 \<times> bytes, u32) hmap"
  next_queue :: u32
  subscriptions_by_conn :: "(u64 \<times> u32, u32) hmap"
  next_subscription :: u32

record name_registry =
  reg_inner :: inner
  reg_hot :: hot_snapshot

definition rebuild_from :: "inner \<Rightarrow> hot_snapshot" where
  "rebuild_from g =
    \<lparr>h_streams_by_wire = streams_by_wire g,
     h_streams_seq_to_wire = streams_seq_to_wire g,
     h_streams_idempotency_window_ms = streams_idempotency_window_ms g,
     h_streams_replicas = streams_replicas g,
     h_consumer_stream = consumer_stream g,
     h_stream_quotas = stream_quotas g\<rparr>"

definition hot_default :: hot_snapshot where
  "hot_default = \<lparr>h_streams_by_wire = [], h_streams_seq_to_wire = [], h_streams_idempotency_window_ms = [],
     h_streams_replicas = [], h_consumer_stream = [], h_stream_quotas = []\<rparr>"

definition consumer_stream_unset :: u32 where "consumer_stream_unset = u32_max"
definition max_idempotency_window_ms :: u32 where "max_idempotency_window_ms = 5 * 60 * 1000"
definition max_slot_count :: u32 where "max_slot_count = 4096"
definition stream_slot_full_sentinel :: u32 where "stream_slot_full_sentinel = u32_max"
abbreviation stream_collision_sentinel :: u32 where "stream_collision_sentinel \<equiv> u32_max - 1"

definition inner_new :: inner where
  "inner_new =
    \<lparr>streams_by_wire = [], streams_seq_to_wire = [], streams_idempotency_window_ms = [],
     streams_replicas = [], streams_name_by_wire = [], stream_quotas = [], stream_filters = [],
     consumer_filters = [], stream_pool = pool_new max_slot_count, consumers_by_name = [],
     consumer_queue = [], consumer_stream = [], consumer_deliver = [], consumer_cursors = [],
     consumer_pool = snd (pool_alloc (pool_new max_slot_count)), queues_by_key = [], next_queue = 1,
     subscriptions_by_conn = [], next_subscription = 1\<rparr>"

definition registry_new :: name_registry where
  "registry_new = \<lparr>reg_inner = inner_new, reg_hot = hot_default\<rparr>"

definition with_inner_swap :: "(inner \<Rightarrow> 'r \<times> inner) \<Rightarrow> name_registry \<Rightarrow> 'r \<times> name_registry" where
  "with_inner_swap f reg =
    (let (out, g) = f (reg_inner reg) in (out, \<lparr>reg_inner = g, reg_hot = rebuild_from g\<rparr>))"

text \<open>The operations that take the lock and leave the snapshot alone.\<close>

definition with_inner :: "(inner \<Rightarrow> 'r \<times> inner) \<Rightarrow> name_registry \<Rightarrow> 'r \<times> name_registry" where
  "with_inner f reg = (let (out, g) = f (reg_inner reg) in (out, reg\<lparr>reg_inner := g\<rparr>))"

definition stream_slots_available :: "name_registry \<Rightarrow> bool" where
  "stream_slots_available reg \<longleftrightarrow> has_free (stream_pool (reg_inner reg)) \<or>
     slot_count (stream_pool (reg_inner reg)) < max_slot_count"

abbreviation consumer_slots_available :: "name_registry \<Rightarrow> bool" where
  "consumer_slots_available reg \<equiv> has_free (consumer_pool (reg_inner reg)) \<or>
     slot_count (consumer_pool (reg_inner reg)) < max_slot_count"

section \<open>Streams\<close>

text \<open>The part the three constructors share: the per-stream vectors of a fresh slot.\<close>

definition fresh_stream :: "u32 \<Rightarrow> u32 \<Rightarrow> inner \<Rightarrow> inner" where
  "fresh_stream wire_id sid g =
     g\<lparr>streams_seq_to_wire := vec_put sid 0 wire_id (streams_seq_to_wire g),
       streams_idempotency_window_ms := vec_put sid 0 0 (streams_idempotency_window_ms g),
       streams_replicas := vec_put sid 1 1 (streams_replicas g)\<rparr>"

definition get_or_create_stream_inner :: "u32 \<Rightarrow> inner \<Rightarrow> (u32 \<times> bool) \<times> inner" where
  "get_or_create_stream_inner wire_id g =
    (case hm_get (streams_by_wire g) wire_id of
       Some sid \<Rightarrow> ((sid, False), g)
     | None \<Rightarrow>
       (case pool_alloc (stream_pool g) of
          (Inl _, p) \<Rightarrow> ((u32_max, False), g\<lparr>stream_pool := p\<rparr>)
        | (Inr (slot, _), p) \<Rightarrow>
            ((slot, True), fresh_stream wire_id slot
               (g\<lparr>stream_pool := p, streams_by_wire := hm_insert wire_id slot (streams_by_wire g)\<rparr>))))"

definition get_or_create_stream :: "u32 \<Rightarrow> name_registry \<Rightarrow> (u32 \<times> bool) \<times> name_registry" where
  "get_or_create_stream wire_id = with_inner_swap (get_or_create_stream_inner wire_id)"

text \<open>The name recorded for a wire identifier differs from the one expected.\<close>

definition name_collides :: "u32 \<Rightarrow> bytes \<Rightarrow> inner \<Rightarrow> bool" where
  "name_collides wire_id expected_name g \<longleftrightarrow>
    (case hm_get (streams_name_by_wire g) wire_id of Some prev \<Rightarrow> prev \<noteq> expected_name | None \<Rightarrow> False)"

definition get_or_create_stream_named_inner :: "u32 \<Rightarrow> bytes \<Rightarrow> inner \<Rightarrow> (u32 \<times> bool) \<times> inner" where
  "get_or_create_stream_named_inner wire_id expected_name g =
    (case hm_get (streams_by_wire g) wire_id of
       Some sid \<Rightarrow>
         if name_collides wire_id expected_name g then ((u32_max - 1, False), g) else ((sid, False), g)
     | None \<Rightarrow>
       (case pool_alloc (stream_pool g) of
          (Inl _, p) \<Rightarrow> ((u32_max, False), g\<lparr>stream_pool := p\<rparr>)
        | (Inr (slot, _), p) \<Rightarrow>
            ((slot, True), fresh_stream wire_id slot
               (g\<lparr>stream_pool := p, streams_by_wire := hm_insert wire_id slot (streams_by_wire g),
                  streams_name_by_wire := hm_insert wire_id expected_name (streams_name_by_wire g)\<rparr>))))"

definition get_or_create_stream_named ::
  "u32 \<Rightarrow> bytes \<Rightarrow> name_registry \<Rightarrow> (u32 \<times> bool) \<times> name_registry" where
  "get_or_create_stream_named wire_id expected_name =
     with_inner_swap (get_or_create_stream_named_inner wire_id expected_name)"

definition claimed_filters :: "inner \<Rightarrow> bytes list" where
  "claimed_filters g =
     filter (\<lambda>f. f \<noteq> [])
       (List.map_filter (\<lambda>(w, sid). vec_get (stream_filters g) sid) (streams_by_wire g))"

definition get_or_create_stream_checked_inner ::
  "u32 \<Rightarrow> bytes \<Rightarrow> bytes \<Rightarrow> (bytes \<Rightarrow> bytes list \<Rightarrow> 'e + unit) \<Rightarrow> (bytes \<Rightarrow> bytes \<Rightarrow> 'e + unit) \<Rightarrow>
   inner \<Rightarrow> ('e + u32 \<times> bool) \<times> inner" where
  "get_or_create_stream_checked_inner wire_id expected_name flt check recheck g =
    (case hm_get (streams_by_wire g) wire_id of
       Some sid \<Rightarrow>
         if name_collides wire_id expected_name g then (Inr (u32_max - 1, False), g)
         else (case recheck flt (vec_or (stream_filters g) sid []) of
            Inl e \<Rightarrow> (Inl e, g)
          | Inr _ \<Rightarrow> (Inr (sid, False), g))
     | None \<Rightarrow>
       (case check flt (claimed_filters g) of
          Inl e \<Rightarrow> (Inl e, g)
        | Inr _ \<Rightarrow>
          (case pool_alloc (stream_pool g) of
             (Inl _, p) \<Rightarrow> (Inr (u32_max, False), g\<lparr>stream_pool := p\<rparr>)
           | (Inr (slot, _), p) \<Rightarrow>
               let g1 = fresh_stream wire_id slot
                     (g\<lparr>stream_pool := p, streams_by_wire := hm_insert wire_id slot (streams_by_wire g),
                        streams_name_by_wire := hm_insert wire_id expected_name (streams_name_by_wire g)\<rparr>)
               in (Inr (slot, True), g1\<lparr>stream_filters := vec_put slot [] flt (stream_filters g1)\<rparr>))))"

definition get_or_create_stream_checked ::
  "u32 \<Rightarrow> bytes \<Rightarrow> bytes \<Rightarrow> (bytes \<Rightarrow> bytes list \<Rightarrow> 'e + unit) \<Rightarrow> (bytes \<Rightarrow> bytes \<Rightarrow> 'e + unit) \<Rightarrow>
   name_registry \<Rightarrow> ('e + u32 \<times> bool) \<times> name_registry" where
  "get_or_create_stream_checked wire_id expected_name flt check recheck =
     with_inner_swap (get_or_create_stream_checked_inner wire_id expected_name flt check recheck)"

definition set_stream_filter :: "u32 \<Rightarrow> bytes \<Rightarrow> name_registry \<Rightarrow> unit \<times> name_registry" where
  "set_stream_filter seq flt = with_inner_swap (\<lambda>g.
     ((), g\<lparr>stream_filters := vec_put seq [] flt (stream_filters g)\<rparr>))"

definition set_consumer_filter :: "u32 \<Rightarrow> bytes \<Rightarrow> name_registry \<Rightarrow> unit \<times> name_registry" where
  "set_consumer_filter cid flt = with_inner_swap (\<lambda>g.
     ((), g\<lparr>consumer_filters := vec_put cid [] flt (consumer_filters g)\<rparr>))"

definition consumer_filter :: "name_registry \<Rightarrow> u32 \<Rightarrow> bytes" where
  "consumer_filter reg cid = vec_or (consumer_filters (reg_inner reg)) cid []"

definition sibling_consumer_filters :: "name_registry \<Rightarrow> u32 \<Rightarrow> u32 \<Rightarrow> bytes list" where
  "sibling_consumer_filters reg stream except =
    (let g = reg_inner reg in
     filter (\<lambda>f. f \<noteq> [])
       (List.map_filter (vec_get (consumer_filters g))
         (filter (\<lambda>c. vec_get (consumer_stream g) c = Some stream)
           (filter (\<lambda>c. c \<noteq> except) (map snd (consumers_by_name g))))))"

definition stream_filter :: "name_registry \<Rightarrow> u32 \<Rightarrow> bytes" where
  "stream_filter reg seq = vec_or (stream_filters (reg_inner reg)) seq []"

definition stream_seq :: "name_registry \<Rightarrow> u32 \<Rightarrow> u32 option" where
  "stream_seq reg wire_id = hm_get (h_streams_by_wire (reg_hot reg)) wire_id"

definition stream_wire :: "name_registry \<Rightarrow> u32 \<Rightarrow> u32 option" where
  "stream_wire reg seq =
    (case vec_get (h_streams_seq_to_wire (reg_hot reg)) seq of
       Some w \<Rightarrow> if w \<noteq> 0 then Some w else None
     | None \<Rightarrow> None)"

abbreviation stream_name :: "name_registry \<Rightarrow> u32 \<Rightarrow> bytes option" where
  "stream_name reg seq \<equiv>
    (case stream_wire reg seq of
       None \<Rightarrow> None
     | Some wire \<Rightarrow> hm_get (streams_name_by_wire (reg_inner reg)) wire)"

fun find_consumer :: "u32 \<Rightarrow> ((u32 \<times> bytes) \<times> u32) list \<Rightarrow> (u32 \<times> bytes) option" where
  "find_consumer cid [] = None"
| "find_consumer cid ((k, v) # kvs) = (if v = cid then Some k else find_consumer cid kvs)"

abbreviation consumer_name :: "name_registry \<Rightarrow> u32 \<Rightarrow> bytes option" where
  "consumer_name reg cid \<equiv> map_option snd (find_consumer cid (consumers_by_name (reg_inner reg)))"

definition remove_stream_inner :: "u32 \<Rightarrow> inner \<Rightarrow> u32 option \<times> inner" where
  "remove_stream_inner wire_id g =
    (case hm_get (streams_by_wire g) wire_id of
       None \<Rightarrow> (None, g)
     | Some removed \<Rightarrow>
       (Some removed,
        g\<lparr>streams_by_wire := hm_remove wire_id (streams_by_wire g),
          streams_name_by_wire := hm_remove wire_id (streams_name_by_wire g),
          streams_seq_to_wire := (streams_seq_to_wire g)[removed := 0],
          streams_idempotency_window_ms := (streams_idempotency_window_ms g)[removed := 0],
          streams_replicas := (streams_replicas g)[removed := 0],
          stream_filters := (stream_filters g)[removed := []],
          stream_pool := snd (pool_free removed (stream_pool g))\<rparr>))"

definition remove_stream :: "u32 \<Rightarrow> name_registry \<Rightarrow> u32 option \<times> name_registry" where
  "remove_stream wire_id = with_inner_swap (remove_stream_inner wire_id)"

abbreviation is_stream_current :: "name_registry \<Rightarrow> u32 \<Rightarrow> u32 \<Rightarrow> bool" where
  "is_stream_current reg sid g \<equiv> is_current (stream_pool (reg_inner reg)) sid g"

abbreviation stream_generation :: "name_registry \<Rightarrow> u32 \<Rightarrow> u32 option" where
  "stream_generation reg sid \<equiv> generation (stream_pool (reg_inner reg)) sid"

definition set_stream_idempotency :: "u32 \<Rightarrow> u32 \<Rightarrow> name_registry \<Rightarrow> unit \<times> name_registry" where
  "set_stream_idempotency seq window_ms =
    (let clamped = min window_ms max_idempotency_window_ms in
     with_inner_swap (\<lambda>g. ((), g\<lparr>streams_idempotency_window_ms :=
       vec_put seq 0 clamped (streams_idempotency_window_ms g)\<rparr>)))"

abbreviation stream_idempotency_window_ms :: "name_registry \<Rightarrow> u32 \<Rightarrow> u32" where
  "stream_idempotency_window_ms reg seq \<equiv> vec_or (h_streams_idempotency_window_ms (reg_hot reg)) seq 0"

definition set_stream_replicas :: "u32 \<Rightarrow> nat \<Rightarrow> name_registry \<Rightarrow> unit \<times> name_registry" where
  "set_stream_replicas seq replicas = with_inner_swap (\<lambda>g.
     ((), g\<lparr>streams_replicas := vec_put seq 1 (max replicas 1) (streams_replicas g)\<rparr>))"

abbreviation stream_replicas :: "name_registry \<Rightarrow> u32 \<Rightarrow> nat" where
  "stream_replicas reg seq \<equiv> vec_or (h_streams_replicas (reg_hot reg)) seq 1"

definition set_stream_quota :: "u32 \<Rightarrow> u64 \<Rightarrow> u64 \<Rightarrow> nat \<Rightarrow> name_registry \<Rightarrow> unit \<times> name_registry" where
  "set_stream_quota seq max_msgs max_bytes discard = with_inner_swap (\<lambda>g.
     ((), g\<lparr>stream_quotas := vec_put seq stream_quota_default
       \<lparr>q_max_msgs = max_msgs, q_max_bytes = max_bytes, q_discard = discard\<rparr> (stream_quotas g)\<rparr>))"

abbreviation stream_quota_of :: "name_registry \<Rightarrow> u32 \<Rightarrow> stream_quota option" where
  "stream_quota_of reg seq \<equiv> vec_get (h_stream_quotas (reg_hot reg)) seq"

section \<open>Consumers\<close>

definition get_or_create_consumer_inner :: "u32 \<Rightarrow> bytes \<Rightarrow> inner \<Rightarrow> (u32 \<times> bool) \<times> inner" where
  "get_or_create_consumer_inner stream name g =
    (case hm_get (consumers_by_name g) (stream, name) of
       Some cid \<Rightarrow> ((cid, False), g)
     | None \<Rightarrow>
       (case pool_alloc (consumer_pool g) of
          (Inl _, p) \<Rightarrow> ((u32_max, False), g\<lparr>consumer_pool := p\<rparr>)
        | (Inr (slot, _), p) \<Rightarrow>
            ((slot, True),
             g\<lparr>consumer_pool := p,
               consumers_by_name := hm_insert (stream, name) slot (consumers_by_name g),
               consumer_stream := (if slot \<ge> length (consumer_stream g)
                 then vec_resize (consumer_stream g) (slot + 1) consumer_stream_unset
                 else consumer_stream g)\<rparr>)))"

definition get_or_create_consumer ::
  "u32 \<Rightarrow> bytes \<Rightarrow> name_registry \<Rightarrow> (u32 \<times> bool) \<times> name_registry" where
  "get_or_create_consumer stream name = with_inner_swap (get_or_create_consumer_inner stream name)"

definition consumer_id_of :: "name_registry \<Rightarrow> u32 \<Rightarrow> bytes \<Rightarrow> u32 option" where
  "consumer_id_of reg stream name = hm_get (consumers_by_name (reg_inner reg)) (stream, name)"

text \<open>The clean-up the two removals share.\<close>

definition forget_consumer :: "u32 \<times> bytes \<Rightarrow> u32 \<Rightarrow> inner \<Rightarrow> inner" where
  "forget_consumer key cid g =
     g\<lparr>consumers_by_name := hm_remove key (consumers_by_name g),
       consumer_queue := hm_remove cid (consumer_queue g),
       consumer_stream := (consumer_stream g)[cid := consumer_stream_unset],
       consumer_deliver := hm_remove cid (consumer_deliver g),
       consumer_cursors := hm_remove cid (consumer_cursors g),
       consumer_pool := snd (pool_free cid (consumer_pool g))\<rparr>"

definition remove_consumer_inner :: "u32 \<Rightarrow> bytes \<Rightarrow> inner \<Rightarrow> u32 option \<times> inner" where
  "remove_consumer_inner stream name g =
    (case hm_get (consumers_by_name g) (stream, name) of
       None \<Rightarrow> (None, g)
     | Some removed \<Rightarrow> (Some removed, forget_consumer (stream, name) removed g))"

definition remove_consumer :: "u32 \<Rightarrow> bytes \<Rightarrow> name_registry \<Rightarrow> u32 option \<times> name_registry" where
  "remove_consumer stream name = with_inner_swap (remove_consumer_inner stream name)"

abbreviation is_consumer_current :: "name_registry \<Rightarrow> u32 \<Rightarrow> u32 \<Rightarrow> bool" where
  "is_consumer_current reg cid g \<equiv> is_current (consumer_pool (reg_inner reg)) cid g"

abbreviation consumer_generation :: "name_registry \<Rightarrow> u32 \<Rightarrow> u32 option" where
  "consumer_generation reg cid \<equiv> generation (consumer_pool (reg_inner reg)) cid"

definition registry_consumers_for_stream :: "name_registry \<Rightarrow> u32 \<Rightarrow> u32 list" where
  "registry_consumers_for_stream reg target =
    (let cs = consumer_stream (reg_inner reg) in
     filter (\<lambda>i. cs ! i \<noteq> consumer_stream_unset \<and> cs ! i = target) [0..<length cs])"

definition remove_consumer_by_id_inner :: "u32 \<Rightarrow> inner \<Rightarrow> bytes option \<times> inner" where
  "remove_consumer_by_id_inner cid g =
    (case find_consumer cid (consumers_by_name g) of
       None \<Rightarrow> (None, g)
     | Some key \<Rightarrow> (Some (snd key), forget_consumer key cid g))"

definition remove_consumer_by_id :: "u32 \<Rightarrow> name_registry \<Rightarrow> bytes option \<times> name_registry" where
  "remove_consumer_by_id cid = with_inner_swap (remove_consumer_by_id_inner cid)"

section \<open>Queues and subscriptions\<close>

definition get_or_create_queue :: "u32 \<Rightarrow> bytes \<Rightarrow> name_registry \<Rightarrow> u32 \<times> name_registry" where
  "get_or_create_queue stream grp = with_inner (\<lambda>g.
    (case hm_get (queues_by_key g) (stream, grp) of
       Some qid \<Rightarrow> (qid, g)
     | None \<Rightarrow> (next_queue g,
         g\<lparr>next_queue := u32_add (next_queue g) 1,
           queues_by_key := hm_insert (stream, grp) (next_queue g) (queues_by_key g)\<rparr>)))"

definition resolve_subscription :: "u64 \<Rightarrow> u32 \<Rightarrow> name_registry \<Rightarrow> u32 \<times> name_registry" where
  "resolve_subscription connection_id client_id = with_inner (\<lambda>g.
    (case hm_get (subscriptions_by_conn g) (connection_id, client_id) of
       Some sid \<Rightarrow> (sid, g)
     | None \<Rightarrow> (next_subscription g,
         g\<lparr>next_subscription := u32_add (next_subscription g) 1,
           subscriptions_by_conn :=
             hm_insert (connection_id, client_id) (next_subscription g) (subscriptions_by_conn g)\<rparr>)))"

definition drop_connection_subscriptions :: "u64 \<Rightarrow> name_registry \<Rightarrow> unit \<times> name_registry" where
  "drop_connection_subscriptions connection_id = with_inner (\<lambda>g.
     ((), g\<lparr>subscriptions_by_conn :=
        filter (\<lambda>((conn, _), _). conn \<noteq> connection_id) (subscriptions_by_conn g)\<rparr>))"

definition set_consumer_queue :: "u32 \<Rightarrow> u32 \<Rightarrow> name_registry \<Rightarrow> unit \<times> name_registry" where
  "set_consumer_queue consumer queue = with_inner (\<lambda>g.
     ((), g\<lparr>consumer_queue := hm_insert consumer queue (consumer_queue g)\<rparr>))"

definition set_consumer_stream :: "u32 \<Rightarrow> u32 \<Rightarrow> name_registry \<Rightarrow> unit \<times> name_registry" where
  "set_consumer_stream consumer stream = with_inner_swap (\<lambda>g.
     ((), g\<lparr>consumer_stream := vec_put consumer consumer_stream_unset stream (consumer_stream g)\<rparr>))"

abbreviation consumer_queue_of :: "name_registry \<Rightarrow> u32 \<Rightarrow> u32 option" where
  "consumer_queue_of reg consumer \<equiv> hm_get (consumer_queue (reg_inner reg)) consumer"

abbreviation consumer_stream_of :: "name_registry \<Rightarrow> u32 \<Rightarrow> u32 option" where
  "consumer_stream_of reg consumer \<equiv>
    (case vec_get (h_consumer_stream (reg_hot reg)) consumer of
       None \<Rightarrow> None
     | Some slot \<Rightarrow> if slot = consumer_stream_unset then None else Some slot)"

definition set_consumer_deliver_policy :: "u32 \<Rightarrow> nat \<Rightarrow> u64 \<Rightarrow> name_registry \<Rightarrow> unit \<times> name_registry" where
  "set_consumer_deliver_policy consumer policy start_seq = with_inner (\<lambda>g.
     ((), g\<lparr>consumer_deliver := hm_insert consumer (policy, start_seq) (consumer_deliver g)\<rparr>))"

abbreviation consumer_deliver_policy :: "name_registry \<Rightarrow> u32 \<Rightarrow> (nat \<times> u64) option" where
  "consumer_deliver_policy reg consumer \<equiv> hm_get (consumer_deliver (reg_inner reg)) consumer"

definition set_consumer_cursor :: "u32 \<Rightarrow> u64 \<Rightarrow> name_registry \<Rightarrow> unit \<times> name_registry" where
  "set_consumer_cursor consumer last_acked_seq = with_inner (\<lambda>g.
     ((), g\<lparr>consumer_cursors := hm_insert consumer last_acked_seq (consumer_cursors g)\<rparr>))"

definition consumer_cursor :: "name_registry \<Rightarrow> u32 \<Rightarrow> u64 option" where
  "consumer_cursor reg consumer = hm_get (consumer_cursors (reg_inner reg)) consumer"

abbreviation consumer_cursors_snapshot :: "name_registry \<Rightarrow> (u32 \<times> u64) list" where
  "consumer_cursors_snapshot reg \<equiv> consumer_cursors (reg_inner reg)"

end
