(* ===== verification/Registry_Inv.thy ===== *)
theory Registry_Inv
  imports Name_Registry "HOL-Library.Code_Target_Nat"
begin

text \<open>
  The invariant of the name registry and its runs.  A run starts from the empty registry and
  applies any of its operations in any order; streams are created by the checked constructor
  with the admission rules, or by the unchecked constructors that recovery uses.  The flag of
  the step relation says whether \<^verbatim>\<open>set_stream_filter\<close>, which recovery uses to put a recorded
  filter back without a check, may occur.
\<close>

section \<open>Runs\<close>

inductive reg_step :: "bool \<Rightarrow> name_registry \<Rightarrow> name_registry \<Rightarrow> bool" for replaying where
  create_stream: "reg_step replaying reg (snd (get_or_create_stream w reg))"
| create_named: "reg_step replaying reg (snd (get_or_create_stream_named w name reg))"
| create_checked: "reg_step replaying reg
    (snd (get_or_create_stream_checked w name flt stream_on_create stream_on_recreate reg))"
| replay_filter: "replaying \<Longrightarrow> reg_step replaying reg (snd (set_stream_filter seq flt reg))"
| remove_stream: "reg_step replaying reg (snd (remove_stream w reg))"
| idempotency: "reg_step replaying reg (snd (set_stream_idempotency seq ms reg))"
| replicas: "reg_step replaying reg (snd (set_stream_replicas seq n reg))"
| quota: "reg_step replaying reg (snd (set_stream_quota seq a b d reg))"
| create_consumer: "reg_step replaying reg (snd (get_or_create_consumer stream name reg))"
| remove_consumer: "reg_step replaying reg (snd (remove_consumer stream name reg))"
| remove_by_id: "reg_step replaying reg (snd (remove_consumer_by_id cid reg))"
| consumer_filter: "reg_step replaying reg (snd (set_consumer_filter cid flt reg))"
| consumer_stream: "reg_step replaying reg (snd (set_consumer_stream cid stream reg))"
| consumer_queue: "reg_step replaying reg (snd (set_consumer_queue cid q reg))"
| deliver_policy: "reg_step replaying reg (snd (set_consumer_deliver_policy cid pol start reg))"
| cursor: "reg_step replaying reg (snd (set_consumer_cursor cid s reg))"
| queue: "next_queue (reg_inner reg) < u32_max \<Longrightarrow>
    reg_step replaying reg (snd (get_or_create_queue stream grp reg))"
| subscription: "next_subscription (reg_inner reg) < u32_max \<Longrightarrow>
    reg_step replaying reg (snd (resolve_subscription conn client reg))"
| disconnect: "reg_step replaying reg (snd (drop_connection_subscriptions conn reg))"

inductive reg_reach :: "bool \<Rightarrow> name_registry \<Rightarrow> bool" for replaying where
  init: "reg_reach replaying registry_new"
| step: "reg_reach replaying reg \<Longrightarrow> reg_step replaying reg reg' \<Longrightarrow> reg_reach replaying reg'"

lemma sum_prod_cases:
  obtains (Inl) e p where "x = (Inl e, p)" | (Inr) s g p where "x = (Inr (s, g), p)"
  by (metis old.prod.exhaust sum.exhaust)

section \<open>Invariant\<close>

text \<open>A table that hands out identifiers from a counter.\<close>

definition counter_ok :: "('k, u32) hmap \<Rightarrow> u32 \<Rightarrow> bool" where
  "counter_ok tbl n \<longleftrightarrow> 0 < n \<and> (\<forall>k x. hm_get tbl k = Some x \<longrightarrow> 0 < x \<and> x < n) \<and>
     (\<forall>k k' x. hm_get tbl k = Some x \<and> hm_get tbl k' = Some x \<longrightarrow> k = k')"

definition streams_ok :: "inner \<Rightarrow> bool" where
  "streams_ok g \<longleftrightarrow> ip.table_ok {} (streams_by_wire g) (stream_pool g) \<and>
     max_slots (stream_pool g) = max_slot_count \<and>
     (\<forall>w sid. hm_get (streams_by_wire g) w = Some sid \<longrightarrow> vec_get (streams_seq_to_wire g) sid = Some w) \<and>
     (\<forall>sid. sid \<notin> pool_live (stream_pool g) \<longrightarrow> vec_or (streams_seq_to_wire g) sid 0 = 0)"

definition consumers_ok :: "inner \<Rightarrow> bool" where
  "consumers_ok g \<longleftrightarrow> hm_ok (consumers_by_name g) \<and>
     ip.table_ok {0} (consumers_by_name g) (consumer_pool g) \<and>
     max_slots (consumer_pool g) = max_slot_count"

definition filters_ok :: "inner \<Rightarrow> bool" where
  "filters_ok g \<longleftrightarrow>
     (\<forall>sid. sid \<notin> pool_live (stream_pool g) \<longrightarrow> vec_or (stream_filters g) sid [] = []) \<and>
     (\<forall>sid. vec_or (stream_filters g) sid [] \<noteq> [62]) \<and>
     (\<forall>x y s. x \<noteq> y \<longrightarrow> vec_or (stream_filters g) x [] \<noteq> [] \<longrightarrow> vec_or (stream_filters g) y [] \<noteq> [] \<longrightarrow>
        \<not> (subject_matches (vec_or (stream_filters g) x []) s \<and>
            subject_matches (vec_or (stream_filters g) y []) s))"

definition inner_inv :: "bool \<Rightarrow> inner \<Rightarrow> bool" where
  "inner_inv replaying g \<longleftrightarrow> streams_ok g \<and> consumers_ok g \<and> (replaying \<or> filters_ok g) \<and>
     counter_ok (queues_by_key g) (next_queue g) \<and>
     counter_ok (subscriptions_by_conn g) (next_subscription g)"

definition reg_inv :: "bool \<Rightarrow> name_registry \<Rightarrow> bool" where
  "reg_inv replaying reg \<longleftrightarrow> reg_hot reg = rebuild_from (reg_inner reg) \<and> inner_inv replaying (reg_inner reg)"

lemma counter_ok_new: "counter_ok [] 1"
  by (simp add: counter_ok_def)

lemma counter_ok_insert:
  assumes "counter_ok tbl n" "hm_get tbl k = None" "n < u32_max"
  shows "counter_ok (hm_insert k n tbl) (u32_add n 1)"
proof -
  have "u32_add n 1 = n + 1" using assms(3) by (simp add: u32_max_def)
  moreover have "hm_get tbl k' \<noteq> Some n" for k' using assms(1) by (force simp: counter_ok_def)
  ultimately show ?thesis using assms(1,2)
    by (auto simp: counter_ok_def hm_get_insert less_Suc_eq split: if_splits)
qed

lemma hm_get_filter_fst:
  "hm_get (filter (\<lambda>kv. P (fst kv)) m) k = (if P k then hm_get m k else None)"
  by (induction m) (auto simp: hm_get_def)

lemma counter_ok_filter:
  assumes "counter_ok tbl n"
  shows "counter_ok (filter (\<lambda>kv. P (fst kv)) tbl) n"
  using assms by (auto simp: counter_ok_def hm_get_filter_fst split: if_splits)

text \<open>Steps that leave one part of the state alone keep its part of the invariant.\<close>

lemma streams_ok_cong:
  assumes "streams_ok g" "streams_by_wire g' = streams_by_wire g" "stream_pool g' = stream_pool g"
    "streams_seq_to_wire g' = streams_seq_to_wire g"
  shows "streams_ok g'"
  using assms by (simp add: streams_ok_def)

lemma consumers_ok_cong:
  assumes "consumers_ok g" "consumers_by_name g' = consumers_by_name g" "consumer_pool g' = consumer_pool g"
  shows "consumers_ok g'"
  using assms by (simp add: consumers_ok_def)

lemma filters_ok_cong:
  assumes "filters_ok g" "stream_filters g' = stream_filters g" "stream_pool g' = stream_pool g"
  shows "filters_ok g'"
  using assms by (simp add: filters_ok_def)

lemma streams_ok_fresh:
  assumes "streams_ok g" "hm_get (streams_by_wire g) w = None" "pool_alloc (stream_pool g) = (Inr (slot, e), p)"
  shows "streams_ok (fresh_stream w slot
    (g\<lparr>stream_pool := p, streams_by_wire := hm_insert w slot (streams_by_wire g)\<rparr>))"
proof -
  have t: "ip.table_ok {} (streams_by_wire g) (stream_pool g)" using assms(1) by (simp add: streams_ok_def)
  have a: "slot \<notin> pool_live (stream_pool g)" "pool_live p = insert slot (pool_live (stream_pool g))"
    "max_slots p = max_slots (stream_pool g)"
    using pool_alloc_ok [OF _ assms(3)] t by (auto simp: ip.table_ok_def)
  have other: "sid \<noteq> slot" if "hm_get (streams_by_wire g) w' = Some sid" for w' sid
    using ip.table_okD(1) [OF t that] a(1) by blast
  have seq: "vec_get (streams_seq_to_wire g) sid = Some w'" if "hm_get (streams_by_wire g) w' = Some sid" for w' sid
    using assms(1) that by (simp add: streams_ok_def)
  have "vec_get (vec_put slot 0 w (streams_seq_to_wire g)) sid = Some w'"
    if h: "hm_get (hm_insert w slot (streams_by_wire g)) w' = Some sid" for w' sid
  proof (cases "w' = w")
    case False
    then have h': "hm_get (streams_by_wire g) w' = Some sid" using h by (simp add: hm_get_insert)
    then show ?thesis using seq [OF h'] other [OF h'] by (simp add: vec_get_put vec_get_Some_iff)
  qed (use h in \<open>simp add: hm_get_insert vec_get_put\<close>)
  moreover have "vec_or (vec_put slot 0 w (streams_seq_to_wire g)) sid 0 = 0" if "sid \<notin> pool_live p" for sid
    using that a(2) assms(1) by (simp add: vec_or_put streams_ok_def)
  ultimately show ?thesis
    using assms(1) ip.table_claim [OF t assms(2,3)] a(3)
    unfolding streams_ok_def fresh_stream_def by simp
qed

lemma streams_ok_remove:
  assumes "streams_ok g"
  shows "streams_ok (snd (remove_stream_inner w g))"
proof (cases "hm_get (streams_by_wire g) w")
  case None
  then show ?thesis using assms by (simp add: remove_stream_inner_def)
next
  case (Some sid)
  have t: "ip.table_ok {} (streams_by_wire g) (stream_pool g)" using assms by (simp add: streams_ok_def)
  obtain p' where p': "pool_free sid (stream_pool g) = (Inr (), p')" "pool_live p' = pool_live (stream_pool g) - {sid}"
    "ip.table_ok {} (hm_remove w (streams_by_wire g)) p'"
    using ip.table_drop [OF t Some] by blast
  have m: "max_slots p' = max_slots (stream_pool g)"
    using pool_free_Inr(4) p'(1) t by (auto simp: ip.table_ok_def)
  have other: "sid' \<noteq> sid" if "hm_get (streams_by_wire g) w' = Some sid'" "w' \<noteq> w" for w' sid'
    using ip.table_okD(3) [OF t Some] that by blast
  have seq: "vec_get (streams_seq_to_wire g) sid' = Some w'" if "hm_get (streams_by_wire g) w' = Some sid'" for w' sid'
    using assms that by (simp add: streams_ok_def)
  have "vec_get ((streams_seq_to_wire g)[sid := 0]) sid' = Some w'"
    if h: "hm_get (hm_remove w (streams_by_wire g)) w' = Some sid'" for w' sid'
  proof -
    have h': "w' \<noteq> w" "hm_get (streams_by_wire g) w' = Some sid'" using h by (auto simp: hm_get_remove split: if_splits)
    then show ?thesis using seq [OF h'(2)] other [OF h'(2,1)] by (simp add: vec_get_def split: if_splits)
  qed
  moreover have "vec_or ((streams_seq_to_wire g)[sid := 0]) sid' 0 = 0" if "sid' \<notin> pool_live p'" for sid'
    using that p'(2) assms seq [OF Some] by (auto simp: vec_or_update streams_ok_def vec_get_Some_iff)
  ultimately show ?thesis
    using assms p' m unfolding streams_ok_def remove_stream_inner_def Some by simp
qed

lemma consumers_ok_forget:
  assumes "consumers_ok g" "hm_get (consumers_by_name g) key = Some cid"
  shows "consumers_ok (forget_consumer key cid g)"
proof -
  have t: "ip.table_ok {0} (consumers_by_name g) (consumer_pool g)" using assms(1) by (simp add: consumers_ok_def)
  obtain p' where p': "pool_free cid (consumer_pool g) = (Inr (), p')"
    "ip.table_ok {0} (hm_remove key (consumers_by_name g)) p'"
    using ip.table_drop [OF t assms(2)] by blast
  have m: "max_slots p' = max_slots (consumer_pool g)"
    using pool_free_Inr(4) p'(1) t by (auto simp: ip.table_ok_def)
  show ?thesis using assms(1) p' m by (simp add: consumers_ok_def forget_consumer_def hm_ok_remove)
qed

lemma find_consumer_Some: "find_consumer cid kvs = Some k \<Longrightarrow> (k, cid) \<in> set kvs"
  by (induction kvs rule: find_consumer.induct) (auto split: if_splits)

lemma consumers_ok_create:
  assumes "consumers_ok g"
  shows "consumers_ok (snd (get_or_create_consumer_inner stream name g))"
proof -
  have t: "ip.table_ok {0} (consumers_by_name g) (consumer_pool g)" using assms by (simp add: consumers_ok_def)
  have ok: "pool_ok (consumer_pool g)" using t by (simp add: ip.table_ok_def)
  show ?thesis
  proof (cases "hm_get (consumers_by_name g) (stream, name)")
    case None
    show ?thesis
    proof (cases "pool_alloc (consumer_pool g)")
      case (Pair r p)
      show ?thesis
      proof (cases r)
        case (Inl e)
        then have "p = consumer_pool g" using pool_alloc_Inl(2) [OF ok] Pair by simp
        then show ?thesis using None Pair Inl assms by (simp add: get_or_create_consumer_inner_def)
      next
        case (Inr h)
        obtain slot e where h: "h = (slot, e)" by (cases h)
        have al: "pool_alloc (consumer_pool g) = (Inr (slot, e), p)" using Pair Inr h by simp
        show ?thesis
          using None al assms ip.table_claim [OF t None al] pool_alloc_ok [OF ok al]
          by (simp add: get_or_create_consumer_inner_def consumers_ok_def hm_ok_insert)
      qed
    qed
  qed (simp add: get_or_create_consumer_inner_def assms)
qed

text \<open>The filters: a checked creation puts a filter that no claimed one overlaps into a slot that
  was free, a removal clears the slot.\<close>

lemma claimed_filters_live:
  assumes "streams_ok g" "sid \<in> pool_live (stream_pool g)" "vec_or (stream_filters g) sid [] \<noteq> []"
  shows "vec_or (stream_filters g) sid [] \<in> set (claimed_filters g)"
proof -
  obtain w where "hm_get (streams_by_wire g) w = Some sid"
    using assms(1,2) unfolding streams_ok_def ip.table_ok_def by blast
  then have w: "(w, sid) \<in> set (streams_by_wire g)" by (simp add: hm_get_def map_of_SomeD)
  have "vec_get (stream_filters g) sid = Some (vec_or (stream_filters g) sid [])"
    using assms(3) by (auto simp: vec_or_def vec_get_def split: if_splits)
  then show ?thesis using w assms(3) unfolding claimed_filters_def List.map_filter_def by force
qed

lemma filters_ok_put:
  assumes "filters_ok g" "streams_ok g" "slot \<notin> pool_live (stream_pool g)"
    and "stream_on_create flt (claimed_filters g) = Inr ()"
    and "stream_filters g' = vec_put slot [] flt (stream_filters g)"
    and "pool_live (stream_pool g') = insert slot (pool_live (stream_pool g))"
  shows "filters_ok g'"
proof -
  have c: "flt \<noteq> [62]" "\<And>other. other \<in> set (claimed_filters g) \<Longrightarrow> is_global other \<or> \<not> subjects_overlap other flt"
    using assms(4) unfolding stream_on_create_Inr by (auto simp: is_global_def)
  have f: "vec_or (stream_filters g') x [] = (if x = slot then flt else vec_or (stream_filters g) x [])" for x
    using assms(5) by (simp add: vec_or_put)
  have apart: "\<not> (subject_matches (vec_or (stream_filters g) x []) s \<and> subject_matches flt s)"
    if x: "x \<noteq> slot" "vec_or (stream_filters g) x [] \<noteq> []" for x s
  proof -
    have "x \<in> pool_live (stream_pool g)" using assms(1) x(2) unfolding filters_ok_def by blast
    then have "vec_or (stream_filters g) x [] \<in> set (claimed_filters g)"
      using claimed_filters_live assms(2) x(2) by blast
    moreover have "\<not> is_global (vec_or (stream_filters g) x [])"
      using assms(1) x(2) unfolding filters_ok_def is_global_def by blast
    ultimately show ?thesis using c(2) subjects_overlap_sound by blast
  qed
  show ?thesis unfolding filters_ok_def f assms(6)
  proof (intro conjI allI impI)
    fix sid assume "sid \<notin> insert slot (pool_live (stream_pool g))"
    then show "(if sid = slot then flt else vec_or (stream_filters g) sid []) = []"
      using assms(1) by (simp add: filters_ok_def)
  next
    fix sid show "(if sid = slot then flt else vec_or (stream_filters g) sid []) \<noteq> [62]"
      using assms(1) c(1) by (simp add: filters_ok_def)
  next
    fix x y s assume "x \<noteq> y" "(if x = slot then flt else vec_or (stream_filters g) x []) \<noteq> []"
      "(if y = slot then flt else vec_or (stream_filters g) y []) \<noteq> []"
    then show "\<not> (subject_matches (if x = slot then flt else vec_or (stream_filters g) x []) s \<and>
        subject_matches (if y = slot then flt else vec_or (stream_filters g) y []) s)"
      using apart [of x s] apart [of y s] assms(1) unfolding filters_ok_def by auto
  qed
qed

lemma filters_ok_remove:
  assumes "filters_ok g" "streams_ok g"
  shows "filters_ok (snd (remove_stream_inner w g))"
proof (cases "hm_get (streams_by_wire g) w")
  case None
  then show ?thesis using assms by (simp add: remove_stream_inner_def)
next
  case (Some sid)
  have t: "ip.table_ok {} (streams_by_wire g) (stream_pool g)" using assms(2) by (simp add: streams_ok_def)
  obtain p' where p': "pool_free sid (stream_pool g) = (Inr (), p')" "pool_live p' = pool_live (stream_pool g) - {sid}"
    using ip.table_drop [OF t Some] by blast
  have f: "vec_or ((stream_filters g)[sid := []]) x [] = (if x = sid then [] else vec_or (stream_filters g) x [])" for x
    by (auto simp: vec_or_update vec_or_def)
  show ?thesis using assms(1) unfolding filters_ok_def remove_stream_inner_def Some
    by (auto simp: f p')
qed

text \<open>Creating a stream through the three constructors.\<close>

lemma streams_ok_exhausted:
  assumes "streams_ok g" "pool_alloc (stream_pool g) = (Inl e, p)"
  shows "g\<lparr>stream_pool := p\<rparr> = g"
proof -
  have "pool_ok (stream_pool g)" using assms(1) by (simp add: streams_ok_def ip.table_ok_def)
  then have "p = stream_pool g" using pool_alloc_Inl(2) assms(2) by blast
  then show ?thesis by simp
qed

lemma fresh_stream_live:
  assumes "streams_ok g" "pool_alloc (stream_pool g) = (Inr (slot, e), p)"
  shows "slot \<notin> pool_live (stream_pool g)" "pool_live p = insert slot (pool_live (stream_pool g))"
  using pool_alloc_ok [OF _ assms(2)] assms(1) by (auto simp: streams_ok_def ip.table_ok_def)

lemma filters_ok_unfiltered:
  assumes "filters_ok g" "streams_ok g" "pool_alloc (stream_pool g) = (Inr (slot, e), p)"
    "stream_filters g' = stream_filters g" "stream_pool g' = p"
  shows "filters_ok g'"
  using assms(1,4,5) fresh_stream_live [OF assms(2,3)] unfolding filters_ok_def by simp

text \<open>Preservation, operation by operation.\<close>

lemma inner_inv_stream:
  assumes "inner_inv b g" "streams_ok g'" "b \<or> filters_ok g'"
    and "consumers_by_name g' = consumers_by_name g" "consumer_pool g' = consumer_pool g"
    "queues_by_key g' = queues_by_key g" "next_queue g' = next_queue g"
    "subscriptions_by_conn g' = subscriptions_by_conn g" "next_subscription g' = next_subscription g"
  shows "inner_inv b g'"
  using assms consumers_ok_cong [of g g'] unfolding inner_inv_def by metis

lemma inner_inv_consumer:
  assumes "inner_inv b g" "consumers_ok g'"
    and "streams_by_wire g' = streams_by_wire g" "stream_pool g' = stream_pool g"
    "streams_seq_to_wire g' = streams_seq_to_wire g" "stream_filters g' = stream_filters g"
    "queues_by_key g' = queues_by_key g" "next_queue g' = next_queue g"
    "subscriptions_by_conn g' = subscriptions_by_conn g" "next_subscription g' = next_subscription g"
  shows "inner_inv b g'"
  using assms streams_ok_cong [of g g'] filters_ok_cong [of g g'] unfolding inner_inv_def by metis

lemma fresh_stream_sel [simp]:
  "streams_by_wire (fresh_stream w slot g) = streams_by_wire g"
  "stream_pool (fresh_stream w slot g) = stream_pool g"
  "stream_filters (fresh_stream w slot g) = stream_filters g"
  "consumers_by_name (fresh_stream w slot g) = consumers_by_name g"
  "consumer_pool (fresh_stream w slot g) = consumer_pool g"
  "queues_by_key (fresh_stream w slot g) = queues_by_key g"
  "next_queue (fresh_stream w slot g) = next_queue g"
  "subscriptions_by_conn (fresh_stream w slot g) = subscriptions_by_conn g"
  "next_subscription (fresh_stream w slot g) = next_subscription g"
  by (simp_all add: fresh_stream_def)

lemma streams_ok_named:
  assumes "streams_ok g" "hm_get (streams_by_wire g) w = None" "pool_alloc (stream_pool g) = (Inr (slot, e), p)"
    and "streams_by_wire g' = hm_insert w slot (streams_by_wire g)" "stream_pool g' = p"
    "streams_seq_to_wire g' = streams_seq_to_wire g"
  shows "streams_ok (fresh_stream w slot g')"
  using streams_ok_fresh [OF assms(1-3)] assms(4-6) by (simp add: streams_ok_def fresh_stream_def)

lemma inner_inv_create:
  assumes "inner_inv b g"
  shows "inner_inv b (snd (get_or_create_stream_inner w g))"
proof (cases "hm_get (streams_by_wire g) w")
  case None
  have s: "streams_ok g" using assms by (simp add: inner_inv_def)
  show ?thesis
  proof (cases "pool_alloc (stream_pool g)" rule: sum_prod_cases)
    case (Inl e p)
    then show ?thesis using None assms streams_ok_exhausted [OF s Inl]
      by (simp add: get_or_create_stream_inner_def)
  next
    case (Inr slot e p)
    let ?g = "fresh_stream w slot (g\<lparr>stream_pool := p, streams_by_wire := hm_insert w slot (streams_by_wire g)\<rparr>)"
    have "b \<or> filters_ok ?g" using assms filters_ok_unfiltered [OF _ s Inr, of ?g] by (auto simp: inner_inv_def)
    then have "inner_inv b ?g" using streams_ok_fresh [OF s None Inr] by (intro inner_inv_stream [OF assms]) simp_all
    then show ?thesis using None Inr by (simp add: get_or_create_stream_inner_def)
  qed
qed (simp add: get_or_create_stream_inner_def assms)

lemma inner_inv_create_named:
  assumes "inner_inv b g"
  shows "inner_inv b (snd (get_or_create_stream_named_inner w name g))"
proof (cases "hm_get (streams_by_wire g) w")
  case None
  have s: "streams_ok g" using assms by (simp add: inner_inv_def)
  show ?thesis
  proof (cases "pool_alloc (stream_pool g)" rule: sum_prod_cases)
    case (Inl e p)
    then show ?thesis using None assms streams_ok_exhausted [OF s Inl]
      by (simp add: get_or_create_stream_named_inner_def)
  next
    case (Inr slot e p)
    let ?g1 = "g\<lparr>stream_pool := p, streams_by_wire := hm_insert w slot (streams_by_wire g),
      streams_name_by_wire := hm_insert w name (streams_name_by_wire g)\<rparr>"
    let ?g = "fresh_stream w slot ?g1"
    have "b \<or> filters_ok ?g" using assms filters_ok_unfiltered [OF _ s Inr, of ?g] by (auto simp: inner_inv_def)
    moreover have "streams_ok ?g" by (rule streams_ok_named [OF s None Inr]) simp_all
    ultimately have "inner_inv b ?g" by (intro inner_inv_stream [OF assms]) simp_all
    then show ?thesis using None Inr by (simp add: get_or_create_stream_named_inner_def)
  qed
qed (simp add: get_or_create_stream_named_inner_def assms)

lemma inner_inv_create_checked:
  assumes "inner_inv b g"
  shows "inner_inv b (snd (get_or_create_stream_checked_inner w name flt stream_on_create recheck g))"
proof (cases "hm_get (streams_by_wire g) w")
  case None
  have s: "streams_ok g" using assms by (simp add: inner_inv_def)
  show ?thesis
  proof (cases "stream_on_create flt (claimed_filters g)")
    case (Inr u)
    note c = this
    show ?thesis
    proof (cases "pool_alloc (stream_pool g)" rule: sum_prod_cases)
      case (Inl e p)
      then show ?thesis using None c assms streams_ok_exhausted [OF s Inl]
        by (simp add: get_or_create_stream_checked_inner_def)
    next
      case (Inr slot e p)
      let ?g1 = "fresh_stream w slot (g\<lparr>stream_pool := p, streams_by_wire := hm_insert w slot (streams_by_wire g),
        streams_name_by_wire := hm_insert w name (streams_name_by_wire g)\<rparr>)"
      let ?g = "?g1\<lparr>stream_filters := vec_put slot [] flt (stream_filters ?g1)\<rparr>"
      have "streams_ok ?g1" by (rule streams_ok_named [OF s None Inr]) simp_all
      then have "streams_ok ?g" by (rule streams_ok_cong) simp_all
      moreover have "b \<or> filters_ok ?g"
        using assms filters_ok_put [OF _ s fresh_stream_live(1) [OF s Inr], of flt ?g] c fresh_stream_live(2) [OF s Inr]
        by (auto simp: inner_inv_def)
      ultimately have "inner_inv b ?g" by (intro inner_inv_stream [OF assms]) simp_all
      then show ?thesis using None c Inr by (simp add: get_or_create_stream_checked_inner_def Let_def)
    qed
  qed (simp add: get_or_create_stream_checked_inner_def None assms)
next
  case (Some sid)
  then show ?thesis using assms by (simp add: get_or_create_stream_checked_inner_def split: sum.splits)
qed

lemma inner_inv_remove_stream: "inner_inv b g \<Longrightarrow> inner_inv b (snd (remove_stream_inner w g))"
  by (rule inner_inv_stream [where g = g])
    (auto simp: inner_inv_def streams_ok_remove filters_ok_remove,
     auto simp: remove_stream_inner_def split: option.splits)

lemma inner_inv_create_consumer:
  "inner_inv b g \<Longrightarrow> inner_inv b (snd (get_or_create_consumer_inner stream name g))"
  by (rule inner_inv_consumer [where g = g])
    (auto simp: inner_inv_def consumers_ok_create,
     auto simp: get_or_create_consumer_inner_def split: option.splits sum.splits prod.splits)

lemma inner_inv_forget:
  assumes "inner_inv b g" "hm_get (consumers_by_name g) key = Some cid"
  shows "inner_inv b (forget_consumer key cid g)"
  using assms consumers_ok_forget [OF _ assms(2)]
  by (intro inner_inv_consumer [OF assms(1)]) (simp_all add: inner_inv_def forget_consumer_def)

lemma inner_inv_remove_consumer: "inner_inv b g \<Longrightarrow> inner_inv b (snd (remove_consumer_inner stream name g))"
  by (auto simp: remove_consumer_inner_def inner_inv_forget split: option.splits)

lemma inner_inv_remove_by_id: "inner_inv b g \<Longrightarrow> inner_inv b (snd (remove_consumer_by_id_inner cid g))"
proof -
  assume i: "inner_inv b g"
  have "hm_get (consumers_by_name g) key = Some cid" if "find_consumer cid (consumers_by_name g) = Some key" for key
    using find_consumer_Some [OF that] i by (simp add: hm_get_in_set inner_inv_def consumers_ok_def)
  then show ?thesis using i by (auto simp: remove_consumer_by_id_inner_def inner_inv_forget split: option.splits)
qed

lemma swap_inv:
  assumes "\<And>g. inner_inv b g \<Longrightarrow> inner_inv b (snd (f g))" "reg_inv b reg"
  shows "reg_inv b (snd (with_inner_swap f reg))"
  using assms by (simp add: reg_inv_def with_inner_swap_def case_prod_unfold Let_def)

lemma quiet_inv:
  assumes "inner_inv b (reg_inner reg) \<Longrightarrow> inner_inv b (snd (f (reg_inner reg)))"
    "rebuild_from (snd (f (reg_inner reg))) = rebuild_from (reg_inner reg)" "reg_inv b reg"
  shows "reg_inv b (snd (with_inner f reg))"
  using assms by (simp add: reg_inv_def with_inner_def case_prod_unfold Let_def)

lemma inner_inv_other:
  assumes "inner_inv b g" "streams_by_wire g' = streams_by_wire g" "stream_pool g' = stream_pool g"
    "streams_seq_to_wire g' = streams_seq_to_wire g" "stream_filters g' = stream_filters g"
    "consumers_by_name g' = consumers_by_name g" "consumer_pool g' = consumer_pool g"
    "counter_ok (queues_by_key g') (next_queue g')"
    "counter_ok (subscriptions_by_conn g') (next_subscription g')"
  shows "inner_inv b g'"
  using assms streams_ok_cong [of g g'] filters_ok_cong [of g g'] consumers_ok_cong [of g g']
  unfolding inner_inv_def by blast

lemmas inner_inv_counters = inner_inv_def [THEN iffD1, THEN conjunct2, THEN conjunct2, THEN conjunct2]

lemma queue_inv:
  assumes "reg_inv b reg" "next_queue (reg_inner reg) < u32_max"
  shows "reg_inv b (snd (get_or_create_queue stream grp reg))"
  unfolding get_or_create_queue_def
proof (rule quiet_inv [OF _ _ assms(1)])
  let ?g = "reg_inner reg"
  assume i: "inner_inv b ?g"
  show "inner_inv b (snd (case hm_get (queues_by_key ?g) (stream, grp) of
       Some qid \<Rightarrow> (qid, ?g)
     | None \<Rightarrow> (next_queue ?g, ?g\<lparr>next_queue := u32_add (next_queue ?g) 1,
         queues_by_key := hm_insert (stream, grp) (next_queue ?g) (queues_by_key ?g)\<rparr>)))"
  proof (cases "hm_get (queues_by_key ?g) (stream, grp)")
    case None
    have "counter_ok (hm_insert (stream, grp) (next_queue ?g) (queues_by_key ?g)) (u32_add (next_queue ?g) 1)"
      using inner_inv_counters [OF i] counter_ok_insert [OF _ None assms(2)] by blast
    then show ?thesis using None inner_inv_counters [OF i] by (simp add: inner_inv_other [OF i])
  qed (simp add: i)
qed (simp add: rebuild_from_def split: option.splits)

lemma subscription_inv:
  assumes "reg_inv b reg" "next_subscription (reg_inner reg) < u32_max"
  shows "reg_inv b (snd (resolve_subscription conn client reg))"
  unfolding resolve_subscription_def
proof (rule quiet_inv [OF _ _ assms(1)])
  let ?g = "reg_inner reg"
  assume i: "inner_inv b ?g"
  show "inner_inv b (snd (case hm_get (subscriptions_by_conn ?g) (conn, client) of
       Some sid \<Rightarrow> (sid, ?g)
     | None \<Rightarrow> (next_subscription ?g, ?g\<lparr>next_subscription := u32_add (next_subscription ?g) 1,
         subscriptions_by_conn := hm_insert (conn, client) (next_subscription ?g) (subscriptions_by_conn ?g)\<rparr>)))"
  proof (cases "hm_get (subscriptions_by_conn ?g) (conn, client)")
    case None
    have "counter_ok (hm_insert (conn, client) (next_subscription ?g) (subscriptions_by_conn ?g))
      (u32_add (next_subscription ?g) 1)"
      using inner_inv_counters [OF i] counter_ok_insert [OF _ None assms(2)] by blast
    then show ?thesis using None inner_inv_counters [OF i] by (simp add: inner_inv_other [OF i])
  qed (simp add: i)
qed (simp add: rebuild_from_def split: option.splits)

lemma disconnect_inv:
  assumes "reg_inv b reg"
  shows "reg_inv b (snd (drop_connection_subscriptions conn reg))"
  unfolding drop_connection_subscriptions_def
proof (rule quiet_inv [OF _ _ assms])
  let ?g = "reg_inner reg"
  assume i: "inner_inv b ?g"
  have e: "(\<lambda>((c, x), y). c \<noteq> conn) = (\<lambda>kv :: (u64 \<times> u32) \<times> u32. fst (fst kv) \<noteq> conn)" by auto
  have "counter_ok (filter (\<lambda>kv. fst (fst kv) \<noteq> conn) (subscriptions_by_conn ?g)) (next_subscription ?g)"
    using counter_ok_filter [of "subscriptions_by_conn ?g" _ "\<lambda>k. fst k \<noteq> conn"] inner_inv_counters [OF i] by blast
  then show "inner_inv b (snd ((), ?g\<lparr>subscriptions_by_conn :=
      filter (\<lambda>((c, x), y). c \<noteq> conn) (subscriptions_by_conn ?g)\<rparr>))"
    using inner_inv_counters [OF i] unfolding e by (intro inner_inv_other [OF i]) simp_all
qed (simp add: rebuild_from_def)

text \<open>The setters touch none of the fields the invariant speaks of.\<close>

definition frame :: "(inner \<Rightarrow> 'r \<times> inner) \<Rightarrow> bool" where
  "frame f \<longleftrightarrow> (\<forall>g. streams_by_wire (snd (f g)) = streams_by_wire g \<and> stream_pool (snd (f g)) = stream_pool g \<and>
    streams_seq_to_wire (snd (f g)) = streams_seq_to_wire g \<and> stream_filters (snd (f g)) = stream_filters g \<and>
    consumers_by_name (snd (f g)) = consumers_by_name g \<and> consumer_pool (snd (f g)) = consumer_pool g \<and>
    queues_by_key (snd (f g)) = queues_by_key g \<and> next_queue (snd (f g)) = next_queue g \<and>
    subscriptions_by_conn (snd (f g)) = subscriptions_by_conn g \<and>
    next_subscription (snd (f g)) = next_subscription g)"

lemma frame_inv:
  assumes "frame f" "inner_inv b g"
  shows "inner_inv b (snd (f g))"
  using assms(1) inner_inv_counters [OF assms(2)] unfolding frame_def
  by (intro inner_inv_other [OF assms(2)]) simp_all

lemma frame_swap: "frame f \<Longrightarrow> reg_inv b reg \<Longrightarrow> reg_inv b (snd (with_inner_swap f reg))"
  using swap_inv [of b f reg] frame_inv [of f b] by blast

lemma frame_quiet:
  "frame f \<Longrightarrow> (\<And>g. rebuild_from (snd (f g)) = rebuild_from g) \<Longrightarrow> reg_inv b reg \<Longrightarrow>
   reg_inv b (snd (with_inner f reg))"
  using quiet_inv [of b reg f] frame_inv [of f b "reg_inner reg"] by blast

lemma inner_inv_new: "inner_inv b inner_new"
proof -
  have a: "snd (pool_alloc (pool_new max_slot_count)) = \<lparr>next_slot = 1, free_slots = [],
    generations = [0], max_slots = max_slot_count\<rparr>"
    by (simp add: pool_alloc_def pool_new_def max_slot_count_def)
  have "streams_ok inner_new"
    by (simp add: streams_ok_def inner_new_def ip.table_ok_def vec_or_def) (simp add: pool_new_def)
  moreover have "consumers_ok inner_new" unfolding consumers_ok_def inner_new_def a
    by (simp add: ip.table_ok_def pool_ok_def pool_wf_def pool_live_def max_slot_count_def lessThan_Suc)
  moreover have "filters_ok inner_new" by (simp add: filters_ok_def inner_new_def vec_or_def)
  moreover have "counter_ok (queues_by_key inner_new) (next_queue inner_new)"
    "counter_ok (subscriptions_by_conn inner_new) (next_subscription inner_new)"
    using counter_ok_new by (simp_all add: inner_new_def)
  ultimately show ?thesis by (simp add: inner_inv_def)
qed

lemma reg_step_inv:
  assumes "reg_step b reg reg'" "reg_inv b reg"
  shows "reg_inv b reg'"
  using assms
proof (induction rule: reg_step.induct)
  case (create_stream reg w)
  then show ?case unfolding get_or_create_stream_def by (intro swap_inv inner_inv_create)
next
  case (create_named reg w name)
  then show ?case unfolding get_or_create_stream_named_def by (intro swap_inv inner_inv_create_named)
next
  case (create_checked reg w name flt)
  then show ?case unfolding get_or_create_stream_checked_def by (intro swap_inv inner_inv_create_checked)
next
  case (replay_filter reg seq flt)
  let ?f = "\<lambda>g. ((), g\<lparr>stream_filters := vec_put seq [] flt (stream_filters g)\<rparr>)"
  have "inner_inv b (snd (?f g))" if "inner_inv b g" for g
    using that replay_filter(1) streams_ok_cong [of g "snd (?f g)"] consumers_ok_cong [of g "snd (?f g)"]
    by (simp add: inner_inv_def)
  then show ?case unfolding set_stream_filter_def using swap_inv [of b ?f, OF _ replay_filter(2)] by simp
next
  case (remove_stream reg w)
  then show ?case unfolding remove_stream_def by (intro swap_inv inner_inv_remove_stream)
next
  case (idempotency reg seq ms)
  then show ?case unfolding set_stream_idempotency_def Let_def by (intro frame_swap) (simp_all add: frame_def)
next
  case (replicas reg seq n)
  then show ?case unfolding set_stream_replicas_def by (intro frame_swap) (simp_all add: frame_def)
next
  case (quota reg seq m n d)
  then show ?case unfolding set_stream_quota_def by (intro frame_swap) (simp_all add: frame_def)
next
  case (create_consumer reg stream name)
  then show ?case unfolding get_or_create_consumer_def by (intro swap_inv inner_inv_create_consumer)
next
  case (remove_consumer reg stream name)
  then show ?case unfolding remove_consumer_def by (intro swap_inv inner_inv_remove_consumer)
next
  case (remove_by_id reg cid)
  then show ?case unfolding remove_consumer_by_id_def by (intro swap_inv inner_inv_remove_by_id)
next
  case (consumer_filter reg cid flt)
  then show ?case unfolding set_consumer_filter_def by (intro frame_swap) (simp_all add: frame_def)
next
  case (consumer_stream reg cid stream)
  then show ?case unfolding set_consumer_stream_def by (intro frame_swap) (simp_all add: frame_def)
next
  case (consumer_queue reg cid q)
  then show ?case unfolding set_consumer_queue_def by (intro frame_quiet) (simp_all add: frame_def rebuild_from_def)
next
  case (deliver_policy reg cid pol start)
  then show ?case unfolding set_consumer_deliver_policy_def by (intro frame_quiet) (simp_all add: frame_def rebuild_from_def)
next
  case (cursor reg cid s)
  then show ?case unfolding set_consumer_cursor_def by (intro frame_quiet) (simp_all add: frame_def rebuild_from_def)
qed (simp_all add: queue_inv subscription_inv disconnect_inv)

lemma reg_reach_inv: "reg_reach b reg \<Longrightarrow> reg_inv b reg"
proof (induction rule: reg_reach.induct)
  case init
  have "hot_default = rebuild_from inner_new" by (simp add: hot_default_def rebuild_from_def inner_new_def)
  then show ?case by (simp add: reg_inv_def registry_new_def inner_inv_new)
qed (rule reg_step_inv)

section \<open>Properties\<close>

lemma fresh_card:
  assumes "pool_ok p" "pool_alloc p = (Inr (s, g), p')"
  shows "card (pool_live p) < max_slots p"
proof -
  note a = pool_alloc_ok [OF assms]
  have "pool_live p' \<subseteq> {..<max_slots p}" using a by (auto simp: pool_live_def pool_ok_def pool_wf_def)
  then have "card (pool_live p') \<le> max_slots p" using card_mono [of "{..<max_slots p}" "pool_live p'"] by simp
  then show ?thesis using a by simp
qed

lemma reg_reachD:
  assumes "reg_reach b reg"
  shows "reg_hot reg = rebuild_from (reg_inner reg)" "streams_ok (reg_inner reg)" "consumers_ok (reg_inner reg)"
    "b \<or> filters_ok (reg_inner reg)"
    "counter_ok (subscriptions_by_conn (reg_inner reg)) (next_subscription (reg_inner reg))"
  using reg_reach_inv [OF assms] by (auto simp: reg_inv_def inner_inv_def)

lemma stream_seq_live:
  assumes "reg_reach b reg" "stream_seq reg w = Some sid"
  shows "hm_get (streams_by_wire (reg_inner reg)) w = Some sid" "sid \<in> pool_live (stream_pool (reg_inner reg))"
    "sid < max_slot_count" "vec_get (streams_seq_to_wire (reg_inner reg)) sid = Some w"
proof -
  note r = reg_reachD [OF assms(1)]
  show w: "hm_get (streams_by_wire (reg_inner reg)) w = Some sid"
    using assms(2) r(1) by (simp add: stream_seq_def rebuild_from_def)
  have t: "ip.table_ok {} (streams_by_wire (reg_inner reg)) (stream_pool (reg_inner reg))"
    using r(2) by (simp add: streams_ok_def)
  show l: "sid \<in> pool_live (stream_pool (reg_inner reg))" using ip.table_okD(1) [OF t w] .
  show "sid < max_slot_count" using l t r(2)
    by (auto simp: ip.table_ok_def pool_live_def pool_ok_def pool_wf_def streams_ok_def)
  show "vec_get (streams_seq_to_wire (reg_inner reg)) sid = Some w" using r(2) w by (simp add: streams_ok_def)
qed

text \<open>A concrete run: two streams created by the checked constructor, a third refused.\<close>

definition demo_reg :: name_registry where
  "demo_reg = snd (get_or_create_stream_checked 6 [98] [98, 46, 62] stream_on_create stream_on_recreate
     (snd (get_or_create_stream_checked 5 [97] [97, 46, 62] stream_on_create stream_on_recreate registry_new)))"

lemma demo_reg_reach: "reg_reach b demo_reg"
  unfolding demo_reg_def by (intro reg_reach.step [OF _ reg_step.create_checked] reg_reach.init)

lemma demo_reg_eval: "stream_seq demo_reg 5 = Some 0" "stream_seq demo_reg 6 = Some 1"
    "stream_filter demo_reg 0 = [97, 46, 62]" "stream_filter demo_reg 1 = [98, 46, 62]"
    "wf_subject [97, 46, 99]" "subject_matches [97, 46, 62] [97, 46, 99]"
  by code_simp+

text \<open>C10. Streams own their subjects alone.  In every registry state reached through the checked
  constructor, removals and all other operations except the unchecked replay of a filter, two
  streams registered under different wire identifiers never both match one concrete subject.\<close>

theorem streams_disjoint:
  assumes "reg_reach False reg" "stream_seq reg v = Some x" "stream_seq reg w = Some y" "v \<noteq> w"
    and "wf_subject s" "subject_matches (stream_filter reg x) s"
  shows "\<not> subject_matches (stream_filter reg y) s"
proof -
  have f: "filters_ok (reg_inner reg)" using reg_reachD(4) [OF assms(1)] by simp
  have xy: "x \<noteq> y" using stream_seq_live(4) [OF assms(1,2)] stream_seq_live(4) [OF assms(1,3)] assms(4) by auto
  have "\<not> subject_matches [] s"
  proof -
    obtain t r where e: "next_token s = (t, r)" by fastforce
    have "toks s = t # toks r" using assms(5) toks_next [OF _ e] by (simp add: wf_subject_def)
    then have "t \<noteq> []" using assms(5) by (auto simp: wf_subject_def plain_tok_def)
    then show ?thesis using subject_matches_step [OF next_token_Nil e] by simp
  qed
  then show ?thesis using f xy assms(6) unfolding filters_ok_def stream_filter_def by metis
qed

theorem streams_disjoint_witness:
  "stream_seq demo_reg 5 = Some 0 \<and> stream_seq demo_reg 6 = Some 1 \<and>
   subject_matches (stream_filter demo_reg 0) [97, 46, 99] \<and>
   \<not> subject_matches (stream_filter demo_reg 1) [97, 46, 99]"
  using streams_disjoint [OF demo_reg_reach demo_reg_eval(1,2) _ demo_reg_eval(5)] demo_reg_eval by simp





text \<open>C38. Running out of slots is reported, never passed on.  For a wire identifier that is not
  registered, creating a stream returns the full sentinel exactly when
  \<^verbatim>\<open>stream_slots_available\<close> is false, which is when 4096 streams are registered; the
  registry is then left unchanged.  Otherwise the stream is created with an identifier below 4096.\<close>

theorem stream_slots_exhausted:
  assumes "reg_reach b reg" "stream_seq reg w = None" "get_or_create_stream w reg = ((sid, fresh), reg')"
  shows "(sid = stream_slot_full_sentinel \<longleftrightarrow> \<not> stream_slots_available reg) \<and>
    (\<not> stream_slots_available reg \<longleftrightarrow> active_count (stream_pool (reg_inner reg)) = 4096) \<and>
    (if stream_slots_available reg then fresh \<and> sid < 4096 \<and> stream_seq reg' w = Some sid
     else \<not> fresh \<and> reg' = reg)"
proof -
  let ?g = "reg_inner reg" and ?p = "stream_pool (reg_inner reg)"
  note r = reg_reachD [OF assms(1)]
  have ok: "pool_ok ?p" "max_slots ?p = 4096" using r(2) by (simp_all add: streams_ok_def ip.table_ok_def max_slot_count_def)
  have len: "length (generations ?p) = next_slot ?p" "next_slot ?p \<le> 4096" "pool_wf ?p"
    using ok by (auto simp: pool_ok_def pool_wf_def)
  have none: "hm_get (streams_by_wire ?g) w = None" using assms(2) r(1) by (simp add: stream_seq_def rebuild_from_def)
  have av: "stream_slots_available reg \<longleftrightarrow> free_slots ?p \<noteq> [] \<or> next_slot ?p < 4096"
    using len by (simp add: stream_slots_available_def has_free_def slot_count_def max_slot_count_def)
  have full: "\<not> stream_slots_available reg \<longleftrightarrow> active_count ?p = 4096"
  proof
    show "active_count ?p = 4096" if "\<not> stream_slots_available reg" using that av len by (simp add: active_count_def)
    show "\<not> stream_slots_available reg" if "active_count ?p = 4096"
      using that len unfolding av active_count_def by (cases "free_slots ?p") auto
  qed
  show ?thesis
  proof (cases "pool_alloc ?p" rule: sum_prod_cases)
    case (Inl e p)
    then have na: "\<not> stream_slots_available reg" using full pool_alloc_Inl(3) [OF ok(1) Inl] active_count_card [OF len(3)] ok(2) by simp
    have same: "?g\<lparr>stream_pool := p\<rparr> = ?g" using streams_ok_exhausted [OF r(2) Inl] .
    have "sid = u32_max" "\<not> fresh" "reg' = reg"
      using assms(3) none Inl same r(1) unfolding get_or_create_stream_def get_or_create_stream_inner_def with_inner_swap_def
      by auto
    then show ?thesis using na full by (simp add: stream_slot_full_sentinel_def)
  next
    case (Inr s e p)
    have "s < 4096" "card (pool_live ?p) < 4096"
      using pool_alloc_ok [OF ok(1) Inr] ok(2) fresh_card [OF ok(1) Inr] by simp_all
    moreover have "sid = s" "fresh" "stream_seq reg' w = Some s"
      using assms(3) none Inr
      unfolding get_or_create_stream_def get_or_create_stream_inner_def with_inner_swap_def stream_seq_def rebuild_from_def
      by (auto simp: hm_get_insert)
    ultimately show ?thesis using full active_count_card [OF len(3)]
      by (simp add: stream_slot_full_sentinel_def u32_max_def)
  qed
qed

theorem stream_slots_exhausted_witness:
  "stream_slots_available demo_reg \<and> fst (get_or_create_stream 9 demo_reg) = (2, True) \<and>
   stream_seq (snd (get_or_create_stream 9 demo_reg)) 9 = Some 2"
proof -
  have e: "stream_seq demo_reg 9 = None" "fst (get_or_create_stream 9 demo_reg) = (2, True)"
    "stream_slots_available demo_reg" by code_simp+
  then have "get_or_create_stream 9 demo_reg = ((2, True), snd (get_or_create_stream 9 demo_reg))"
    by (metis prod.collapse)
  then show ?thesis using stream_slots_exhausted [OF demo_reg_reach [of False] e(1)] e by simp
qed

end
