(* ===== verification/Memory_Store.thy ===== *)
theory Memory_Store
  imports Subject
begin

text \<open>
  The journal contract of \<^verbatim>\<open>arbitro-store/src/store.rs\<close> and the in-memory journal of
  \<^verbatim>\<open>arbitro-store/src/memory.rs\<close>: fixed-size segments that are written once and sealed, and
  an index from sequence numbers to segment positions.  Mapping memory for a segment is the
  parameter \<open>mm\<close> (whether a mapping of that size succeeds), the subject hash is the parameter
  \<open>hash\<close>.  Operations that slice segments return an option; \<open>None\<close> is a panic.
\<close>

section \<open>The journal contract\<close>

definition tombstone_flag :: byte where "tombstone_flag = 1"
definition has_reply_to_flag :: byte where "has_reply_to_flag = 8"
definition has_headers_flag :: byte where "has_headers_flag = 16"

record entry =
  e_seq :: u64
  e_stream_id :: u32
  e_timestamp :: u64
  e_subject :: bytes
  e_payload :: bytes
  e_flags :: byte

record entry_ref =
  r_stream_id :: u32
  r_subject :: bytes
  r_payload :: bytes
  r_flags :: byte
  r_deliver_at_ms :: u64

record store_info =
  si_messages :: u64
  si_bytes :: u64
  si_first_seq :: u64
  si_last_seq :: u64

datatype store_error = Full | NotFound | Io | EntryTooLarge | InvalidSubjectLength

definition entry_matches :: "entry \<Rightarrow> bytes \<Rightarrow> bool" where
  "entry_matches e pattern = subject_matches pattern (e_subject e)"

text \<open>The default method of the trait, in terms of the other methods.\<close>

definition purge_before ::
  "('s \<Rightarrow> store_info) \<Rightarrow> (u64 \<Rightarrow> u64 \<Rightarrow> 's \<Rightarrow> entry list option) \<Rightarrow> (u64 \<Rightarrow> 's \<Rightarrow> u64 \<times> 's) \<Rightarrow>
   ('s \<Rightarrow> u64 \<times> 's) \<Rightarrow> u64 \<Rightarrow> 's \<Rightarrow> (u64 \<times> 's) option" where
  "purge_before info for_each truncate_front purge timestamp_ms s =
    (let inf = info s in
     if si_messages inf = 0 then Some (0, s)
     else case for_each (si_first_seq inf) (si_last_seq inf + 1) s of
       None \<Rightarrow> None
     | Some es \<Rightarrow>
       Some (case List.find (\<lambda>e. e_timestamp e \<ge> timestamp_ms) es of
          Some e \<Rightarrow> if e_seq e > si_first_seq inf then truncate_front (e_seq e) s else (0, s)
        | None \<Rightarrow> purge s))"

section \<open>The in-memory journal\<close>

definition default_segment_size :: usize where "default_segment_size = 16 * 1024 * 1024"
definition min_segment_size :: usize where "min_segment_size = 4 * 1024"

record log_metadata =
  lm_seq :: u64
  lm_ts :: u64
  lm_subj_len :: nat
  lm_payload_len :: u32
  lm_offset :: u32
  lm_segment_idx :: u32
  lm_subject_hash :: u32
  lm_stream_id :: u32
  lm_flags :: byte

record memory_store =
  active :: bytes
  active_len :: usize
  sealed :: "bytes list"
  sealed_lens :: "usize list"
  index :: "log_metadata list"
  next_seq :: u64
  first_seq :: u64
  total_bytes :: u64
  segment_size :: usize

definition with_segment_size :: "usize \<Rightarrow> memory_store" where
  "with_segment_size n =
    (let size = max n min_segment_size in
     \<lparr>active = replicate size 0, active_len = 0, sealed = [], sealed_lens = [], index = [],
      next_seq = 1, first_seq = 1, total_bytes = 0, segment_size = size\<rparr>)"

definition with_capacity :: "usize \<Rightarrow> memory_store" where
  "with_capacity data_cap = with_segment_size (max (max data_cap default_segment_size) min_segment_size)"

definition memory_new :: memory_store where
  "memory_new = with_capacity default_segment_size"

definition seq_to_idx :: "u64 \<Rightarrow> memory_store \<Rightarrow> usize option" where
  "seq_to_idx seq s =
    (if seq < first_seq s then None
     else let est = seq - first_seq s in
       if est < length (index s) \<and> lm_seq (index s ! est) = seq then Some est
       else case binary_search_by_key lm_seq seq (index s) of Inr i \<Rightarrow> Some i | Inl _ \<Rightarrow> None)"

definition find_lower_bound :: "u64 \<Rightarrow> memory_store \<Rightarrow> usize" where
  "find_lower_bound seq s =
    (if seq \<le> first_seq s then 0
     else let est = seq - first_seq s in
       if est < length (index s) \<and> lm_seq (index s ! est) = seq then est
       else case binary_search_by_key lm_seq seq (index s) of Inr i \<Rightarrow> i | Inl i \<Rightarrow> i)"

definition rotate_segment :: "(usize \<Rightarrow> bool) \<Rightarrow> memory_store \<Rightarrow> store_error + memory_store" where
  "rotate_segment mm s =
    (if mm (segment_size s)
     then Inr (s\<lparr>active := replicate (segment_size s) 0, sealed := sealed s @ [active s],
                 sealed_lens := sealed_lens s @ [active_len s], active_len := 0\<rparr>)
     else Inl Io)"

definition segment_slice :: "u32 \<Rightarrow> memory_store \<Rightarrow> bytes option" where
  "segment_slice idx s =
    (if idx < length (sealed s) then slice (sealed s ! idx) 0 (sealed_lens s ! idx)
     else slice (active s) 0 (active_len s))"

definition push_entry ::
  "(bytes \<Rightarrow> u32) \<Rightarrow> (usize \<Rightarrow> bool) \<Rightarrow> entry_ref \<Rightarrow> u64 \<Rightarrow> memory_store \<Rightarrow>
   ((store_error + u64) \<times> memory_store) option" where
  "push_entry hash mm e timestamp s =
    (let subj_len = length (r_subject e) mod 2 ^ 16;
         payload_len = length (r_payload e) mod 2 ^ 32;
         entry_bytes = subj_len + payload_len
     in if entry_bytes > segment_size s then Some (Inl EntryTooLarge, s)
     else case (if active_len s + entry_bytes > segment_size s then rotate_segment mm s else Inr s) of
       Inl err \<Rightarrow> Some (Inl err, s)
     | Inr s1 \<Rightarrow>
       let seq = next_seq s1; off = active_len s1;
           subj_end = off + subj_len; pld_end = subj_end + payload_len
       in if length (r_subject e) \<noteq> subj_len \<or> length (r_payload e) \<noteq> payload_len then None
       else case write_slice (active s1) off (r_subject e) of
         None \<Rightarrow> None
       | Some a1 \<Rightarrow>
         (case write_slice a1 subj_end (r_payload e) of
            None \<Rightarrow> None
          | Some a2 \<Rightarrow> Some (Inr seq,
              s1\<lparr>next_seq := seq + 1, active := a2, active_len := pld_end,
                 index := index s1 @ [\<lparr>lm_seq = seq, lm_ts = timestamp, lm_subj_len = subj_len,
                   lm_payload_len = payload_len, lm_offset = off mod 2 ^ 32,
                   lm_segment_idx = length (sealed s1) mod 2 ^ 32, lm_subject_hash = hash (r_subject e),
                   lm_stream_id = r_stream_id e, lm_flags = r_flags e\<rparr>],
                 total_bytes := total_bytes s1 + entry_bytes\<rparr>)))"

definition view_meta :: "log_metadata \<Rightarrow> bytes \<Rightarrow> entry option" where
  "view_meta m data =
    (let payload_start = lm_offset m + lm_subj_len m in
     case slice data (lm_offset m) payload_start of
       None \<Rightarrow> None
     | Some subject \<Rightarrow>
       (case slice data payload_start (payload_start + lm_payload_len m) of
          None \<Rightarrow> None
        | Some payload \<Rightarrow> Some \<lparr>e_seq = lm_seq m, e_stream_id = lm_stream_id m, e_timestamp = lm_ts m,
            e_subject = subject, e_payload = payload, e_flags = lm_flags m\<rparr>))"

definition get_entry_view :: "usize \<Rightarrow> memory_store \<Rightarrow> entry option" where
  "get_entry_view idx s =
    (case vec_get (index s) idx of
       None \<Rightarrow> None
     | Some m \<Rightarrow> (case segment_slice (lm_segment_idx m) s of None \<Rightarrow> None | Some data \<Rightarrow> view_meta m data))"

definition mem_append ::
  "(bytes \<Rightarrow> u32) \<Rightarrow> (usize \<Rightarrow> bool) \<Rightarrow> entry_ref \<Rightarrow> u64 \<Rightarrow> memory_store \<Rightarrow>
   ((store_error + u64) \<times> memory_store) option" where
  "mem_append hash mm e timestamp s = push_entry hash mm e timestamp s"

fun push_entries ::
  "(bytes \<Rightarrow> u32) \<Rightarrow> (usize \<Rightarrow> bool) \<Rightarrow> entry_ref list \<Rightarrow> u64 \<Rightarrow> u64 \<Rightarrow> memory_store \<Rightarrow>
   ((store_error + u64) \<times> memory_store) option" where
  "push_entries hash mm [] timestamp first s = Some (Inr first, s)"
| "push_entries hash mm (e # es) timestamp first s =
    (case push_entry hash mm e timestamp s of
       None \<Rightarrow> None
     | Some (Inl err, s1) \<Rightarrow> Some (Inl err, s1)
     | Some (Inr _, s1) \<Rightarrow> push_entries hash mm es timestamp first s1)"

definition append_batch ::
  "(bytes \<Rightarrow> u32) \<Rightarrow> (usize \<Rightarrow> bool) \<Rightarrow> entry_ref list \<Rightarrow> u64 \<Rightarrow> memory_store \<Rightarrow>
   ((store_error + u64) \<times> memory_store) option" where
  "append_batch hash mm es timestamp s =
    (if es = [] then Some (Inr (next_seq s), s)
     else push_entries hash mm es timestamp (next_seq s) s)"

text \<open>\<open>Some None\<close>: no such entry.\<close>

definition mem_read :: "u64 \<Rightarrow> memory_store \<Rightarrow> entry option option" where
  "mem_read seq s =
    (case seq_to_idx seq s of
       None \<Rightarrow> Some None
     | Some idx \<Rightarrow> map_option Some (get_entry_view idx s))"

fun views :: "usize list \<Rightarrow> memory_store \<Rightarrow> entry list option" where
  "views [] s = Some []"
| "views (i # is) s =
    (case get_entry_view i s of
       None \<Rightarrow> None
     | Some e \<Rightarrow> map_option (\<lambda>es. e # es) (views is s))"

definition read_range :: "u64 \<Rightarrow> u64 \<Rightarrow> memory_store \<Rightarrow> entry list option" where
  "read_range start end s =
    (let e = min (find_lower_bound end s) (length (index s));
         b = min (find_lower_bound start s) e
     in views [b..<e] s)"

text \<open>\<^verbatim>\<open>for_each\<close>: the entries its callback is given, in order.\<close>

definition for_each :: "u64 \<Rightarrow> u64 \<Rightarrow> memory_store \<Rightarrow> entry list option" where
  "for_each start end s =
    (let e = min (find_lower_bound end s) (length (index s));
         b = min (find_lower_bound start s) e
     in views [b..<e] s)"

definition truncate_front :: "u64 \<Rightarrow> memory_store \<Rightarrow> u64 \<times> memory_store" where
  "truncate_front seq s =
    (if seq \<le> first_seq s \<or> index s = [] then (0, s)
     else let cut = min (seq - first_seq s) (length (index s)) in
       if cut = 0 then (0, s)
       else let dropped_bytes = sum_list (map (\<lambda>m. lm_subj_len m + lm_payload_len m) (take cut (index s)));
                start_seg = (if cut < length (index s) then lm_segment_idx (index s ! cut)
                             else length (sealed s) + 1);
                k = min start_seg (length (sealed s))
            in (cut, s\<lparr>sealed := drop k (sealed s), sealed_lens := drop k (sealed_lens s),
                       index := map (\<lambda>m. m\<lparr>lm_segment_idx := u32_sub (lm_segment_idx m) k\<rparr>) (drop cut (index s)),
                       first_seq := seq, total_bytes := total_bytes s - dropped_bytes\<rparr>))"

definition mem_purge :: "memory_store \<Rightarrow> u64 \<times> memory_store" where
  "mem_purge s =
    (length (index s), s\<lparr>active_len := 0, sealed := [], sealed_lens := [], index := [],
       first_seq := next_seq s, total_bytes := 0\<rparr>)"

fun drain_loop ::
  "(bytes \<Rightarrow> u32) \<Rightarrow> (usize \<Rightarrow> bool) \<Rightarrow> u32 \<Rightarrow> bytes \<Rightarrow> memory_store \<Rightarrow> usize list \<Rightarrow>
   u64 \<times> memory_store \<Rightarrow> (u64 \<times> memory_store) option" where
  "drain_loop hash mm stream_id subject s [] acc = Some acc"
| "drain_loop hash mm stream_id subject s (i # is) (removed, new_store) =
    (case get_entry_view i s of
       None \<Rightarrow> None
     | Some e \<Rightarrow>
       if e_stream_id e = stream_id \<and> (subject = [] \<or> entry_matches e subject)
       then drain_loop hash mm stream_id subject s is (removed + 1, new_store)
       else case push_entry hash mm
           \<lparr>r_stream_id = e_stream_id e, r_subject = e_subject e, r_payload = e_payload e,
            r_flags = e_flags e, r_deliver_at_ms = 0\<rparr> (e_timestamp e) (new_store\<lparr>next_seq := e_seq e\<rparr>) of
         None \<Rightarrow> None
       | Some (_, new_store') \<Rightarrow> drain_loop hash mm stream_id subject s is (removed, new_store'))"

definition mem_drain ::
  "(bytes \<Rightarrow> u32) \<Rightarrow> (usize \<Rightarrow> bool) \<Rightarrow> u32 \<Rightarrow> bytes \<Rightarrow> memory_store \<Rightarrow> (u64 \<times> memory_store) option" where
  "mem_drain hash mm stream_id subject s =
    (if \<not> mm (max (segment_size s) min_segment_size) then None
     else case drain_loop hash mm stream_id subject s [0..<length (index s)] (0, with_segment_size (segment_size s)) of
       None \<Rightarrow> None
     | Some (removed, n) \<Rightarrow>
         Some (removed, n\<lparr>next_seq := next_seq s,
           first_seq := (case index n of [] \<Rightarrow> next_seq s | m # _ \<Rightarrow> lm_seq m)\<rparr>))"

definition tombstone_at :: "u64 \<Rightarrow> memory_store \<Rightarrow> bool \<times> memory_store" where
  "tombstone_at seq s =
    (case seq_to_idx seq s of
       None \<Rightarrow> (False, s)
     | Some idx \<Rightarrow>
       let m = index s ! idx in
       if bit (lm_flags m) 0 then (False, s)
       else (True, s\<lparr>index := (index s)[idx := m\<lparr>lm_flags := or (lm_flags m) tombstone_flag\<rparr>]\<rparr>))"

definition entomb :: "u32 \<Rightarrow> log_metadata \<Rightarrow> log_metadata" where
  "entomb stream_id m =
    (if lm_stream_id m = stream_id \<and> \<not> bit (lm_flags m) 0
     then m\<lparr>lm_flags := or (lm_flags m) tombstone_flag\<rparr> else m)"

definition tombstone_stream :: "u32 \<Rightarrow> memory_store \<Rightarrow> u64 \<times> memory_store" where
  "tombstone_stream stream_id s =
    (length (filter (\<lambda>m. lm_stream_id m = stream_id \<and> \<not> bit (lm_flags m) 0) (index s)),
     s\<lparr>index := map (entomb stream_id) (index s)\<rparr>)"

definition mem_info :: "memory_store \<Rightarrow> store_info" where
  "mem_info s = \<lparr>si_messages = length (index s), si_bytes = total_bytes s,
     si_first_seq = first_seq s, si_last_seq = next_seq s - 1\<rparr>"

record raw_entry =
  re_seq :: u64
  re_stream_id :: u32
  re_timestamp :: u64
  re_subj_len :: nat
  re_flags :: byte
  re_bytes :: bytes

abbreviation raw_subject :: "raw_entry \<Rightarrow> bytes option" where
  "raw_subject r \<equiv> slice (re_bytes r) 0 (re_subj_len r)"

abbreviation raw_payload :: "raw_entry \<Rightarrow> bytes option" where
  "raw_payload r \<equiv> slice (re_bytes r) (re_subj_len r) (length (re_bytes r))"

definition get_raw_view :: "usize \<Rightarrow> memory_store \<Rightarrow> raw_entry option" where
  "get_raw_view idx s =
    (case vec_get (index s) idx of
       None \<Rightarrow> None
     | Some m \<Rightarrow>
       (case segment_slice (lm_segment_idx m) s of
          None \<Rightarrow> None
        | Some data \<Rightarrow>
          map_option (\<lambda>b. \<lparr>re_seq = lm_seq m, re_stream_id = lm_stream_id m, re_timestamp = lm_ts m,
              re_subj_len = lm_subj_len m, re_flags = lm_flags m, re_bytes = b\<rparr>)
            (slice data (lm_offset m) (lm_offset m + (lm_subj_len m + lm_payload_len m)))))"

fun raw_views :: "usize list \<Rightarrow> memory_store \<Rightarrow> raw_entry list option" where
  "raw_views [] s = Some []"
| "raw_views (i # is) s =
    (case get_raw_view i s of
       None \<Rightarrow> None
     | Some e \<Rightarrow> map_option (\<lambda>es. e # es) (raw_views is s))"

definition for_each_raw :: "u64 \<Rightarrow> u64 \<Rightarrow> memory_store \<Rightarrow> raw_entry list option" where
  "for_each_raw start end s =
    (let e = min (find_lower_bound end s) (length (index s));
         b = min (find_lower_bound start s) e
     in raw_views [b..<e] s)"

end
