(* ===== verification/Memory_Journal.thy ===== *)
theory Memory_Journal
  imports Memory_Store
begin

text \<open>
  The in-memory journal against its contract.  The abstract journal is the list of entries in
  sequence order; \<open>journal_of\<close> reads it off the segments and the index.  Every operation is
  related to the obvious operation on that list.
\<close>

section \<open>Segments as lists of used bytes\<close>

definition segs :: "memory_store \<Rightarrow> bytes list" where
  "segs s = map2 take (sealed_lens s) (sealed s) @ [take (active_len s) (active s)]"

definition meta_in :: "bytes list \<Rightarrow> log_metadata \<Rightarrow> bool" where
  "meta_in ss m \<longleftrightarrow> lm_segment_idx m < length ss \<and> lm_subj_len m < 2 ^ 16 \<and>
     lm_offset m + lm_subj_len m + lm_payload_len m \<le> length (ss ! lm_segment_idx m)"

definition meta_entry :: "bytes list \<Rightarrow> log_metadata \<Rightarrow> entry" where
  "meta_entry ss m =
    (let d = drop (lm_offset m) (ss ! lm_segment_idx m) in
     \<lparr>e_seq = lm_seq m, e_stream_id = lm_stream_id m, e_timestamp = lm_ts m,
      e_subject = take (lm_subj_len m) d, e_payload = take (lm_payload_len m) (drop (lm_subj_len m) d),
      e_flags = lm_flags m\<rparr>)"

definition shape_ok :: "memory_store \<Rightarrow> bool" where
  "shape_ok s \<longleftrightarrow> length (active s) = segment_size s \<and> active_len s \<le> segment_size s \<and>
     min_segment_size \<le> segment_size s \<and> length (sealed_lens s) = length (sealed s) \<and>
     list_all2 (\<lambda>n b. n \<le> length b \<and> length b = segment_size s) (sealed_lens s) (sealed s)"

definition index_sound :: "memory_store \<Rightarrow> bool" where
  "index_sound s \<longleftrightarrow> (\<forall>m \<in> set (index s). meta_in (segs s) m) \<and>
     sorted (map lm_segment_idx (index s)) \<and> sorted_wrt (\<lambda>a b. lm_seq a < lm_seq b) (index s) \<and>
     (\<forall>m \<in> set (index s). first_seq s \<le> lm_seq m \<and> lm_seq m < next_seq s) \<and>
     1 \<le> first_seq s \<and> first_seq s \<le> next_seq s \<and>
     total_bytes s = sum_list (map (\<lambda>m. lm_subj_len m + lm_payload_len m) (index s))"

text \<open>The bounds below which the narrow index fields hold their values exactly.\<close>

definition mem_small :: "memory_store \<Rightarrow> bool" where
  "mem_small s \<longleftrightarrow> segment_size s < 2 ^ 32 \<and> length (sealed s) < 2 ^ 32 - 1"

definition mem_ok :: "memory_store \<Rightarrow> bool" where
  "mem_ok s \<longleftrightarrow> shape_ok s \<and> index_sound s \<and> mem_small s"

definition journal_of :: "memory_store \<Rightarrow> entry list" where
  "journal_of s = map (meta_entry (segs s)) (index s)"

lemma length_segs [simp]: "shape_ok s \<Longrightarrow> length (segs s) = length (sealed s) + 1"
  by (simp add: segs_def shape_ok_def)

lemma segment_slice_segs:
  assumes "shape_ok s" "i < length (segs s)"
  shows "segment_slice i s = Some (segs s ! i)"
proof (cases "i < length (sealed s)")
  case True
  then have "sealed_lens s ! i \<le> length (sealed s ! i)"
    using assms(1) by (auto simp: shape_ok_def list_all2_conv_all_nth)
  then show ?thesis using True assms(1) by (simp add: segment_slice_def slice_def segs_def nth_append shape_ok_def)
next
  case False
  then have "i = length (sealed s)" using assms by simp
  then show ?thesis using assms(1) by (simp add: segment_slice_def slice_def segs_def nth_append shape_ok_def)
qed

lemma view_meta_entry:
  "meta_in ss m \<Longrightarrow> view_meta m (ss ! lm_segment_idx m) = Some (meta_entry ss m)"
  by (simp add: view_meta_def meta_entry_def meta_in_def slice_def Let_def ac_simps)

lemma get_entry_view_journal:
  assumes "shape_ok s" "\<forall>m \<in> set (index s). meta_in (segs s) m" "i < length (index s)"
  shows "get_entry_view i s = Some (journal_of s ! i)"
proof -
  have m: "meta_in (segs s) (index s ! i)" using assms(2,3) by simp
  then have "segment_slice (lm_segment_idx (index s ! i)) s = Some (segs s ! lm_segment_idx (index s ! i))"
    using segment_slice_segs [OF assms(1)] by (simp add: meta_in_def)
  then show ?thesis using view_meta_entry [OF m] assms(3)
    by (simp add: get_entry_view_def vec_get_def journal_of_def)
qed

lemma views_journal:
  assumes "shape_ok s" "\<forall>m \<in> set (index s). meta_in (segs s) m" "\<forall>i \<in> set is. i < length (index s)"
  shows "views is s = Some (map ((!) (journal_of s)) is)"
  using assms(3) by (induction "is") (simp_all add: get_entry_view_journal [OF assms(1,2)])

lemma length_journal [simp]: "length (journal_of s) = length (index s)"
  by (simp add: journal_of_def)

lemma e_seq_meta [simp]: "e_seq (meta_entry ss m) = lm_seq m"
  by (simp add: meta_entry_def Let_def)

section \<open>Lookup by sequence number\<close>

lemma search_spec:
  assumes "sorted_wrt (\<lambda>a b. lm_seq a < lm_seq b) xs"
  shows "case binary_search_by_key lm_seq x xs of
      Inr i \<Rightarrow> i < length xs \<and> lm_seq (xs ! i) = x
    | Inl i \<Rightarrow> i \<le> length xs \<and> (\<forall>j < i. lm_seq (xs ! j) < x) \<and>
        (\<forall>j < length xs. i \<le> j \<longrightarrow> x < lm_seq (xs ! j))"
  unfolding binary_search_by_key_def by (rule bsearch_sorted [OF assms]) auto

lemma seq_to_idx_Some:
  assumes "index_sound s" "seq_to_idx seq s = Some i"
  shows "i < length (index s)" "lm_seq (index s ! i) = seq"
  using assms search_spec [of "index s" seq]
  by (auto simp: seq_to_idx_def index_sound_def Let_def split: if_splits sum.splits)

lemma seq_to_idx_None:
  assumes "index_sound s" "seq_to_idx seq s = None" "m \<in> set (index s)"
  shows "lm_seq m \<noteq> seq"
proof (cases "seq < first_seq s")
  case True
  then show ?thesis using assms by (auto simp: index_sound_def)
next
  case False
  then obtain i where i: "binary_search_by_key lm_seq seq (index s) = Inl i"
    using assms(2) by (auto simp: seq_to_idx_def Let_def split: if_splits sum.splits)
  obtain j where j: "j < length (index s)" "m = index s ! j" using assms(3) by (auto simp: in_set_conv_nth)
  then show ?thesis using search_spec [of "index s" seq] i assms(1)
    by (cases "j < i") (auto simp: index_sound_def)
qed

lemma find_lower_bound_spec:
  assumes "index_sound s"
  shows "j < length (index s) \<Longrightarrow> find_lower_bound seq s \<le> j \<longleftrightarrow> seq \<le> lm_seq (index s ! j)"
proof -
  assume j: "j < length (index s)"
  note i = assms [unfolded index_sound_def]
  have lt: "lm_seq (index s ! a) < lm_seq (index s ! b)" if "a < b" "b < length (index s)" for a b
    using i that by (simp add: sorted_wrt_iff_nth_less)
  have at: "k \<le> j \<longleftrightarrow> seq \<le> lm_seq (index s ! j)" if "k < length (index s)" "lm_seq (index s ! k) = seq" for k
    using lt [of k j] lt [of j k] that j by (metis le_eq_less_or_eq not_less)
  show ?thesis
  proof (cases "seq \<le> first_seq s")
    case True
    then have "seq \<le> lm_seq (index s ! j)" using i j by (metis nth_mem order_trans)
    then show ?thesis using True by (simp add: find_lower_bound_def)
  next
    case False
    show ?thesis
    proof (cases "seq - first_seq s < length (index s) \<and> lm_seq (index s ! (seq - first_seq s)) = seq")
      case True
      then show ?thesis using at [of "seq - first_seq s"] False by (simp add: find_lower_bound_def Let_def)
    next
      case est: False
      have e: "find_lower_bound seq s = (case binary_search_by_key lm_seq seq (index s) of Inr i \<Rightarrow> i | Inl i \<Rightarrow> i)"
        unfolding find_lower_bound_def Let_def using False est by (simp only: if_False)
      show ?thesis
      proof (cases "binary_search_by_key lm_seq seq (index s)")
        case (Inl k)
        then have "k \<le> j \<longrightarrow> seq < lm_seq (index s ! j)" "j < k \<longrightarrow> lm_seq (index s ! j) < seq"
          using search_spec [of "index s" seq] i j by auto
        then show ?thesis using e Inl by auto
      next
        case (Inr k)
        then have "k < length (index s)" "lm_seq (index s ! k) = seq"
          using search_spec [of "index s" seq] i by auto
        then show ?thesis using e Inr at by simp
      qed
    qed
  qed
qed

lemma filter_interval:
  assumes "\<And>j. j < length xs \<Longrightarrow> a \<le> j \<and> j < b \<longleftrightarrow> P (xs ! j)" "a \<le> b" "b \<le> length xs"
  shows "map ((!) xs) [a..<b] = filter P xs"
proof -
  have "filter P xs = map ((!) xs) (filter (\<lambda>j. P (xs ! j)) [0..<length xs])"
    by (metis (no_types, lifting) filter_map map_nth o_def filter_cong)
  also have "filter (\<lambda>j. P (xs ! j)) [0..<length xs] = filter (\<lambda>j. a \<le> j \<and> j < b) [0..<length xs]"
    using assms(1) by (intro filter_cong) auto
  also have "[0..<length xs] = [0..<a] @ [a..<b] @ [b..<length xs]"
    using assms(2,3) upt_add_eq_append [of 0 a "b - a"] upt_add_eq_append [of 0 b "length xs - b"] by simp
  also have "filter (\<lambda>j. a \<le> j \<and> j < b) \<dots> = [a..<b]" by (simp add: filter_empty_conv filter_id_conv)
  finally show ?thesis by simp
qed

lemma read_range_journal:
  assumes "mem_ok s"
  shows "read_range a b s = Some (filter (\<lambda>e. a \<le> e_seq e \<and> e_seq e < b) (journal_of s))"
proof -
  have ok: "shape_ok s" "index_sound s" "\<forall>m \<in> set (index s). meta_in (segs s) m"
    using assms by (auto simp: mem_ok_def index_sound_def)
  define hi where "hi = min (find_lower_bound b s) (length (index s))"
  define lo where "lo = min (find_lower_bound a s) hi"
  have "lo \<le> j \<and> j < hi \<longleftrightarrow> a \<le> e_seq (journal_of s ! j) \<and> e_seq (journal_of s ! j) < b"
    if "j < length (journal_of s)" for j
    using find_lower_bound_spec [OF ok(2), of j a] find_lower_bound_spec [OF ok(2), of j b] that
    unfolding lo_def hi_def by (auto simp: journal_of_def)
  then have "map ((!) (journal_of s)) [lo..<hi] = filter (\<lambda>e. a \<le> e_seq e \<and> e_seq e < b) (journal_of s)"
    by (rule filter_interval) (auto simp: lo_def hi_def)
  moreover have "views [lo..<hi] s = Some (map ((!) (journal_of s)) [lo..<hi])"
    by (rule views_journal [OF ok(1,3)]) (simp add: hi_def)
  ultimately show ?thesis by (simp add: read_range_def lo_def hi_def Let_def)
qed

lemma for_each_range: "for_each a b s = read_range a b s"
  by (simp add: for_each_def read_range_def)

lemma mem_read_journal:
  assumes "mem_ok s"
  shows "mem_read seq s = Some (List.find (\<lambda>e. e_seq e = seq) (journal_of s))"
proof (cases "seq_to_idx seq s")
  case None
  have "index_sound s" using assms by (simp add: mem_ok_def)
  then have "List.find (\<lambda>e. e_seq e = seq) (journal_of s) = None"
    using seq_to_idx_None [OF _ None] by (auto simp: find_None_iff journal_of_def)
  then show ?thesis using None by (simp add: mem_read_def)
next
  case (Some i)
  have ok: "shape_ok s" "index_sound s" "\<forall>m \<in> set (index s). meta_in (segs s) m"
    using assms by (auto simp: mem_ok_def index_sound_def)
  note i = seq_to_idx_Some [OF ok(2) Some]
  have "\<forall>j < i. e_seq (journal_of s ! j) \<noteq> seq"
  proof (intro allI impI)
    fix j assume "j < i"
    then have "lm_seq (index s ! j) < lm_seq (index s ! i)"
      using ok(2) i(1) by (simp add: index_sound_def sorted_wrt_iff_nth_less)
    then show "e_seq (journal_of s ! j) \<noteq> seq" using i \<open>j < i\<close> by (simp add: journal_of_def)
  qed
  then have "List.find (\<lambda>e. e_seq e = seq) (journal_of s) = Some (journal_of s ! i)"
    using i by (auto simp: find_Some_iff journal_of_def intro!: exI [of _ i])
  then show ?thesis using Some get_entry_view_journal [OF ok(1,3) i(1)] by (simp add: mem_read_def)
qed

section \<open>Appending\<close>

text \<open>Segments only grow at the end of the last one, so entries already indexed keep their bytes.\<close>

definition extends :: "bytes list \<Rightarrow> bytes list \<Rightarrow> bool" where
  "extends ss ss' \<longleftrightarrow> length ss \<le> length ss' \<and> (\<forall>i < length ss. \<exists>t. ss' ! i = ss ! i @ t)"

lemma extends_meta:
  assumes "extends ss ss'" "meta_in ss m"
  shows "meta_in ss' m" "meta_entry ss' m = meta_entry ss m"
proof -
  obtain t where t: "ss' ! lm_segment_idx m = ss ! lm_segment_idx m @ t"
    using assms by (auto simp: extends_def meta_in_def)
  show "meta_in ss' m" using assms t by (auto simp: extends_def meta_in_def)
  have "lm_offset m \<le> length (ss ! lm_segment_idx m)"
    "lm_subj_len m \<le> length (ss ! lm_segment_idx m) - lm_offset m"
    "lm_payload_len m \<le> length (ss ! lm_segment_idx m) - (lm_offset m + lm_subj_len m)"
    using assms(2) by (auto simp: meta_in_def)
  then show "meta_entry ss' m = meta_entry ss m" unfolding meta_entry_def t Let_def by simp
qed

lemma rotate_segment_ok:
  assumes "mem_ok s" "mm (segment_size s)" "length (sealed s) + 1 < 2 ^ 32 - 1"
  shows "\<exists>s1. rotate_segment mm s = Inr s1 \<and> mem_ok s1 \<and> journal_of s1 = journal_of s \<and> index s1 = index s \<and>
    segs s1 = segs s @ [[]] \<and> active_len s1 = 0 \<and> next_seq s1 = next_seq s \<and> first_seq s1 = first_seq s \<and>
    segment_size s1 = segment_size s \<and> total_bytes s1 = total_bytes s \<and> length (sealed s1) = length (sealed s) + 1"
proof -
  define s1 where "s1 = s\<lparr>active := replicate (segment_size s) 0, sealed := sealed s @ [active s],
    sealed_lens := sealed_lens s @ [active_len s], active_len := 0\<rparr>"
  have sh: "shape_ok s" using assms(1) by (simp add: mem_ok_def)
  have segs: "segs s1 = segs s @ [[]]" using sh by (simp add: segs_def s1_def shape_ok_def)
  have ext: "extends (segs s) (segs s1)" unfolding segs extends_def by (simp add: nth_append)
  have i: "\<forall>m \<in> set (index s). meta_in (segs s) m" using assms(1) by (simp add: mem_ok_def index_sound_def)
  have sh1: "shape_ok s1" using sh by (simp add: shape_ok_def s1_def list_all2_append)
  have "index_sound s1" using assms(1) i extends_meta(1) [OF ext]
    unfolding mem_ok_def index_sound_def by (simp add: s1_def [symmetric]) (simp add: s1_def)
  then have "mem_ok s1" using assms(1,3) sh1 by (simp add: mem_ok_def mem_small_def s1_def)
  moreover have "journal_of s1 = journal_of s" using i extends_meta(2) [OF ext]
    by (simp add: journal_of_def) (simp add: s1_def)
  ultimately show ?thesis using segs assms(2)
    by (intro exI [of _ s1]) (simp add: rotate_segment_def s1_def [symmetric], simp add: s1_def)
qed

text \<open>Writing an entry that fits into the active segment.\<close>

definition pushed :: "(bytes \<Rightarrow> u32) \<Rightarrow> entry_ref \<Rightarrow> u64 \<Rightarrow> bytes \<Rightarrow> memory_store \<Rightarrow> memory_store" where
  "pushed hash e ts a s =
     s\<lparr>next_seq := next_seq s + 1, active := a,
       active_len := active_len s + length (r_subject e) + length (r_payload e),
       index := index s @ [\<lparr>lm_seq = next_seq s, lm_ts = ts, lm_subj_len = length (r_subject e),
         lm_payload_len = length (r_payload e), lm_offset = active_len s,
         lm_segment_idx = length (sealed s), lm_subject_hash = hash (r_subject e),
         lm_stream_id = r_stream_id e, lm_flags = r_flags e\<rparr>],
       total_bytes := total_bytes s + (length (r_subject e) + length (r_payload e))\<rparr>"

definition stored :: "entry_ref \<Rightarrow> u64 \<Rightarrow> u64 \<Rightarrow> entry" where
  "stored e ts seq = \<lparr>e_seq = seq, e_stream_id = r_stream_id e, e_timestamp = ts, e_subject = r_subject e,
     e_payload = r_payload e, e_flags = r_flags e\<rparr>"

lemma segs_pushed:
  assumes "shape_ok s" "take (active_len s + length (r_subject e) + length (r_payload e)) a =
    take (active_len s) (active s) @ r_subject e @ r_payload e"
  shows "segs (pushed hash e ts a s) = butlast (segs s) @ [last (segs s) @ r_subject e @ r_payload e]"
  using assms by (simp add: segs_def pushed_def)

lemma pushed_sel [simp]:
  "next_seq (pushed hash e ts a s) = next_seq s + 1" "first_seq (pushed hash e ts a s) = first_seq s"
  "segment_size (pushed hash e ts a s) = segment_size s" "sealed (pushed hash e ts a s) = sealed s"
  "total_bytes (pushed hash e ts a s) = total_bytes s + (length (r_subject e) + length (r_payload e))"
  by (simp_all add: pushed_def)

lemma extends_last: "ss \<noteq> [] \<Longrightarrow> extends ss (butlast ss @ [last ss @ t])"
  unfolding extends_def by (cases ss rule: rev_cases) (auto simp: nth_append less_Suc_eq)

lemma pushed_meta:
  assumes "shape_ok s" "take (active_len s + length (r_subject e) + length (r_payload e)) a =
    take (active_len s) (active s) @ r_subject e @ r_payload e" "length (r_subject e) < 2 ^ 16"
  obtains m where "index (pushed hash e ts a s) = index s @ [m]" "meta_in (segs (pushed hash e ts a s)) m"
    "meta_entry (segs (pushed hash e ts a s)) m = stored e ts (next_seq s)" "lm_seq m = next_seq s"
    "lm_segment_idx m = length (sealed s)" "lm_subj_len m + lm_payload_len m = length (r_subject e) + length (r_payload e)"
proof -
  let ?s = "pushed hash e ts a s"
  have segs: "segs ?s = butlast (segs s) @ [last (segs s) @ r_subject e @ r_payload e]"
    by (rule segs_pushed [OF assms(1,2)])
  have len: "length (segs s) = length (sealed s) + 1" "length (last (segs s)) = active_len s"
    using assms(1) by (simp_all add: segs_def shape_ok_def)
  have at: "segs ?s ! length (sealed s) = last (segs s) @ r_subject e @ r_payload e"
    unfolding segs using len(1) by (simp add: nth_append)
  show thesis
    by (rule that [of "last (index ?s)"])
      (use at len segs assms(3) in \<open>simp_all add: meta_in_def meta_entry_def stored_def Let_def\<close>,
       simp_all add: pushed_def)
qed

lemma pushed_ok:
  assumes "mem_ok s" "length a = segment_size s"
    and "take (active_len s + length (r_subject e) + length (r_payload e)) a =
      take (active_len s) (active s) @ r_subject e @ r_payload e"
    and "active_len s + length (r_subject e) + length (r_payload e) \<le> segment_size s"
    and "length (r_subject e) < 2 ^ 16"
  shows "mem_ok (pushed hash e ts a s) \<and>
    journal_of (pushed hash e ts a s) = journal_of s @ [stored e ts (next_seq s)]"
proof -
  let ?s = "pushed hash e ts a s"
  have sh: "shape_ok s" and snd: "index_sound s" using assms(1) by (simp_all add: mem_ok_def)
  have ext: "extends (segs s) (segs ?s)"
    unfolding segs_pushed [OF sh assms(3)] by (rule extends_last) (simp add: segs_def)
  have i: "\<forall>m \<in> set (index s). meta_in (segs s) m" using snd by (simp add: index_sound_def)
  obtain m where m: "index ?s = index s @ [m]" "meta_in (segs ?s) m" "meta_entry (segs ?s) m = stored e ts (next_seq s)"
    "lm_seq m = next_seq s" "lm_segment_idx m = length (sealed s)"
    "lm_subj_len m + lm_payload_len m = length (r_subject e) + length (r_payload e)"
    using pushed_meta [OF sh assms(3,5)] by metis
  have idx: "lm_segment_idx x \<le> length (sealed s)" if "x \<in> set (index s)" for x
    using i that sh by (auto simp: meta_in_def)
  have "shape_ok ?s" using sh assms(2,4) by (simp add: shape_ok_def pushed_def)
  moreover have "index_sound ?s"
    using snd m(2,4-6) extends_meta(1) [OF ext] idx
    unfolding index_sound_def m(1)
    by (auto simp: sorted_append sorted_wrt_append less_Suc_eq)
  moreover have "mem_small ?s" using assms(1) by (simp add: mem_ok_def mem_small_def)
  moreover have "journal_of ?s = journal_of s @ [stored e ts (next_seq s)]"
    unfolding journal_of_def m(1) using m(3) extends_meta(2) [OF ext] i by simp
  ultimately show ?thesis by (simp add: mem_ok_def)
qed

text \<open>An entry the journal accepts: its subject fits the 16-bit length, the whole fits a segment.\<close>

definition fits :: "entry_ref \<Rightarrow> memory_store \<Rightarrow> bool" where
  "fits e s \<longleftrightarrow> length (r_subject e) < 2 ^ 16 \<and> length (r_subject e) + length (r_payload e) \<le> segment_size s"

lemma push_entry_active:
  assumes "mem_ok s" "length (r_subject e) < 2 ^ 16"
    and "active_len s + length (r_subject e) + length (r_payload e) \<le> segment_size s"
  shows "\<exists>a. push_entry hash mm e ts s = Some (Inr (next_seq s), pushed hash e ts a s) \<and>
    mem_ok (pushed hash e ts a s) \<and>
    journal_of (pushed hash e ts a s) = journal_of s @ [stored e ts (next_seq s)]"
proof -
  have sm: "segment_size s < 2 ^ 32" "length (sealed s) < 2 ^ 32" and sh: "length (active s) = segment_size s"
    "active_len s \<le> segment_size s"
    using assms(1) by (simp_all add: mem_ok_def mem_small_def shape_ok_def)
  obtain a1 where a1: "write_slice (active s) (active_len s) (r_subject e) = Some a1"
    using assms(3) sh by (auto simp: write_slice_def)
  have l1: "length a1 = segment_size s" using length_write_slice [OF a1] sh by simp
  obtain a2 where a2: "write_slice a1 (active_len s + length (r_subject e)) (r_payload e) = Some a2"
    using assms(3) l1 by (auto simp: write_slice_def)
  have l2: "length a2 = segment_size s" using length_write_slice [OF a2] l1 by simp
  have tk: "take (active_len s + length (r_subject e) + length (r_payload e)) a2 =
      take (active_len s) (active s) @ r_subject e @ r_payload e"
    using take_write_slice [OF a2] take_write_slice [OF a1] by simp
  have lens: "length (r_subject e) mod 2 ^ 16 = length (r_subject e)"
    "length (r_payload e) mod 2 ^ 32 = length (r_payload e)" "active_len s mod 2 ^ 32 = active_len s"
    "length (sealed s) mod 2 ^ 32 = length (sealed s)"
    using assms(2,3) sm sh by (simp_all add: mod_less)
  have "push_entry hash mm e ts s = Some (Inr (next_seq s), pushed hash e ts a2 s)"
    unfolding push_entry_def pushed_def Let_def lens(1,2) using assms(3) a1 a2
    by (simp add: lens(3,4) [simplified] add.assoc)
  then show ?thesis using pushed_ok [OF assms(1) l2 tk assms(3,2)] by blast
qed

lemma push_entry_rotate:
  assumes "rotate_segment mm s = Inr s1" "active_len s1 = 0" "segment_size s1 = segment_size s"
    and "length (r_subject e) mod 2 ^ 16 + length (r_payload e) mod 2 ^ 32 \<le> segment_size s"
    and "active_len s + (length (r_subject e) mod 2 ^ 16 + length (r_payload e) mod 2 ^ 32) > segment_size s"
  shows "push_entry hash mm e ts s = push_entry hash mm e ts s1"
  using assms by (simp add: push_entry_def Let_def)

text \<open>Appending a fitting entry never fails while segments can be mapped and fewer than
  \<open>2\<^sup>3\<^sup>2 - 2\<close> segments are sealed.\<close>

lemma push_entry_ok:
  assumes "mem_ok s" "fits e s" "mm (segment_size s)" "length (sealed s) + 1 < 2 ^ 32 - 1"
  shows "\<exists>s'. push_entry hash mm e ts s = Some (Inr (next_seq s), s') \<and> mem_ok s' \<and>
    journal_of s' = journal_of s @ [stored e ts (next_seq s)] \<and> next_seq s' = next_seq s + 1 \<and>
    first_seq s' = first_seq s \<and> segment_size s' = segment_size s \<and> length (sealed s') \<le> length (sealed s) + 1"
proof (cases "active_len s + length (r_subject e) + length (r_payload e) \<le> segment_size s")
  case True
  then show ?thesis using push_entry_active [OF assms(1) _ True] assms(2) by (fastforce simp: fits_def)
next
  case False
  obtain s1 where s1: "rotate_segment mm s = Inr s1" "mem_ok s1" "journal_of s1 = journal_of s" "active_len s1 = 0"
    "next_seq s1 = next_seq s" "first_seq s1 = first_seq s" "segment_size s1 = segment_size s"
    "length (sealed s1) = length (sealed s) + 1"
    using rotate_segment_ok [of s mm, OF assms(1,3,4)] by blast
  have lens: "length (r_subject e) mod 2 ^ 16 = length (r_subject e)"
    "length (r_payload e) mod 2 ^ 32 = length (r_payload e)"
    using assms(1,2) by (simp_all add: fits_def mem_ok_def mem_small_def)
  have "push_entry hash mm e ts s = push_entry hash mm e ts s1"
    by (rule push_entry_rotate [OF s1(1,4,7)]) (use False assms(2) in \<open>auto simp: lens [simplified] fits_def\<close>)
  then show ?thesis using push_entry_active [OF s1(2), of e] s1 assms(2) by (fastforce simp: fits_def)
qed

section \<open>Truncation\<close>

definition truncate_cut :: "u64 \<Rightarrow> memory_store \<Rightarrow> nat" where
  "truncate_cut n s = min (n - first_seq s) (length (index s))"

definition rebased :: "nat \<Rightarrow> log_metadata \<Rightarrow> log_metadata" where
  "rebased k m = m\<lparr>lm_segment_idx := u32_sub (lm_segment_idx m) k\<rparr>"

lemma rebased_sel [simp]:
  "lm_seq (rebased k m) = lm_seq m" "lm_subj_len (rebased k m) = lm_subj_len m"
  "lm_payload_len (rebased k m) = lm_payload_len m"
  by (simp_all add: rebased_def)

lemma rebased_entry:
  assumes "meta_in ss m" "k \<le> lm_segment_idx m" "length ss < 2 ^ 32"
  shows "meta_in (drop k ss) (rebased k m)" "meta_entry (drop k ss) (rebased k m) = meta_entry ss m"
    "lm_segment_idx (rebased k m) = lm_segment_idx m - k"
proof -
  have i: "lm_segment_idx m < length ss" using assms(1) by (simp add: meta_in_def)
  have sub: "u32_sub (lm_segment_idx m) k = lm_segment_idx m - k"
    using i assms(2,3) mod_add_self2 [of "lm_segment_idx m - k" "2 ^ 32"]
    by (simp add: u32_sub_def mod_less)
  then show "lm_segment_idx (rebased k m) = lm_segment_idx m - k" by (simp add: rebased_def)
  have nth: "drop k ss ! (lm_segment_idx m - k) = ss ! lm_segment_idx m" using i assms(2) by simp
  show "meta_in (drop k ss) (rebased k m)" "meta_entry (drop k ss) (rebased k m) = meta_entry ss m"
    using assms(1,2) sub nth i by (simp_all add: meta_in_def meta_entry_def rebased_def)
qed

lemma index_sound_seq_ge:
  assumes "index_sound s" "i < length (index s)"
  shows "first_seq s + i \<le> lm_seq (index s ! i)"
  using assms(2)
proof (induction i)
  case 0
  then show ?case using assms(1) by (simp add: index_sound_def)
next
  case (Suc i)
  then have "lm_seq (index s ! i) < lm_seq (index s ! Suc i)"
    using assms(1) by (simp add: index_sound_def sorted_wrt_iff_nth_less)
  then show ?case using Suc by simp
qed

lemma map_drop_nth_in: "m \<in> set (drop n xs) \<Longrightarrow> \<exists>i. n \<le> i \<and> i < length xs \<and> m = xs ! i"
  unfolding in_set_conv_nth by (metis add.commute le_add2 length_drop less_diff_conv nth_drop order.strict_implies_order linorder_not_less drop_all length_0_conv not_less_zero)

lemma sorted_map_diff: "sorted xs \<Longrightarrow> sorted (map (\<lambda>x. x - k) (xs :: nat list))"
  by (induction xs) auto

lemma sum_list_take_drop:
  "sum_list (map f xs) - sum_list (map f (take n xs)) = (sum_list (map f (drop n xs)) :: nat)"
  by (metis add_diff_cancel_left' append_take_drop_id map_append sum_list_append)

definition truncated :: "u64 \<Rightarrow> nat \<Rightarrow> nat \<Rightarrow> memory_store \<Rightarrow> memory_store" where
  "truncated n c k s =
    s\<lparr>sealed := drop k (sealed s), sealed_lens := drop k (sealed_lens s),
      index := map (rebased k) (drop c (index s)), first_seq := n,
      total_bytes := total_bytes s -
        sum_list (map (\<lambda>m. lm_subj_len m + lm_payload_len m) (take c (index s)))\<rparr>"

lemma truncated_ok:
  assumes "mem_ok s" "k \<le> length (sealed s)" "\<forall>m \<in> set (drop c (index s)). k \<le> lm_segment_idx m \<and> n \<le> lm_seq m"
    and "n \<le> next_seq s" "1 \<le> n"
  shows "mem_ok (truncated n c k s) \<and> journal_of (truncated n c k s) = drop c (journal_of s)"
proof -
  let ?t = "truncated n c k s" and ?d = "drop c (index s)"
  have sh: "shape_ok s" and snd: "index_sound s" and sm: "mem_small s" using assms(1) by (simp_all add: mem_ok_def)
  have segs: "segs ?t = drop k (segs s)"
    using sh assms(2) by (simp add: segs_def truncated_def shape_ok_def drop_map drop_zip)
  have small: "length (segs s) < 2 ^ 32" using sh sm by (simp add: mem_small_def)
  have sub: "set ?d \<subseteq> set (index s)" by (rule set_drop_subset)
  have m: "meta_in (segs s) x" "k \<le> lm_segment_idx x" "n \<le> lm_seq x" "lm_seq x < next_seq s" if "x \<in> set ?d" for x
    using that sub snd assms(3) by (auto simp: index_sound_def)
  have seg: "map lm_segment_idx (map (rebased k) ?d) = map (\<lambda>x. x - k) (drop c (map lm_segment_idx (index s)))"
    using rebased_entry(3) [OF m(1,2) small] by (simp add: drop_map)
  have sh': "shape_ok ?t" using sh list_all2_dropI by (auto simp: shape_ok_def truncated_def)
  have idx: "index ?t = map (rebased k) ?d" by (simp add: truncated_def)
  have "sorted (map (\<lambda>x. x - k) (drop c (map lm_segment_idx (index s))))"
    using snd by (intro sorted_map_diff) (simp add: index_sound_def del: sorted_map)
  then have "index_sound ?t"
    unfolding index_sound_def idx segs seg
    using snd m rebased_entry(1) [OF m(1,2) small] assms(4,5)
    by (auto simp: index_sound_def truncated_def sorted_wrt_map sorted_wrt_drop sum_list_take_drop o_def)
  moreover have "mem_small ?t" using sm by (auto simp add: mem_small_def truncated_def)
  moreover have "journal_of ?t = drop c (journal_of s)"
    unfolding journal_of_def idx segs using rebased_entry(2) [OF m(1,2) small] by (simp add: drop_map)
  ultimately show ?thesis using sh' by (simp add: mem_ok_def)
qed

lemma truncate_front_truncated:
  assumes "\<not> n \<le> first_seq s" "index s \<noteq> []"
  shows "\<exists>k. truncate_front n s = (truncate_cut n s, truncated n (truncate_cut n s) k s) \<and> k \<le> length (sealed s) \<and>
    (truncate_cut n s < length (index s) \<longrightarrow> k \<le> lm_segment_idx (index s ! truncate_cut n s))"
proof -
  let ?c = "truncate_cut n s"
  define k where "k = min (if ?c < length (index s) then lm_segment_idx (index s ! ?c) else length (sealed s) + 1)
    (length (sealed s))"
  have "?c \<noteq> 0" using assms by (simp add: truncate_cut_def)
  then have "truncate_front n s = (?c, truncated n ?c k s)"
    using assms by (simp add: truncate_front_def truncated_def truncate_cut_def [symmetric] k_def [symmetric]
      rebased_def [abs_def] Let_def)
  then show ?thesis by (intro exI [of _ k]) (auto simp: k_def)
qed

lemma truncate_front_drop:
  assumes "mem_ok s" "n \<le> next_seq s"
  shows "\<exists>s'. truncate_front n s = (truncate_cut n s, s') \<and> mem_ok s' \<and>
    journal_of s' = drop (truncate_cut n s) (journal_of s) \<and> next_seq s' = next_seq s \<and>
    first_seq s' = (if index s = [] then first_seq s else max n (first_seq s)) \<and> segment_size s' = segment_size s"
proof (cases "n \<le> first_seq s \<or> index s = []")
  case True
  then show ?thesis using assms by (auto simp: truncate_front_def truncate_cut_def)
next
  case False
  let ?c = "truncate_cut n s"
  obtain k where k: "truncate_front n s = (?c, truncated n ?c k s)" "k \<le> length (sealed s)"
    "?c < length (index s) \<longrightarrow> k \<le> lm_segment_idx (index s ! ?c)"
    using truncate_front_truncated False by blast
  have snd: "index_sound s" using assms(1) by (simp add: mem_ok_def)
  have "k \<le> lm_segment_idx m \<and> n \<le> lm_seq m" if "m \<in> set (drop ?c (index s))" for m
  proof -
    obtain i where i: "?c \<le> i" "i < length (index s)" "m = index s ! i" using map_drop_nth_in [OF \<open>m \<in> _\<close>] by blast
    then have "lm_segment_idx (index s ! ?c) \<le> lm_segment_idx m"
      using snd sorted_nth_mono [of "map lm_segment_idx (index s)" ?c i] by (simp add: index_sound_def)
    moreover have "n \<le> lm_seq m" using index_sound_seq_ge [OF snd i(2)] i by (simp add: truncate_cut_def)
    ultimately show ?thesis using k(3) i by simp
  qed
  then have "mem_ok (truncated n ?c k s) \<and> journal_of (truncated n ?c k s) = drop ?c (journal_of s)"
    by (intro truncated_ok assms k) (use False in simp_all)
  then show ?thesis using k(1) False by (simp add: truncated_def)
qed

text \<open>While no entry has been drained the sequence numbers are consecutive, and then truncation
  removes exactly the entries below the given number.\<close>

definition dense :: "memory_store \<Rightarrow> bool" where
  "dense s \<longleftrightarrow> next_seq s = first_seq s + length (index s)"

lemma dense_seq:
  assumes "index_sound s" "dense s" "i < length (index s)"
  shows "lm_seq (index s ! i) = first_seq s + i"
proof -
  have "lm_seq (index s ! i) + (length (index s) - i) \<le> next_seq s"
    using assms(3)
  proof (induction "length (index s) - i - 1" arbitrary: i)
    case 0
    then have "length (index s) - i = 1" by simp
    then show ?case using assms(1) 0 by (simp add: index_sound_def Suc_le_eq)
  next
    case (Suc d)
    then have "lm_seq (index s ! i) < lm_seq (index s ! Suc i)"
      using assms(1) by (simp add: index_sound_def sorted_wrt_iff_nth_less)
    moreover have "lm_seq (index s ! Suc i) + (length (index s) - Suc i) \<le> next_seq s"
      using Suc by (intro Suc(1)) simp_all
    ultimately show ?case by simp
  qed
  then show ?thesis using index_sound_seq_ge [OF assms(1,3)] assms(2,3) by (simp add: dense_def)
qed

lemma dense_filter:
  assumes "mem_ok s" "dense s"
  shows "drop (truncate_cut n s) (journal_of s) = filter (\<lambda>e. n \<le> e_seq e) (journal_of s)"
proof -
  have "filter (\<lambda>e. n \<le> e_seq e) (journal_of s) =
      map ((!) (journal_of s)) [truncate_cut n s ..< length (journal_of s)]"
    using dense_seq [of s] assms
    by (intro filter_interval [symmetric]) (auto simp: truncate_cut_def journal_of_def mem_ok_def)
  also have "\<dots> = drop (truncate_cut n s) (map ((!) (journal_of s)) [0..<length (journal_of s)])"
    by (simp add: drop_map)
  finally show ?thesis by (simp only: map_nth)
qed

end
