(* ===== verification/Memory_Contract.thy ===== *)
theory Memory_Contract
  imports Memory_Journal
begin

text \<open>
  The destructive operations of the in-memory journal (purge, tombstones, drain) on the abstract
  journal, the contract of the \<^verbatim>\<open>Store\<close> trait as a locale, and the trait's default
  \<^verbatim>\<open>purge_before\<close> proved once from that contract.
\<close>

section \<open>Renumbering and removal\<close>

lemma mem_ok_reseq:
  assumes "mem_ok s" "\<forall>m \<in> set (index s). f \<le> lm_seq m \<and> lm_seq m < q" "1 \<le> f" "f \<le> q"
  shows "mem_ok (s\<lparr>next_seq := q, first_seq := f\<rparr>)" "journal_of (s\<lparr>next_seq := q, first_seq := f\<rparr>) = journal_of s"
proof -
  have segs: "segs (s\<lparr>next_seq := q, first_seq := f\<rparr>) = segs s" by (simp add: segs_def)
  show "journal_of (s\<lparr>next_seq := q, first_seq := f\<rparr>) = journal_of s" by (simp add: journal_of_def segs)
  show "mem_ok (s\<lparr>next_seq := q, first_seq := f\<rparr>)"
    using assms unfolding mem_ok_def shape_ok_def index_sound_def mem_small_def segs by simp
qed

lemma mem_purge_ok:
  assumes "mem_ok s"
  shows "fst (mem_purge s) = length (journal_of s)" "mem_ok (snd (mem_purge s))" "journal_of (snd (mem_purge s)) = []"
    "dense (snd (mem_purge s))" "next_seq (snd (mem_purge s)) = next_seq s"
  using assms by (auto simp: mem_purge_def mem_ok_def shape_ok_def index_sound_def mem_small_def journal_of_def dense_def)

lemma journal_seqs: "map e_seq (journal_of s) = map lm_seq (index s)"
  by (simp add: journal_of_def)

lemma journal_seq_bounds:
  assumes "mem_ok s" "e \<in> set (journal_of s)"
  shows "first_seq s \<le> e_seq e" "e_seq e < next_seq s"
  using assms by (auto simp: mem_ok_def index_sound_def journal_of_def)

lemma journal_sorted: "mem_ok s \<Longrightarrow> sorted_wrt (\<lambda>a b. e_seq a < e_seq b) (journal_of s)"
  by (simp add: mem_ok_def index_sound_def journal_of_def sorted_wrt_map)

lemma length_seg: "shape_ok s \<Longrightarrow> i < length (segs s) \<Longrightarrow> length (segs s ! i) \<le> segment_size s"
  by (auto simp: shape_ok_def segs_def nth_append list_all2_conv_all_nth)

lemma journal_fits:
  assumes "mem_ok s" "e \<in> set (journal_of s)"
  shows "length (e_subject e) < 2 ^ 16" "length (e_subject e) + length (e_payload e) \<le> segment_size s"
proof -
  obtain m where m: "m \<in> set (index s)" "e = meta_entry (segs s) m" using assms(2) by (auto simp: journal_of_def)
  then have i: "meta_in (segs s) m" using assms(1) by (simp add: mem_ok_def index_sound_def)
  have "length (segs s ! lm_segment_idx m) \<le> segment_size s"
    using i assms(1) by (intro length_seg) (auto simp: mem_ok_def meta_in_def)
  then show "length (e_subject e) < 2 ^ 16" "length (e_subject e) + length (e_payload e) \<le> segment_size s"
    using i m(2) by (auto simp: meta_entry_def meta_in_def Let_def)
qed

section \<open>Draining a stream\<close>

definition drained :: "u32 \<Rightarrow> bytes \<Rightarrow> entry \<Rightarrow> bool" where
  "drained stream_id subject e \<longleftrightarrow> e_stream_id e = stream_id \<and> (subject = [] \<or> entry_matches e subject)"

definition ref_of :: "entry \<Rightarrow> entry_ref" where
  "ref_of e = \<lparr>r_stream_id = e_stream_id e, r_subject = e_subject e, r_payload = e_payload e,
     r_flags = e_flags e, r_deliver_at_ms = 0\<rparr>"

lemma stored_ref_of [simp]: "stored (ref_of e) (e_timestamp e) (e_seq e) = e"
  by (simp add: stored_def ref_of_def)

text \<open>Copying one kept entry into the journal under construction.\<close>

lemma drain_copy:
  assumes "mem_ok n" "\<forall>x \<in> set (journal_of n). e_seq x < e_seq e" "first_seq n \<le> e_seq e"
    and "length (e_subject e) < 2 ^ 16" "length (e_subject e) + length (e_payload e) \<le> segment_size n"
    and "mm (segment_size n)" "length (sealed n) + 1 < 2 ^ 32 - 1"
  shows "\<exists>n'. push_entry hash mm (ref_of e) (e_timestamp e) (n\<lparr>next_seq := e_seq e\<rparr>) = Some (Inr (e_seq e), n') \<and>
    mem_ok n' \<and> journal_of n' = journal_of n @ [e] \<and> first_seq n' = first_seq n \<and>
    segment_size n' = segment_size n \<and> length (sealed n') \<le> length (sealed n) + 1"
proof -
  let ?n = "n\<lparr>next_seq := e_seq e\<rparr>"
  have "\<forall>m \<in> set (index n). first_seq n \<le> lm_seq m \<and> lm_seq m < e_seq e"
    using assms(1,2) by (auto simp: journal_of_def mem_ok_def index_sound_def)
  then have ok: "mem_ok ?n" and j: "journal_of ?n = journal_of n"
    using mem_ok_reseq [OF assms(1), of "first_seq n" "e_seq e"] assms(1,3)
    by (simp_all add: mem_ok_def index_sound_def)
  have "fits (ref_of e) ?n" using assms(4,5) by (simp add: fits_def ref_of_def)
  then obtain n' where "push_entry hash mm (ref_of e) (e_timestamp e) ?n = Some (Inr (e_seq e), n')" "mem_ok n'"
    "journal_of n' = journal_of n @ [e]" "first_seq n' = first_seq n" "segment_size n' = segment_size n"
    "length (sealed n') \<le> length (sealed n) + 1"
    using push_entry_ok [of ?n "ref_of e" mm hash "e_timestamp e", OF ok] assms(6,7) j by auto
  then show ?thesis by blast
qed

lemma drain_loop_step:
  assumes "get_entry_view i s = Some e"
  shows "drain_loop hash mm sid subj s (i # is) (r, n) =
    (if drained sid subj e then drain_loop hash mm sid subj s is (r + 1, n)
     else case push_entry hash mm (ref_of e) (e_timestamp e) (n\<lparr>next_seq := e_seq e\<rparr>) of
       None \<Rightarrow> None | Some (_, n') \<Rightarrow> drain_loop hash mm sid subj s is (r, n'))"
  using assms by (auto simp add: drained_def ref_of_def)

lemma drain_loop_ok:
  assumes "mem_ok s" "mm (segment_size s)" "length (index s) < 2 ^ 32 - 2" "i \<le> length (index s)"
    and "mem_ok n" "\<forall>x \<in> set (journal_of n). \<forall>y \<in> set (drop i (journal_of s)). e_seq x < e_seq y"
    and "first_seq n \<le> first_seq s" "segment_size n = segment_size s" "length (sealed n) \<le> i"
  shows "\<exists>n'. drain_loop hash mm sid subj s [i..<length (index s)] (r, n) =
      Some (r + length (filter (drained sid subj) (drop i (journal_of s))), n') \<and> mem_ok n' \<and>
    journal_of n' = journal_of n @ filter (\<lambda>e. \<not> drained sid subj e) (drop i (journal_of s)) \<and>
    segment_size n' = segment_size s"
  using assms(4-9)
proof (induction "length (index s) - i" arbitrary: i n r)
  case 0
  then show ?case by simp
next
  case (Suc d)
  define e where "e = journal_of s ! i"
  have i: "i < length (index s)" using Suc(2) by simp
  have upt: "[i..<length (index s)] = i # [Suc i..<length (index s)]" by (rule upt_conv_Cons [OF i])
  have drop: "drop i (journal_of s) = e # drop (Suc i) (journal_of s)"
    using i by (simp add: e_def Cons_nth_drop_Suc)
  have view: "get_entry_view i s = Some e"
    unfolding e_def using assms(1) i by (intro get_entry_view_journal) (auto simp: mem_ok_def index_sound_def)
  have after: "\<forall>y \<in> set (drop (Suc i) (journal_of s)). e_seq e < e_seq y"
    using sorted_wrt_drop [OF journal_sorted [OF assms(1)], of i] unfolding drop by simp
  have mem: "e \<in> set (journal_of s)" using i by (simp add: e_def)
  show ?case
  proof (cases "drained sid subj e")
    case True
    have "\<exists>n'. drain_loop hash mm sid subj s [Suc i..<length (index s)] (r + 1, n) =
      Some (r + 1 + length (filter (drained sid subj) (drop (Suc i) (journal_of s))), n') \<and> mem_ok n' \<and>
      journal_of n' = journal_of n @ filter (\<lambda>e. \<not> drained sid subj e) (drop (Suc i) (journal_of s)) \<and>
      segment_size n' = segment_size s"
      by (rule Suc(1)) (use Suc i in \<open>auto simp: drop\<close>)
    then show ?thesis using True unfolding upt drain_loop_step [OF view] drop by simp
  next
    case False
    obtain n1 where n1: "push_entry hash mm (ref_of e) (e_timestamp e) (n\<lparr>next_seq := e_seq e\<rparr>) = Some (Inr (e_seq e), n1)"
      "mem_ok n1" "journal_of n1 = journal_of n @ [e]" "first_seq n1 = first_seq n" "segment_size n1 = segment_size n"
      "length (sealed n1) \<le> length (sealed n) + 1"
      using drain_copy [of n e mm hash] Suc(4-8) journal_fits [OF assms(1) mem] journal_seq_bounds [OF assms(1) mem] assms(2,3) i
      by (auto simp: drop)
    have "\<exists>n'. drain_loop hash mm sid subj s [Suc i..<length (index s)] (r, n1) =
      Some (r + length (filter (drained sid subj) (drop (Suc i) (journal_of s))), n') \<and> mem_ok n' \<and>
      journal_of n' = journal_of n1 @ filter (\<lambda>e. \<not> drained sid subj e) (drop (Suc i) (journal_of s)) \<and>
      segment_size n' = segment_size s"
      by (rule Suc(1)) (use Suc i n1 after in \<open>auto simp: drop\<close>)
    then show ?thesis using False n1(1,3) unfolding upt drain_loop_step [OF view] drop by simp
  qed
qed

lemma with_segment_size_ok:
  assumes "min_segment_size \<le> n" "n < 2 ^ 32"
  shows "mem_ok (with_segment_size n)" "journal_of (with_segment_size n) = []" "dense (with_segment_size n)"
    "segment_size (with_segment_size n) = n" "first_seq (with_segment_size n) = 1" "sealed (with_segment_size n) = []"
    "next_seq (with_segment_size n) = 1"
  using assms by (simp_all add: with_segment_size_def mem_ok_def shape_ok_def index_sound_def mem_small_def
      journal_of_def dense_def Let_def max_absorb1)

lemma mem_drain_ok:
  assumes "mem_ok s" "mm (segment_size s)" "length (journal_of s) < 2 ^ 32 - 2"
  shows "\<exists>s'. mem_drain hash mm sid subj s = Some (length (filter (drained sid subj) (journal_of s)), s') \<and> mem_ok s' \<and>
    journal_of s' = filter (\<lambda>e. \<not> drained sid subj e) (journal_of s) \<and> next_seq s' = next_seq s"
proof -
  let ?n = "with_segment_size (segment_size s)"
  have sz: "min_segment_size \<le> segment_size s" "segment_size s < 2 ^ 32" "1 \<le> first_seq s" "1 \<le> next_seq s"
    using assms(1) by (auto simp: mem_ok_def shape_ok_def mem_small_def index_sound_def)
  obtain n' where n': "drain_loop hash mm sid subj s [0..<length (index s)] (0, ?n) =
      Some (length (filter (drained sid subj) (journal_of s)), n')" "mem_ok n'"
    "journal_of n' = filter (\<lambda>e. \<not> drained sid subj e) (journal_of s)"
    using drain_loop_ok [of s mm 0 ?n hash sid subj 0] assms with_segment_size_ok [OF sz(1,2)] sz(3) by auto
  define f where "f = (case index n' of [] \<Rightarrow> next_seq s | m # _ \<Rightarrow> lm_seq m)"
  have seqs: "lm_seq m < next_seq s \<and> 1 \<le> lm_seq m" if "m \<in> set (index n')" for m
  proof -
    have "lm_seq m \<in> set (map e_seq (journal_of n'))" unfolding journal_seqs using that by simp
    then show ?thesis using journal_seq_bounds [OF assms(1)] sz(3) by (fastforce simp: n'(3))
  qed
  have "\<forall>m \<in> set (index n'). f \<le> lm_seq m"
    using n'(2) by (auto simp: f_def mem_ok_def index_sound_def less_imp_le split: list.split)
  moreover have "1 \<le> f" "f \<le> next_seq s" using seqs sz(4) by (auto simp: f_def split: list.split intro: less_imp_le)
  ultimately have "mem_ok (n'\<lparr>next_seq := next_seq s, first_seq := f\<rparr>)"
    "journal_of (n'\<lparr>next_seq := next_seq s, first_seq := f\<rparr>) = journal_of n'"
    using mem_ok_reseq [OF n'(2), of f "next_seq s"] seqs by simp_all
  then show ?thesis using n'(1,3) sz(1) assms(2) by (simp add: mem_drain_def f_def max_absorb1)
qed

section \<open>Tombstones\<close>

definition buried :: "entry \<Rightarrow> entry" where
  "buried e = e\<lparr>e_flags := or (e_flags e) tombstone_flag\<rparr>"

definition live :: "entry \<Rightarrow> bool" where
  "live e \<longleftrightarrow> \<not> bit (e_flags e) 0"

lemma buried_not_live [simp]: "\<not> live (buried e)"
  by (simp add: live_def buried_def tombstone_flag_def bit_or_iff bit_1_iff)

text \<open>Replacing the flags of index entries.\<close>

lemma reflag_maps:
  assumes "list_all2 (\<lambda>a b. \<exists>f. b = a\<lparr>lm_flags := f\<rparr>) xs ys" "\<And>a f. g (a\<lparr>lm_flags := f\<rparr>) = g a"
  shows "map g ys = map g xs"
  using assms by (auto simp: list_eq_iff_nth_eq list_all2_conv_all_nth)

lemma ball_map_cong:
  assumes "map g ys = map g xs"
  shows "(\<forall>m \<in> set ys. P (g m)) \<longleftrightarrow> (\<forall>m \<in> set xs. P (g m))"
  using arg_cong [OF assms, of "\<lambda>zs. \<forall>z \<in> set zs. P z"] by simp

lemma reflag_ok:
  assumes "mem_ok s" "list_all2 (\<lambda>a b. \<exists>f. b = a\<lparr>lm_flags := f\<rparr>) (index s) xs"
  shows "mem_ok (s\<lparr>index := xs\<rparr>)"
proof -
  note same = reflag_maps [OF assms(2)]
  have snd: "index_sound s" and oth: "shape_ok s" "mem_small s" using assms(1) by (simp_all add: mem_ok_def)
  have segs: "segs (s\<lparr>index := xs\<rparr>) = segs s" by (simp add: segs_def)
  have srt: "sorted_wrt (\<lambda>a b. lm_seq a < lm_seq b) ys \<longleftrightarrow> sorted_wrt (<) (map lm_seq ys)" for ys
    by (simp add: sorted_wrt_map)
  have m: "map lm_seq xs = map lm_seq (index s)" "map lm_segment_idx xs = map lm_segment_idx (index s)"
    "map (\<lambda>m. lm_subj_len m + lm_payload_len m) xs = map (\<lambda>m. lm_subj_len m + lm_payload_len m) (index s)"
    "map (meta_in (segs s)) xs = map (meta_in (segs s)) (index s)"
    by (rule same, simp add: meta_in_def)+
  have "index_sound (s\<lparr>index := xs\<rparr>)"
    using snd ball_map_cong [OF m(4), of "\<lambda>b. b"] m(2,3)
      ball_map_cong [OF m(1), of "\<lambda>q. first_seq s \<le> q \<and> q < next_seq s"]
    unfolding index_sound_def segs srt m(1) by (simp add: m(1) del: sorted_map)
  then show ?thesis using oth by (simp add: mem_ok_def shape_ok_def mem_small_def)
qed

lemma meta_entry_sel [simp]:
  "e_stream_id (meta_entry ss m) = lm_stream_id m" "e_flags (meta_entry ss m) = lm_flags m"
  by (simp_all add: meta_entry_def Let_def)

lemma meta_entry_reflag [simp]: "meta_entry ss (m\<lparr>lm_flags := f\<rparr>) = (meta_entry ss m)\<lparr>e_flags := f\<rparr>"
  by (simp add: meta_entry_def Let_def)

lemma meta_entry_entomb:
  "meta_entry ss (entomb sid m) =
    (if lm_stream_id m = sid \<and> live (meta_entry ss m) then buried (meta_entry ss m) else meta_entry ss m)"
  by (simp add: entomb_def buried_def live_def)

lemma tombstone_stream_ok:
  assumes "mem_ok s"
  shows "mem_ok (snd (tombstone_stream sid s)) \<and>
    fst (tombstone_stream sid s) = length (filter (\<lambda>e. e_stream_id e = sid \<and> live e) (journal_of s)) \<and>
    journal_of (snd (tombstone_stream sid s)) =
      map (\<lambda>e. if e_stream_id e = sid \<and> live e then buried e else e) (journal_of s)"
proof -
  have "\<exists>f. entomb sid m = m\<lparr>lm_flags := f\<rparr>" for m
    by (cases m) (auto simp: entomb_def)
  then have "mem_ok (snd (tombstone_stream sid s))"
    by (simp add: tombstone_stream_def reflag_ok [OF assms] list_all2_conv_all_nth)
  moreover have "segs (snd (tombstone_stream sid s)) = segs s" by (simp add: tombstone_stream_def segs_def)
  ultimately show ?thesis
    by (simp add: journal_of_def tombstone_stream_def filter_map o_def meta_entry_entomb live_def)
qed

lemma tombstone_at_ok:
  assumes "mem_ok s"
  shows "mem_ok (snd (tombstone_at seq s)) \<and>
    fst (tombstone_at seq s) = (\<exists>e \<in> set (journal_of s). e_seq e = seq \<and> live e) \<and>
    journal_of (snd (tombstone_at seq s)) = map (\<lambda>e. if e_seq e = seq \<and> live e then buried e else e) (journal_of s)"
proof (cases "seq_to_idx seq s")
  case None
  then have "e_seq e \<noteq> seq" if "e \<in> set (journal_of s)" for e
    using seq_to_idx_None [of s seq] assms that by (fastforce simp: journal_of_def mem_ok_def)
  then show ?thesis using None assms by (simp add: tombstone_at_def map_idI)
next
  case (Some i)
  let ?m = "index s ! i" and ?J = "journal_of s"
  have i: "i < length (index s)" "lm_seq ?m = seq" using seq_to_idx_Some [OF _ Some] assms by (simp_all add: mem_ok_def)
  have only: "e_seq (?J ! j) = seq \<longleftrightarrow> j = i" if "j < length (index s)" for j
    using sorted_wrt_nth_less [OF journal_sorted [OF assms], of i j] sorted_wrt_nth_less [OF journal_sorted [OF assms], of j i]
      that i by (cases i j rule: linorder_cases) (auto simp: journal_of_def)
  have live: "live (?J ! i) \<longleftrightarrow> \<not> bit (lm_flags ?m) 0" using i by (simp add: journal_of_def live_def)
  have at: "?J ! i \<in> set ?J" "e_seq (?J ! i) = seq" using i only by (auto intro: nth_mem)
  have upd: "map (\<lambda>e. if e_seq e = seq \<and> live e then buried e else e) ?J = (if live (?J ! i) then ?J[i := buried (?J ! i)] else ?J)"
    using only i by (auto simp: list_eq_iff_nth_eq nth_list_update)
  have ex: "(\<exists>e \<in> set ?J. e_seq e = seq \<and> live e) \<longleftrightarrow> live (?J ! i)"
    using only at by (metis in_set_conv_nth length_journal)
  show ?thesis
  proof (cases "live (?J ! i)")
    case False
    then show ?thesis using Some live assms upd ex by (simp add: tombstone_at_def Let_def)
  next
    case True
    let ?m' = "?m\<lparr>lm_flags := or (lm_flags ?m) tombstone_flag\<rparr>"
    have "\<exists>f. (index s)[i := ?m'] ! j = (index s ! j)\<lparr>lm_flags := f\<rparr>" if "j < length (index s)" for j
      using that by (cases "j = i", simp add: exI [of _ "or _ _"]) (cases "index s ! j", simp)
    then have "mem_ok (s\<lparr>index := (index s)[i := ?m']\<rparr>)" by (intro reflag_ok [OF assms]) (simp add: list_all2_conv_all_nth)
    moreover have "journal_of (s\<lparr>index := (index s)[i := ?m']\<rparr>) = ?J[i := buried (?J ! i)]"
      using i by (simp add: journal_of_def segs_def map_update buried_def)
    ultimately show ?thesis using Some True live upd ex by (simp add: tombstone_at_def Let_def)
  qed
qed

section \<open>Batches\<close>

fun assigned :: "u64 \<Rightarrow> u64 \<Rightarrow> entry_ref list \<Rightarrow> entry list" where
  "assigned ts seq [] = []"
| "assigned ts seq (e # es) = stored e ts seq # assigned ts (seq + 1) es"

lemma push_entries_ok:
  assumes "mem_ok s" "\<forall>e \<in> set es. fits e s" "mm (segment_size s)" "length (sealed s) + length es < 2 ^ 32 - 1"
  shows "\<exists>s'. push_entries hash mm es ts q s = Some (Inr q, s') \<and> mem_ok s' \<and>
    journal_of s' = journal_of s @ assigned ts (next_seq s) es \<and> next_seq s' = next_seq s + length es \<and>
    first_seq s' = first_seq s \<and> segment_size s' = segment_size s"
  using assms
proof (induction es arbitrary: s)
  case (Cons e es)
  obtain s1 where s1: "push_entry hash mm e ts s = Some (Inr (next_seq s), s1)" "mem_ok s1"
    "journal_of s1 = journal_of s @ [stored e ts (next_seq s)]" "next_seq s1 = next_seq s + 1"
    "first_seq s1 = first_seq s" "segment_size s1 = segment_size s" "length (sealed s1) \<le> length (sealed s) + 1"
    using push_entry_ok [of s e mm hash ts] Cons.prems by auto
  then show ?case using Cons.IH [of s1] Cons.prems by (auto simp: fits_def)
qed simp

lemma append_batch_ok:
  assumes "mem_ok s" "\<forall>e \<in> set es. fits e s" "mm (segment_size s)" "length (sealed s) + length es < 2 ^ 32 - 1"
  shows "\<exists>s'. append_batch hash mm es ts s = Some (Inr (next_seq s), s') \<and> mem_ok s' \<and>
    journal_of s' = journal_of s @ assigned ts (next_seq s) es \<and> next_seq s' = next_seq s + length es \<and>
    first_seq s' = first_seq s \<and> segment_size s' = segment_size s"
proof (cases "es = []")
  case True
  then show ?thesis using assms(1) by (simp add: append_batch_def)
next
  case False
  then show ?thesis using push_entries_ok [OF assms(1,2), of mm hash ts "next_seq s"] assms(3,4)
    by (simp add: append_batch_def)
qed

section \<open>The trait contract\<close>

locale journal_contract =
  fixes ok :: "'s \<Rightarrow> bool" and content :: "'s \<Rightarrow> entry list"
    and info :: "'s \<Rightarrow> store_info" and each :: "u64 \<Rightarrow> u64 \<Rightarrow> 's \<Rightarrow> entry list option"
    and truncate :: "u64 \<Rightarrow> 's \<Rightarrow> u64 \<times> 's" and purge :: "'s \<Rightarrow> u64 \<times> 's"
  assumes messages: "ok s \<Longrightarrow> si_messages (info s) = length (content s)"
    and within: "ok s \<Longrightarrow> e \<in> set (content s) \<Longrightarrow> si_first_seq (info s) \<le> e_seq e \<and> e_seq e \<le> si_last_seq (info s)"
    and starts: "ok s \<Longrightarrow> content s \<noteq> [] \<Longrightarrow> e_seq (hd (content s)) = si_first_seq (info s)"
    and ordered: "ok s \<Longrightarrow> sorted_wrt (\<lambda>a b. e_seq a < e_seq b) (content s)"
    and each_range: "ok s \<Longrightarrow> each a b s = Some (filter (\<lambda>e. a \<le> e_seq e \<and> e_seq e < b) (content s))"
    and truncate_range: "ok s \<Longrightarrow> n \<le> si_last_seq (info s) \<Longrightarrow> ok (snd (truncate n s)) \<and>
      content (snd (truncate n s)) = filter (\<lambda>e. n \<le> e_seq e) (content s) \<and>
      fst (truncate n s) = length (filter (\<lambda>e. e_seq e < n) (content s))"
    and purge_all: "ok s \<Longrightarrow> ok (snd (purge s)) \<and> content (snd (purge s)) = [] \<and> fst (purge s) = length (content s)"
begin

lemma each_all: "ok s \<Longrightarrow> each (si_first_seq (info s)) (si_last_seq (info s) + 1) s = Some (content s)"
  using within by (simp add: each_range filter_id_conv less_Suc_eq_le)

lemma split_at:
  assumes "ok s" "content s = xs @ e # ys"
  shows "filter (\<lambda>x. e_seq e \<le> e_seq x) (content s) = e # ys" "filter (\<lambda>x. e_seq x < e_seq e) (content s) = xs"
proof -
  have "\<forall>x \<in> set xs. e_seq x < e_seq e" "\<forall>y \<in> set ys. e_seq e < e_seq y"
    using ordered [OF assms(1)] unfolding assms(2) by (auto simp: sorted_wrt_append)
  moreover from this have "filter (\<lambda>x. e_seq e \<le> e_seq x) xs = []" "filter (\<lambda>x. e_seq e \<le> e_seq x) ys = ys"
    "filter (\<lambda>x. e_seq x < e_seq e) xs = xs" "filter (\<lambda>x. e_seq x < e_seq e) ys = []"
    by (auto simp: filter_empty_conv filter_id_conv)
  ultimately show "filter (\<lambda>x. e_seq e \<le> e_seq x) (content s) = e # ys" "filter (\<lambda>x. e_seq x < e_seq e) (content s) = xs"
    unfolding assms(2) by simp_all
qed

lemma purge_before_found:
  assumes "ok s" "content s = xs @ e # ys" "\<forall>x \<in> set xs. e_timestamp x < t" "t \<le> e_timestamp e"
  shows "\<exists>s'. purge_before info each truncate purge t s = Some (length xs, s') \<and> ok s' \<and> content s' = e # ys"
proof -
  have "List.find (\<lambda>e. t \<le> e_timestamp e) (content s) = Some e"
    unfolding assms(2) using assms(3,4) by (induction xs) auto
  then have red: "purge_before info each truncate purge t s =
      Some (if e_seq e > si_first_seq (info s) then truncate (e_seq e) s else (0, s))"
    using assms(2) messages [OF assms(1)] each_all [OF assms(1)] by (simp add: purge_before_def Let_def)
  show ?thesis
  proof (cases xs)
    case Nil
    then show ?thesis using starts [OF assms(1)] assms(1,2) unfolding red by simp
  next
    case (Cons x zs)
    then have "si_first_seq (info s) < e_seq e"
      using ordered [OF assms(1)] starts [OF assms(1)] by (simp add: assms(2))
    moreover have "e_seq e \<le> si_last_seq (info s)" using within [OF assms(1), of e] by (simp add: assms(2))
    ultimately show ?thesis using truncate_range [OF assms(1), of "e_seq e"] unfolding red split_at [OF assms(1,2)]
      by (intro exI [of _ "snd (truncate (e_seq e) s)"]) (simp add: prod_eq_iff)
  qed
qed

lemma purge_before_all:
  assumes "ok s" "\<forall>x \<in> set (content s). e_timestamp x < t"
  shows "\<exists>s'. purge_before info each truncate purge t s = Some (length (content s), s') \<and> ok s' \<and> content s' = []"
proof -
  have "List.find (\<lambda>e. t \<le> e_timestamp e) (content s) = None" using assms(2) by (auto simp: find_None_iff)
  then show ?thesis
    using assms(1) messages [OF assms(1)] each_all [OF assms(1)] purge_all [OF assms(1)]
    by (cases "content s = []") (auto simp: purge_before_def Let_def prod_eq_iff)
qed

text \<open>The default method removes the leading entries that are older than the given time.\<close>

lemma purge_before_prefix:
  assumes "ok s"
  shows "\<exists>s'. purge_before info each truncate purge t s =
      Some (length (takeWhile (\<lambda>e. e_timestamp e < t) (content s)), s') \<and> ok s' \<and>
    content s' = dropWhile (\<lambda>e. e_timestamp e < t) (content s)"
proof (cases "dropWhile (\<lambda>e. e_timestamp e < t) (content s)")
  case Nil
  then have all: "\<forall>e \<in> set (content s). e_timestamp e < t" by (simp add: dropWhile_eq_Nil_conv)
  then have "takeWhile (\<lambda>e. e_timestamp e < t) (content s) = content s" by (simp add: takeWhile_eq_all_conv)
  then show ?thesis using purge_before_all [OF assms all] by (simp only: Nil)
next
  case (Cons e ys)
  let ?xs = "takeWhile (\<lambda>e. e_timestamp e < t) (content s)"
  have "content s = ?xs @ e # ys" using takeWhile_dropWhile_id [of "\<lambda>e. e_timestamp e < t" "content s"] Cons by simp
  moreover have "t \<le> e_timestamp e" using Cons by (metis dropWhile_eq_Cons_conv linorder_not_less)
  ultimately show ?thesis using purge_before_found [OF assms, of ?xs e ys t]
    by (simp only: Cons) (blast dest: set_takeWhileD)
qed

end

lemma truncate_front_ok:
  assumes "mem_ok s" "dense s" "n < next_seq s"
  shows "mem_ok (snd (truncate_front n s)) \<and> dense (snd (truncate_front n s)) \<and>
    journal_of (snd (truncate_front n s)) = filter (\<lambda>e. n \<le> e_seq e) (journal_of s) \<and>
    fst (truncate_front n s) = length (filter (\<lambda>e. e_seq e < n) (journal_of s))"
proof -
  obtain s' where s': "truncate_front n s = (truncate_cut n s, s')" "mem_ok s'"
    "journal_of s' = drop (truncate_cut n s) (journal_of s)" "next_seq s' = next_seq s"
    "first_seq s' = (if index s = [] then first_seq s else max n (first_seq s))"
    using truncate_front_drop [OF assms(1)] assms(3) by (metis less_imp_le)
  have "length (index s') = length (index s) - truncate_cut n s" using arg_cong [OF s'(3), of length] by simp
  then have "dense s'" using assms(2,3) s'(4,5) by (auto simp: dense_def truncate_cut_def max_def)
  moreover have "truncate_cut n s = length (filter (\<lambda>e. e_seq e < n) (journal_of s))"
    using arg_cong [OF dense_filter [OF assms(1,2), of n], of length] sum_length_filter_compl [of "\<lambda>e. n \<le> e_seq e" "journal_of s"]
    by (simp add: not_le truncate_cut_def)
  ultimately show ?thesis using s'(1-3) dense_filter [OF assms(1,2), of n] by simp
qed

lemma dense_first:
  assumes "mem_ok s" "dense s" "journal_of s \<noteq> []"
  shows "e_seq (hd (journal_of s)) = first_seq s"
  using dense_seq [of s 0] assms by (simp add: mem_ok_def journal_of_def hd_map hd_conv_nth)

interpretation mj: journal_contract "\<lambda>s. mem_ok s \<and> dense s" journal_of mem_info for_each truncate_front mem_purge
proof
  fix s :: memory_store and e a b n
  assume s: "mem_ok s \<and> dense s"
  have pos: "1 \<le> next_seq s" using s by (simp add: mem_ok_def index_sound_def)
  show "si_messages (mem_info s) = length (journal_of s)" by (simp add: mem_info_def)
  show "sorted_wrt (\<lambda>a b. e_seq a < e_seq b) (journal_of s)" using s journal_sorted by blast
  show "for_each a b s = Some (filter (\<lambda>e. a \<le> e_seq e \<and> e_seq e < b) (journal_of s))"
    using s by (simp add: for_each_range read_range_journal)
  show "(mem_ok (snd (mem_purge s)) \<and> dense (snd (mem_purge s))) \<and> journal_of (snd (mem_purge s)) = [] \<and>
      fst (mem_purge s) = length (journal_of s)" using s mem_purge_ok by simp
  show "e \<in> set (journal_of s) \<Longrightarrow> si_first_seq (mem_info s) \<le> e_seq e \<and> e_seq e \<le> si_last_seq (mem_info s)"
    using s journal_seq_bounds [of s e] by (simp add: mem_info_def)
  show "journal_of s \<noteq> [] \<Longrightarrow> e_seq (hd (journal_of s)) = si_first_seq (mem_info s)"
    using s dense_first by (simp add: mem_info_def)
  show "n \<le> si_last_seq (mem_info s) \<Longrightarrow>
      (mem_ok (snd (truncate_front n s)) \<and> dense (snd (truncate_front n s))) \<and>
      journal_of (snd (truncate_front n s)) = filter (\<lambda>e. n \<le> e_seq e) (journal_of s) \<and>
      fst (truncate_front n s) = length (filter (\<lambda>e. e_seq e < n) (journal_of s))"
    using s truncate_front_ok [of s n] pos by (simp add: mem_info_def)
qed

section \<open>Properties\<close>

text \<open>C5. The in-memory journal implements the abstract journal, the list of entries in sequence
  order.  A batch of entries that fit a segment is appended in order under consecutive sequence
  numbers, nothing stored before changes, and afterwards reading one entry, reading a range and
  walking a range give exactly what the list holds; no operation panics.\<close>

theorem memory_store_refines_journal:
  assumes "mem_ok s" "\<forall>e \<in> set es. fits e s" "mm (segment_size s)" "length (sealed s) + length es < 2 ^ 32 - 1"
  shows "\<exists>s'. append_batch hash mm es ts s = Some (Inr (next_seq s), s') \<and> mem_ok s' \<and>
    journal_of s' = journal_of s @ assigned ts (next_seq s) es \<and> next_seq s' = next_seq s + length es \<and>
    (\<forall>q. mem_read q s' = Some (List.find (\<lambda>e. e_seq e = q) (journal_of s'))) \<and>
    (\<forall>a b. read_range a b s' = Some (filter (\<lambda>e. a \<le> e_seq e \<and> e_seq e < b) (journal_of s')) \<and>
      for_each a b s' = read_range a b s')"
  using append_batch_ok [of s es mm hash ts] assms by (auto simp: mem_read_journal read_range_journal for_each_range)

definition demo_ref :: "u32 \<Rightarrow> entry_ref" where
  "demo_ref sid = \<lparr>r_stream_id = sid, r_subject = [97], r_payload = [1, 2], r_flags = 0, r_deliver_at_ms = 0\<rparr>"

lemma demo_store_ok:
  "mem_ok (with_segment_size 4096)" "journal_of (with_segment_size 4096) = []" "dense (with_segment_size 4096)"
  "segment_size (with_segment_size 4096) = 4096" "sealed (with_segment_size 4096) = []"
  "next_seq (with_segment_size 4096) = 1" "first_seq (with_segment_size 4096) = 1" "fits (demo_ref sid) (with_segment_size 4096)"
  using with_segment_size_ok [of 4096] by (simp_all add: min_segment_size_def fits_def demo_ref_def)

theorem memory_store_refines_journal_witness:
  "\<exists>s'. append_batch (\<lambda>_. 0) (\<lambda>_. True) [demo_ref 1, demo_ref 2] 7 (with_segment_size 4096) = Some (Inr 1, s') \<and>
    mem_read 2 s' = Some (Some (stored (demo_ref 2) 7 2)) \<and> mem_read 3 s' = Some None \<and>
    read_range 1 2 s' = Some [stored (demo_ref 1) 7 1]"
  using memory_store_refines_journal [of "with_segment_size 4096" "[demo_ref 1, demo_ref 2]" "\<lambda>_. True" "\<lambda>_. 0" 7] demo_store_ok
  by (auto simp: stored_def)

text \<open>C13. Draining a stream removes exactly the entries of that stream whose subject matches the
  pattern (all of its entries for the empty pattern) and reports their number.  Every other entry,
  in particular every entry of a neighbour stream in the same journal, keeps its sequence number,
  bytes, flags and position; the next sequence number is unchanged.  Tombstoning a stream likewise
  sets the flag on the live entries of that stream and on nothing else.\<close>

theorem drain_confined_to_stream:
  assumes "mem_ok s" "mm (segment_size s)" "length (journal_of s) < 2 ^ 32 - 2"
  shows "(\<exists>s'. mem_drain hash mm sid subj s = Some (length (filter (drained sid subj) (journal_of s)), s') \<and>
      mem_ok s' \<and> next_seq s' = next_seq s \<and>
      journal_of s' = filter (\<lambda>e. e_stream_id e \<noteq> sid \<or> subj \<noteq> [] \<and> \<not> entry_matches e subj) (journal_of s)) \<and>
    mem_ok (snd (tombstone_stream sid s)) \<and>
    journal_of (snd (tombstone_stream sid s)) =
      map (\<lambda>e. if e_stream_id e = sid \<and> live e then buried e else e) (journal_of s)"
proof -
  have "(\<lambda>e. \<not> drained sid subj e) = (\<lambda>e. e_stream_id e \<noteq> sid \<or> subj \<noteq> [] \<and> \<not> entry_matches e subj)"
    by (auto simp: drained_def)
  then show ?thesis using mem_drain_ok [of s mm hash sid subj] tombstone_stream_ok [of s sid] assms by auto
qed

lemma demo_appended:
  obtains s where "append_batch (\<lambda>_. 0) (\<lambda>_. True) (map demo_ref ids) 7 (with_segment_size 4096) = Some (Inr 1, s)"
    "mem_ok s" "journal_of s = assigned 7 1 (map demo_ref ids)" "next_seq s = 1 + length ids" "first_seq s = 1"
    | "2 ^ 32 - 1 \<le> length ids"
  using append_batch_ok [of "with_segment_size 4096" "map demo_ref ids" "\<lambda>_. True" "\<lambda>_. 0" 7] demo_store_ok by force

theorem drain_confined_to_stream_witness:
  "\<exists>s s'. append_batch (\<lambda>_. 0) (\<lambda>_. True) [demo_ref 1, demo_ref 2, demo_ref 1] 7 (with_segment_size 4096) = Some (Inr 1, s) \<and>
    mem_drain (\<lambda>_. 0) (\<lambda>_. True) 1 [97] s = Some (2, s') \<and> journal_of s' = [stored (demo_ref 2) 7 2]"
proof -
  obtain s where s: "append_batch (\<lambda>_. 0) (\<lambda>_. True) [demo_ref 1, demo_ref 2, demo_ref 1] 7 (with_segment_size 4096) = Some (Inr 1, s)"
    "mem_ok s" "journal_of s = assigned 7 1 [demo_ref 1, demo_ref 2, demo_ref 1]"
    by (rule demo_appended [of "[1, 2, 1]"]) simp_all
  have m: "subject_matches [97] [97]" by code_simp
  show ?thesis
    using drain_confined_to_stream [of s "\<lambda>_. True" "\<lambda>_. 0" 1 "[97]"] s m
    by (auto simp: drained_def entry_matches_def stored_def demo_ref_def)
qed

text \<open>C39. The trait's default \<^verbatim>\<open>purge_before\<close> on the in-memory journal: as long as the
  sequence numbers are consecutive it removes exactly the leading run of entries older than the
  given time and reports its length, and leaves a journal with consecutive numbers.  An older entry
  behind a newer one stays.\<close>

theorem purge_before_removes_prefix:
  assumes "mem_ok s" "dense s"
  shows "\<exists>s'. purge_before mem_info for_each truncate_front mem_purge t s =
      Some (length (takeWhile (\<lambda>e. e_timestamp e < t) (journal_of s)), s') \<and> mem_ok s' \<and> dense s' \<and>
    journal_of s' = dropWhile (\<lambda>e. e_timestamp e < t) (journal_of s)"
  using mj.purge_before_prefix [of s t] assms by blast

theorem purge_before_removes_prefix_witness:
  "\<exists>s s'. append_batch (\<lambda>_. 0) (\<lambda>_. True) [demo_ref 1, demo_ref 2] 7 (with_segment_size 4096) = Some (Inr 1, s) \<and>
    purge_before mem_info for_each truncate_front mem_purge 8 s = Some (2, s') \<and> journal_of s' = []"
proof -
  obtain s where s: "append_batch (\<lambda>_. 0) (\<lambda>_. True) [demo_ref 1, demo_ref 2] 7 (with_segment_size 4096) = Some (Inr 1, s)"
    "mem_ok s" "journal_of s = assigned 7 1 [demo_ref 1, demo_ref 2]" "next_seq s = 3" "first_seq s = 1"
    by (rule demo_appended [of "[1, 2]"]) simp_all
  then have "dense s" using length_journal [of s] by (simp add: dense_def)
  then show ?thesis
    using purge_before_removes_prefix [of s 8] s by (auto simp: stored_def)
qed


end
