(* ===== verification/Ack_Floor.thy ===== *)
theory Ack_Floor
  imports Arbitro_Prelude
begin

text \<open>
  The per-consumer acknowledgement floor of \<^verbatim>\<open>arbitro-server/src/shard/ack_floor.rs\<close>: the
  highest number below which everything is acknowledged, and a bounded set of acknowledgements that
  arrived ahead of a gap.  A \<^verbatim>\<open>BTreeSet\<close> is its ascending list of elements.
\<close>

section \<open>One consumer\<close>

definition ooo_cap :: usize where "ooo_cap = 1024"

record floor_slot =
  floor :: u64
  ooo :: "u64 list"

definition floor_slot_default :: floor_slot where
  "floor_slot_default = \<lparr>floor = 0, ooo = []\<rparr>"

fun absorb :: "u64 \<Rightarrow> u64 list \<Rightarrow> floor_slot" where
  "absorb f [] = \<lparr>floor = f, ooo = []\<rparr>"
| "absorb f (n # ns) = (if n \<noteq> f + 1 then \<lparr>floor = f, ooo = n # ns\<rparr> else absorb n ns)"

definition slot_record :: "u64 \<Rightarrow> floor_slot \<Rightarrow> floor_slot" where
  "slot_record seq s =
    (if seq \<le> floor s then s
     else if seq = floor s + 1 then absorb seq (ooo s)
     else if length (ooo s) < ooo_cap then s\<lparr>ooo := insort_insert seq (ooo s)\<rparr>
     else s)"

definition slot_seed :: "u64 \<Rightarrow> floor_slot \<Rightarrow> floor_slot" where
  "slot_seed f s =
    (if f > floor s then absorb f (filter (\<lambda>n. f + 1 \<le> n) (ooo s)) else s)"

section \<open>All consumers\<close>

type_synonym ack_floors = "floor_slot option list"

definition grow :: "usize \<Rightarrow> ack_floors \<Rightarrow> ack_floors" where
  "grow idx slots = (if idx \<ge> length slots then slots @ replicate (idx + 1 - length slots) None else slots)"

definition get_or_insert :: "floor_slot option \<Rightarrow> floor_slot" where
  "get_or_insert s = (case s of Some x \<Rightarrow> x | None \<Rightarrow> floor_slot_default)"

definition record_acked :: "u32 \<Rightarrow> u64 \<Rightarrow> ack_floors \<Rightarrow> ack_floors" where
  "record_acked consumer_id seq slots =
    (let slots = grow consumer_id slots
     in slots[consumer_id := Some (slot_record seq (get_or_insert (slots ! consumer_id)))])"

definition seed :: "u32 \<Rightarrow> u64 \<Rightarrow> ack_floors \<Rightarrow> ack_floors" where
  "seed consumer_id f slots =
    (let slots = grow consumer_id slots
     in slots[consumer_id := Some (slot_seed f (get_or_insert (slots ! consumer_id)))])"

definition floor_of :: "ack_floors \<Rightarrow> u32 \<Rightarrow> u64" where
  "floor_of slots consumer_id =
    (case vec_get slots consumer_id of Some (Some s) \<Rightarrow> floor s | _ \<Rightarrow> 0)"

definition remove_floor :: "u32 \<Rightarrow> ack_floors \<Rightarrow> ack_floors" where
  "remove_floor consumer_id slots =
    (if consumer_id < length slots then slots[consumer_id := None] else slots)"

section \<open>The slot invariant\<close>

text \<open>\<open>slot_ok st acked s\<close>: starting above \<open>st\<close>, with the acknowledgements \<open>acked\<close> recorded.  As
  long as no more than \<open>ooo_cap\<close> numbers were acknowledged, none is forgotten.\<close>

definition slot_ok :: "u64 \<Rightarrow> u64 set \<Rightarrow> floor_slot \<Rightarrow> bool" where
  "slot_ok st acked s \<longleftrightarrow> sorted_wrt (<) (ooo s) \<and> (\<forall>q \<in> set (ooo s). floor s + 1 < q) \<and>
     set (ooo s) \<subseteq> acked \<and> st \<le> floor s \<and> (\<forall>q. st < q \<and> q \<le> floor s \<longrightarrow> q \<in> acked) \<and>
     length (ooo s) \<le> ooo_cap \<and> finite acked \<and>
     (card acked \<le> ooo_cap \<longrightarrow> (\<forall>q \<in> acked. q \<le> floor s \<or> q \<in> set (ooo s)))"

lemma absorb_floor: "f \<le> floor (absorb f ns)"
  by (induction f ns rule: absorb.induct) auto

text \<open>Absorbing takes the consecutive run that follows the floor off the front.\<close>

lemma absorb_split: "ns = [f + 1 ..< floor (absorb f ns) + 1] @ ooo (absorb f ns)"
proof (induction f ns rule: absorb.induct)
  case (2 f n ns)
  then show ?case using absorb_floor [of n ns] by (auto simp: upt_rec [of "Suc f"])
qed simp

lemma absorb_gap: "ooo (absorb f ns) \<noteq> [] \<Longrightarrow> hd (ooo (absorb f ns)) \<noteq> floor (absorb f ns) + 1"
  by (induction f ns rule: absorb.induct) auto

lemma absorb_ok:
  assumes "sorted_wrt (<) ns" "\<forall>q \<in> set ns. f < q" "set ns \<subseteq> acked" "st \<le> f" "length ns \<le> ooo_cap" "finite acked"
    and "\<forall>q. st < q \<and> q \<le> f \<longrightarrow> q \<in> acked" "card acked \<le> ooo_cap \<longrightarrow> (\<forall>q \<in> acked. q \<le> f \<or> q \<in> set ns)"
  shows "slot_ok st acked (absorb f ns)"
proof -
  let ?s = "absorb f ns"
  note fl = absorb_floor [of f ns]
  have set: "set ns = {f + 1..floor ?s} \<union> set (ooo ?s)"
    by (subst absorb_split [of ns f]) (auto simp del: upt_Suc)
  have srt: "sorted_wrt (<) ([f + 1 ..< floor ?s + 1] @ ooo ?s)" using assms(1) absorb_split [of ns f] by simp
  have gt: "floor ?s < q" if "q \<in> set (ooo ?s)" for q
  proof (cases "floor ?s = f")
    case True
    then show ?thesis using that set assms(2) by auto
  next
    case False
    then have "floor ?s \<in> set [f + 1 ..< floor ?s + 1]" using fl by auto
    then show ?thesis using srt that unfolding sorted_wrt_append by blast
  qed
  have "floor ?s + 1 < q" if q: "q \<in> set (ooo ?s)" for q
  proof -
    obtain n ns' where o: "ooo ?s = n # ns'" using q by (cases "ooo ?s") simp_all
    have "n \<noteq> floor ?s + 1" using absorb_gap [of f ns] o by simp
    moreover have "floor ?s < n" using gt [of n] o by simp
    moreover have "n \<le> q" using srt q unfolding sorted_wrt_append o by auto
    ultimately show ?thesis by simp
  qed
  moreover have "length (ooo ?s) \<le> ooo_cap" using assms(5) arg_cong [OF absorb_split [of ns f], of length] by simp
  moreover have "q \<in> acked" if "st < q" "q \<le> floor ?s" for q
    using assms(3,7) set that by (cases "q \<le> f") auto
  moreover have "sorted_wrt (<) (ooo ?s)" using srt unfolding sorted_wrt_append by blast
  moreover have "set (ooo ?s) \<subseteq> acked" "st \<le> floor ?s" using assms(3,4) set fl by auto
  moreover have "card acked \<le> ooo_cap \<longrightarrow> (\<forall>q \<in> acked. q \<le> floor ?s \<or> q \<in> set (ooo ?s))"
    using assms(8) set fl by fastforce
  ultimately show ?thesis using assms(6) unfolding slot_ok_def by blast
qed

lemma slot_record_ok:
  assumes "slot_ok st acked s"
  shows "slot_ok st (insert seq acked) (slot_record seq s)"
proof -
  have cd: "card acked \<le> card (insert seq acked)" "finite acked" using assms by (simp_all add: slot_ok_def card_insert_le)
  consider "seq \<le> floor s" | "seq = floor s + 1" | "floor s + 1 < seq" by linarith
  then show ?thesis
  proof cases
    case 1
    then show ?thesis using assms cd by (auto simp: slot_record_def slot_ok_def)
  next
    case 2
    have "slot_ok st (insert seq acked) (absorb seq (ooo s))"
      using assms 2 cd by (intro absorb_ok) (auto simp: slot_ok_def le_Suc_eq)
    then show ?thesis using 2 by (simp add: slot_record_def)
  next
    case 3
    show ?thesis
    proof (cases "length (ooo s) < ooo_cap")
      case True
      have "sorted_wrt (<) (insort_insert seq (ooo s))" "length (insort_insert seq (ooo s)) \<le> ooo_cap"
        using assms True by (auto simp: slot_ok_def strict_sorted_iff insort_insert_key_def sorted_insort distinct_insort)
      then show ?thesis using assms cd 3 True
        by (auto simp: slot_record_def slot_ok_def set_insort_insert)
    next
      case False
      then have full: "length (ooo s) = ooo_cap" using assms by (simp add: slot_ok_def)
      have "seq \<in> set (ooo s) \<or> ooo_cap < card (insert seq acked)"
      proof (cases "seq \<in> set (ooo s)")
        case False
        have "card (insert seq (set (ooo s))) \<le> card (insert seq acked)"
          using assms by (intro card_mono) (auto simp: slot_ok_def)
        moreover have "card (insert seq (set (ooo s))) = ooo_cap + 1"
          using False full assms by (simp add: slot_ok_def distinct_card strict_sorted_iff)
        ultimately show ?thesis by simp
      qed simp
      then show ?thesis using assms cd 3 False by (auto simp: slot_record_def slot_ok_def)
    qed
  qed
qed

lemma slot_seed_ok:
  assumes "slot_ok st acked s"
  shows "slot_ok (max st f) acked (slot_seed f s)"
proof (cases "f > floor s")
  case True
  have "slot_ok f acked (absorb f (filter (\<lambda>n. f + 1 \<le> n) (ooo s)))"
    using assms True by (intro absorb_ok)
      (auto simp: slot_ok_def sorted_wrt_filter intro: le_trans [OF length_filter_le])
  moreover have "max st f = f" using assms True by (simp add: slot_ok_def)
  ultimately show ?thesis using True by (simp add: slot_seed_def)
next
  case False
  then show ?thesis using assms by (auto simp: slot_seed_def slot_ok_def)
qed

lemma slot_default_ok: "slot_ok 0 {} floor_slot_default"
  by (auto simp: slot_ok_def floor_slot_default_def)

section \<open>Histories\<close>

text \<open>What the command thread does to the floors, and what a history of it means for one consumer:
  the start position and the acknowledgements since its identifier was last given up.\<close>

datatype floor_op = FAck u32 u64 | FSeed u32 u64 | FDrop u32

fun floor_apply :: "floor_op \<Rightarrow> ack_floors \<Rightarrow> ack_floors" where
  "floor_apply (FAck c q) = record_acked c q"
| "floor_apply (FSeed c f) = seed c f"
| "floor_apply (FDrop c) = remove_floor c"

fun history :: "u32 \<Rightarrow> floor_op \<Rightarrow> u64 \<times> u64 set \<Rightarrow> u64 \<times> u64 set" where
  "history c (FAck d q) (st, a) = (st, if d = c then insert q a else a)"
| "history c (FSeed d f) (st, a) = (if d = c then max st f else st, a)"
| "history c (FDrop d) (st, a) = (if d = c then (0, {}) else (st, a))"

definition slot_at :: "ack_floors \<Rightarrow> u32 \<Rightarrow> floor_slot" where
  "slot_at slots c = (case vec_get slots c of Some s \<Rightarrow> get_or_insert s | None \<Rightarrow> floor_slot_default)"

lemma floor_of_slot: "floor_of slots c = floor (slot_at slots c)"
  by (simp add: floor_of_def slot_at_def get_or_insert_def floor_slot_default_def split: option.split)

lemma slot_at_update:
  "slot_at ((grow d slots)[d := Some s]) c = (if c = d then s else slot_at slots c)"
  by (auto simp: slot_at_def grow_def vec_get_def get_or_insert_def nth_append nth_list_update floor_slot_default_def)

lemma grow_nth: "get_or_insert (grow d slots ! d) = slot_at slots d"
  by (auto simp: slot_at_def grow_def vec_get_def get_or_insert_def nth_append)

lemma slot_at_apply:
  "slot_at (floor_apply (FAck d q) slots) c = (if c = d then slot_record q (slot_at slots d) else slot_at slots c)"
  "slot_at (floor_apply (FSeed d f) slots) c = (if c = d then slot_seed f (slot_at slots d) else slot_at slots c)"
  "slot_at (floor_apply (FDrop d) slots) c = (if c = d then floor_slot_default else slot_at slots c)"
  by (simp_all add: record_acked_def seed_def Let_def slot_at_update grow_nth)
    (auto simp: remove_floor_def slot_at_def vec_get_def get_or_insert_def nth_list_update)

lemma floor_apply_ok:
  assumes "slot_ok (fst h) (snd h) (slot_at slots c)"
  shows "slot_ok (fst (history c op h)) (snd (history c op h)) (slot_at (floor_apply op slots) c)"
  using assms slot_record_ok slot_seed_ok slot_default_ok by (cases h; cases op) (auto simp: slot_at_apply simp del: floor_apply.simps)

lemma floor_history_ok:
  "slot_ok (fst (fold (history c) ops (0, {}))) (snd (fold (history c) ops (0, {}))) (slot_at (fold floor_apply ops []) c)"
proof (induction ops rule: rev_induct)
  case Nil
  then show ?case using slot_default_ok by (simp add: slot_at_def vec_get_def)
next
  case (snoc op ops)
  then show ?case using floor_apply_ok by simp
qed

section \<open>Properties\<close>

text \<open>C25. For every history of acknowledgements, start positions and removals, and every consumer:
  the floor never falls below the start position, every number above the start position and up to the
  floor was acknowledged, whatever the order of arrival (so skipping up to the floor never skips an
  unacknowledged message); and if at most 1024 numbers were acknowledged the floor is the largest
  such number, the next one being unacknowledged.\<close>

theorem ack_floor_contiguous:
  assumes "fold (history c) ops (0, {}) = (st, acked)" "f = floor_of (fold floor_apply ops []) c"
  shows "st \<le> f \<and> {st<..f} \<subseteq> acked \<and> (card acked \<le> ooo_cap \<longrightarrow> f + 1 \<notin> acked)"
  using floor_history_ok [of c ops] assms unfolding floor_of_slot slot_ok_def by auto

theorem ack_floor_contiguous_witness:
  "floor_of (fold floor_apply [FSeed 2 4, FAck 2 7, FAck 2 6, FAck 2 5, FAck 2 9] []) 2 = 7 \<and> {4<..7::nat} \<subseteq> {5, 6, 7, 9}"
proof -
  have f: "floor_of (fold floor_apply [FSeed 2 4, FAck 2 7, FAck 2 6, FAck 2 5, FAck 2 9] []) 2 = 7" by code_simp
  show ?thesis
    using f ack_floor_contiguous [of 2 "[FSeed 2 4, FAck 2 7, FAck 2 6, FAck 2 5, FAck 2 9]" 4 "{5, 6, 7, 9}" 7] by auto
qed

end
