(* ===== verification/Consumer_Subjects.thy ===== *)
theory Consumer_Subjects
  imports Ack_Floor
begin

text \<open>
  The drain's book on one consumer (\<^verbatim>\<open>arbitro-server/src/shard/consumer_subjects.rs\<close>): deliveries
  in flight per subject, the mirrored acknowledgement floor and the delivery memory, a bounded set of
  numbers above the floor that must not be sent again; and the events of
  \<^verbatim>\<open>drain_events.rs\<close> that the command thread sends to it, applied by
  \<^verbatim>\<open>worker.rs::drain_event_ring\<close>.
\<close>

section \<open>The book on one consumer\<close>

definition suppress_cap :: usize where "suppress_cap = 4096"

record consumer_subjects =
  cs_inflight :: "(u32, u32) hmap"
  cs_total :: u32
  cs_ack_floor :: u64
  cs_suppressed :: "u64 list"

definition consumer_subjects_new :: consumer_subjects where
  "consumer_subjects_new = \<lparr>cs_inflight = [], cs_total = 0, cs_ack_floor = 0, cs_suppressed = []\<rparr>"

definition cs_get :: "consumer_subjects \<Rightarrow> u32 \<Rightarrow> u32" where
  "cs_get cs h = get_or (cs_inflight cs) h 0"

abbreviation cs_can :: "consumer_subjects \<Rightarrow> u32 \<Rightarrow> u32 \<Rightarrow> bool" where
  "cs_can cs h mx \<equiv> cs_get cs h < mx"

definition raise_ack_floor :: "u64 \<Rightarrow> consumer_subjects \<Rightarrow> consumer_subjects" where
  "raise_ack_floor f cs =
    (if f > cs_ack_floor cs
     then let cs = cs\<lparr>cs_ack_floor := f\<rparr>
       in if cs_suppressed cs \<noteq> [] then cs\<lparr>cs_suppressed := filter (\<lambda>q. f + 1 \<le> q) (cs_suppressed cs)\<rparr> else cs
     else cs)"

definition suppress :: "u64 \<Rightarrow> consumer_subjects \<Rightarrow> consumer_subjects" where
  "suppress seq cs =
    (if seq \<le> cs_ack_floor cs then cs
     else let kept = (if length (cs_suppressed cs) \<ge> suppress_cap then tl (cs_suppressed cs) else cs_suppressed cs)
       in cs\<lparr>cs_suppressed := insort_insert seq kept\<rparr>)"

definition release :: "u64 \<Rightarrow> consumer_subjects \<Rightarrow> consumer_subjects" where
  "release seq cs =
    (if cs_suppressed cs \<noteq> [] then cs\<lparr>cs_suppressed := filter (\<lambda>q. q \<noteq> seq) (cs_suppressed cs)\<rparr> else cs)"

definition is_suppressed :: "consumer_subjects \<Rightarrow> u64 \<Rightarrow> bool" where
  "is_suppressed cs seq \<longleftrightarrow>
     seq \<le> cs_ack_floor cs \<or> (cs_suppressed cs \<noteq> [] \<and> seq \<in> set (cs_suppressed cs))"

abbreviation distinct_subjects :: "consumer_subjects \<Rightarrow> usize" where
  "distinct_subjects cs \<equiv> length (cs_inflight cs)"

definition cs_inc :: "u32 \<Rightarrow> consumer_subjects \<Rightarrow> u32 \<times> consumer_subjects" where
  "cs_inc h cs =
    (let c = u32_add (cs_get cs h) 1
     in (c, cs\<lparr>cs_inflight := hm_insert h c (cs_inflight cs), cs_total := u32_add (cs_total cs) 1\<rparr>))"

definition cs_dec :: "u32 \<Rightarrow> consumer_subjects \<Rightarrow> u32 \<times> consumer_subjects" where
  "cs_dec h cs =
    (case hm_get (cs_inflight cs) h of
       None \<Rightarrow> (0, cs)
     | Some c \<Rightarrow>
       if c = 0 then (0, cs)
       else (c - 1, cs\<lparr>cs_total := u32_sub (cs_total cs) 1,
               cs_inflight := (if c - 1 = 0 then hm_remove h (cs_inflight cs)
                               else hm_insert h (c - 1) (cs_inflight cs))\<rparr>))"

definition cs_dec_by :: "u32 \<Rightarrow> u32 \<Rightarrow> consumer_subjects \<Rightarrow> u32 \<times> consumer_subjects" where
  "cs_dec_by h n cs =
    (case hm_get (cs_inflight cs) h of
       None \<Rightarrow> (0, cs)
     | Some c \<Rightarrow>
       let delta = min c n; c' = c - delta
       in (c', cs\<lparr>cs_total := cs_total cs - delta,
                  cs_inflight := (if c' = 0 then hm_remove h (cs_inflight cs)
                                  else hm_insert h c' (cs_inflight cs))\<rparr>))"

definition cs_clear :: "consumer_subjects \<Rightarrow> consumer_subjects" where
  "cs_clear cs = cs\<lparr>cs_inflight := [], cs_total := 0\<rparr>"

abbreviation cs_snapshot :: "consumer_subjects \<Rightarrow> (u32 \<times> u32) list" where
  "cs_snapshot cs \<equiv> cs_inflight cs"

section \<open>Events from the command thread\<close>

datatype suppress_op = Acked | Released | NoSuppressOp

datatype drain_event =
    DrainAck u32 u32 u64 u64 suppress_op
  | ConsumerRemoved u32

type_synonym subject_books = "consumer_subjects option list"

definition consumer_subjects_slot_mut :: "u32 \<Rightarrow> subject_books \<Rightarrow> consumer_subjects \<times> subject_books" where
  "consumer_subjects_slot_mut consumer_id books =
    (let books = (if consumer_id \<ge> length books then books @ replicate (consumer_id + 1 - length books) None else books);
         cs = (case books ! consumer_id of Some cs \<Rightarrow> cs | None \<Rightarrow> consumer_subjects_new)
     in (cs, books[consumer_id := Some cs]))"

definition consumer_subjects_slot :: "subject_books \<Rightarrow> u32 \<Rightarrow> consumer_subjects option" where
  "consumer_subjects_slot books consumer_id = (case vec_get books consumer_id of Some s \<Rightarrow> s | None \<Rightarrow> None)"

definition apply_suppress_op :: "suppress_op \<Rightarrow> u64 \<Rightarrow> consumer_subjects \<Rightarrow> consumer_subjects" where
  "apply_suppress_op op seq cs =
    (case op of Acked \<Rightarrow> suppress seq cs | Released \<Rightarrow> release seq cs | NoSuppressOp \<Rightarrow> cs)"

fun apply_drain_event :: "drain_event \<Rightarrow> subject_books \<Rightarrow> subject_books" where
  "apply_drain_event (DrainAck consumer_id subject_hash ack_floor seq op) books =
    (case vec_get books consumer_id of
       Some (Some cs) \<Rightarrow>
         books[consumer_id := Some (apply_suppress_op op seq (raise_ack_floor ack_floor (snd (cs_dec subject_hash cs))))]
     | _ \<Rightarrow> books)"
| "apply_drain_event (ConsumerRemoved consumer_id) books =
    (if consumer_id < length books then books[consumer_id := None] else books)"

definition drain_event_ring :: "drain_event list \<Rightarrow> subject_books \<Rightarrow> subject_books" where
  "drain_event_ring events books = fold apply_drain_event events books"

section \<open>The counters of a book\<close>

text \<open>Counts are positive and bounded, and the total is their sum.\<close>

definition book_ok :: "consumer_subjects \<Rightarrow> bool" where
  "book_ok cs \<longleftrightarrow> hm_ok (cs_inflight cs) \<and> (\<forall>(h, n) \<in> set (cs_inflight cs). 0 < n) \<and>
     cs_total cs = sum_list (map snd (cs_inflight cs)) \<and> cs_total cs < 2 ^ 32"

lemma hm_sum_insert:
  assumes "hm_ok m"
  shows "sum_list (map snd (hm_insert k v m)) + get_or m k 0 = sum_list (map snd m) + (v :: nat)"
  using assms by (induction m) (auto simp: hm_ok_def hm_insert_def get_or_def hm_get_def split: if_splits)

lemma hm_sum_remove:
  assumes "hm_ok m"
  shows "sum_list (map snd (hm_remove k m)) + get_or m k 0 = (sum_list (map snd m) :: nat)"
  using assms by (induction m) (auto simp: hm_ok_def hm_remove_def get_or_def hm_get_def)

lemma hm_insert_mem: "p \<in> set (hm_insert k v m) \<Longrightarrow> p \<in> set m \<or> p = (k, v)"
  by (induction m) (auto simp: hm_insert_def split: if_splits)

lemma hm_remove_mem: "p \<in> set (hm_remove k m) \<Longrightarrow> p \<in> set m"
  by (auto simp: hm_remove_def AList.delete_eq)

lemma get_or_le_sum: "get_or m k 0 \<le> (sum_list (map snd m) :: nat)"
  by (induction m) (auto simp: get_or_def hm_get_def)

lemma cs_inc_ok:
  assumes "book_ok cs" "cs_total cs + 1 < 2 ^ 32"
  shows "book_ok (snd (cs_inc h cs))" "cs_get (snd (cs_inc h cs)) h = cs_get cs h + 1"
    "cs_total (snd (cs_inc h cs)) = cs_total cs + 1"
proof -
  have "get_or (cs_inflight cs) h 0 \<le> cs_total cs" using assms(1) get_or_le_sum by (simp add: book_ok_def)
  then have add: "u32_add (cs_get cs h) 1 = cs_get cs h + 1" "u32_add (cs_total cs) 1 = cs_total cs + 1"
    using assms(2) by (simp_all add: u32_add_def cs_get_def)
  show "cs_get (snd (cs_inc h cs)) h = cs_get cs h + 1" "cs_total (snd (cs_inc h cs)) = cs_total cs + 1"
    unfolding cs_inc_def Let_def add by (simp_all add: cs_get_def get_or_def hm_get_insert)
  show "book_ok (snd (cs_inc h cs))"
    using assms hm_sum_insert [of "cs_inflight cs" h "cs_get cs h + 1"] unfolding cs_inc_def Let_def add
    by (auto simp: book_ok_def hm_simps cs_get_def dest: hm_insert_mem)
qed

text \<open>Taking \<open>d\<close> off the count of a subject, dropping the entry at zero.\<close>

lemma cs_lower_ok:
  assumes "book_ok cs" "hm_get (cs_inflight cs) h = Some c" "d \<le> c"
  shows "book_ok (cs\<lparr>cs_total := cs_total cs - d,
    cs_inflight := (if c - d = 0 then hm_remove h (cs_inflight cs) else hm_insert h (c - d) (cs_inflight cs))\<rparr>)"
proof -
  have c: "get_or (cs_inflight cs) h 0 = c" using assms(2) by (simp add: get_or_def)
  have "c \<le> cs_total cs" using get_or_le_sum [of "cs_inflight cs" h] assms(1) c by (simp add: book_ok_def)
  then show ?thesis
    using assms hm_sum_insert [of "cs_inflight cs" h "c - d"] hm_sum_remove [of "cs_inflight cs" h] c
    by (auto simp: book_ok_def hm_simps dest: hm_insert_mem hm_remove_mem)
qed

lemma u32_sub_less: "b \<le> a \<Longrightarrow> a < 2 ^ 32 \<Longrightarrow> u32_sub a b = a - b"
  using mod_add_self2 [of "a - b" "2 ^ 32"] by (simp add: u32_sub_def less_imp_diff_less mod_less)

lemma cs_dec_ok:
  assumes "book_ok cs"
  shows "book_ok (snd (cs_dec h cs))"
proof (cases "hm_get (cs_inflight cs) h")
  case (Some c)
  show ?thesis
  proof (cases "c = 0")
    case False
    have "c \<le> cs_total cs"
      using assms get_or_le_sum [of "cs_inflight cs" h] Some by (simp add: book_ok_def get_or_def)
    then have sub: "u32_sub (cs_total cs) 1 = cs_total cs - 1"
      using assms False by (intro u32_sub_less) (simp_all add: book_ok_def)
    show ?thesis unfolding cs_dec_def Some option.case sub using cs_lower_ok [OF assms Some, of 1] False
      by (simp split del: if_split)
  qed (simp add: cs_dec_def Some assms)
qed (simp add: cs_dec_def assms)

lemma cs_dec_by_ok:
  assumes "book_ok cs"
  shows "book_ok (snd (cs_dec_by h n cs))"
proof (cases "hm_get (cs_inflight cs) h")
  case (Some c)
  then show ?thesis unfolding cs_dec_by_def using cs_lower_ok [OF assms Some, of "min c n"]
    by (simp add: Let_def split del: if_split)
qed (simp add: cs_dec_by_def assms)

lemma book_ok_floor [simp]:
  "book_ok (raise_ack_floor f cs) = book_ok cs" "book_ok (suppress q cs) = book_ok cs" "book_ok (release q cs) = book_ok cs"
  by (simp_all add: raise_ack_floor_def suppress_def release_def book_ok_def Let_def)

lemma apply_drain_event_ok:
  assumes "\<forall>cs. Some cs \<in> set books \<longrightarrow> book_ok cs" "Some cs \<in> set (apply_drain_event ev books)"
  shows "book_ok cs"
proof (cases ev)
  case (DrainAck c h f q op)
  then show ?thesis using assms cs_dec_ok
    by (auto simp: vec_get_def apply_suppress_op_def split: if_splits option.splits suppress_op.splits
        dest!: set_update_subset_insert [THEN subsetD] dest: nth_mem)
next
  case (ConsumerRemoved c)
  then show ?thesis using assms by (auto split: if_splits dest!: set_update_subset_insert [THEN subsetD])
qed

section \<open>Delivery memory and acknowledgement floors together\<close>

lemma suppressed_raise: "is_suppressed (raise_ack_floor f cs) q \<Longrightarrow> q \<le> f \<or> is_suppressed cs q"
  by (auto simp: raise_ack_floor_def is_suppressed_def Let_def split: if_splits)

lemma in_set_tl: "x \<in> set (tl xs) \<Longrightarrow> x \<in> set xs"
  by (cases xs) auto

lemma suppressed_suppress: "is_suppressed (suppress p cs) q \<Longrightarrow> q = p \<or> is_suppressed cs q"
  by (auto simp: suppress_def is_suppressed_def Let_def set_insort_insert split: if_splits dest: in_set_tl)

lemma suppressed_release: "is_suppressed (release p cs) q \<Longrightarrow> is_suppressed cs q \<and> (q \<noteq> p \<or> q \<le> cs_ack_floor cs)"
  by (auto simp: release_def is_suppressed_def split: if_splits)

lemma suppressed_dec [simp]: "is_suppressed (snd (cs_dec h cs)) q = is_suppressed cs q" "is_suppressed (snd (cs_inc h cs)) q = is_suppressed cs q"
  by (auto simp: cs_dec_def cs_inc_def is_suppressed_def Let_def split: option.split)

lemma ack_floor_raise [simp]: "cs_ack_floor (raise_ack_floor f cs) = max (cs_ack_floor cs) f"
  by (simp add: raise_ack_floor_def Let_def)

lemma ack_floor_same [simp]:
  "cs_ack_floor (suppress q cs) = cs_ack_floor cs" "cs_ack_floor (release q cs) = cs_ack_floor cs"
  "cs_ack_floor (snd (cs_dec h cs)) = cs_ack_floor cs" "cs_ack_floor (snd (cs_inc h cs)) = cs_ack_floor cs"
  by (simp_all add: suppress_def release_def cs_dec_def cs_inc_def Let_def split: option.split)

text \<open>
  The command thread owns the floors, the drain owns the books; events travel through a ring and,
  when it is full, through a retry queue, so any event still under way may be the next one applied.
  The last three fields are ghosts: start positions, acknowledgements, and deliveries not yet
  released in the drain's book.
\<close>

record delivery_memory =
  dm_floors :: ack_floors
  dm_books :: subject_books
  dm_events :: "drain_event list"
  dm_start :: "u32 \<Rightarrow> u64"
  dm_acked :: "u32 \<Rightarrow> u64 set"
  dm_out :: "u32 \<Rightarrow> u64 set"

definition dm_init :: delivery_memory where
  "dm_init = \<lparr>dm_floors = [], dm_books = [], dm_events = [], dm_start = (\<lambda>_. 0), dm_acked = (\<lambda>_. {}), dm_out = (\<lambda>_. {})\<rparr>"

definition suppressed_for :: "subject_books \<Rightarrow> u32 \<Rightarrow> u64 \<Rightarrow> bool" where
  "suppressed_for books c q \<longleftrightarrow> (case consumer_subjects_slot books c of Some cs \<Rightarrow> is_suppressed cs q | None \<Rightarrow> False)"

definition deliver_book :: "u32 \<Rightarrow> u32 \<Rightarrow> u64 \<Rightarrow> subject_books \<Rightarrow> subject_books" where
  "deliver_book c h q books =
    (let (cs, books') = consumer_subjects_slot_mut c books in books'[c := Some (suppress q (snd (cs_inc h cs)))])"

fun released_by :: "drain_event \<Rightarrow> u32 \<Rightarrow> u64 set" where
  "released_by (DrainAck d h f q Released) c = (if c = d then {q} else {})"
| "released_by _ c = {}"

inductive memory_step :: "delivery_memory \<Rightarrow> delivery_memory \<Rightarrow> bool" where
  seed_start: "memory_step s (s\<lparr>dm_floors := seed c f (dm_floors s), dm_start := (dm_start s)(c := max (dm_start s c) f)\<rparr>)"
| deliver: "\<not> suppressed_for (dm_books s) c q \<Longrightarrow>
    memory_step s (s\<lparr>dm_books := deliver_book c h q (dm_books s), dm_out := (dm_out s)(c := insert q (dm_out s c))\<rparr>)"
| ack: "fl = record_acked c q (dm_floors s) \<Longrightarrow>
    memory_step s (s\<lparr>dm_floors := fl, dm_acked := (dm_acked s)(c := insert q (dm_acked s c)),
      dm_events := dm_events s @ [DrainAck c h (floor_of fl c) q Acked]\<rparr>)"
| give_back: "op \<noteq> Acked \<Longrightarrow>
    memory_step s (s\<lparr>dm_events := dm_events s @ [DrainAck c h (floor_of (dm_floors s) c) q op]\<rparr>)"
| apply_event: "dm_events s = xs @ ev # ys \<Longrightarrow>
    memory_step s (s\<lparr>dm_books := apply_drain_event ev (dm_books s), dm_events := xs @ ys,
      dm_out := (\<lambda>c. dm_out s c - released_by ev c)\<rparr>)"

inductive memory_reach :: "delivery_memory \<Rightarrow> bool" where
  init: "memory_reach dm_init"
| step: "memory_reach s \<Longrightarrow> memory_step s s' \<Longrightarrow> memory_reach s'"

definition event_good :: "delivery_memory \<Rightarrow> drain_event \<Rightarrow> bool" where
  "event_good s ev \<longleftrightarrow> (case ev of
     DrainAck c h f q op \<Rightarrow> f \<le> floor_of (dm_floors s) c \<and> (op = Acked \<longrightarrow> q \<in> dm_acked s c)
   | ConsumerRemoved c \<Rightarrow> True)"

definition memory_inv :: "delivery_memory \<Rightarrow> bool" where
  "memory_inv s \<longleftrightarrow> (\<forall>c. slot_ok (dm_start s c) (dm_acked s c) (slot_at (dm_floors s) c)) \<and>
     (\<forall>ev \<in> set (dm_events s). event_good s ev) \<and>
     (\<forall>c cs. consumer_subjects_slot (dm_books s) c = Some cs \<longrightarrow>
        cs_ack_floor cs \<le> floor_of (dm_floors s) c \<and>
        (\<forall>q. is_suppressed cs q \<longrightarrow> q \<le> floor_of (dm_floors s) c \<or> q \<in> dm_acked s c \<or> q \<in> dm_out s c))"

lemma floor_grows:
  "floor_of slots c \<le> floor_of (record_acked d q slots) c" "floor_of slots c \<le> floor_of (seed d f slots) c"
proof -
  have "floor s \<le> floor (slot_record q s)" "floor s \<le> floor (slot_seed f s)" for s
    using absorb_floor [of q "ooo s"] absorb_floor [of f "filter (\<lambda>n. f + 1 \<le> n) (ooo s)"]
    by (auto simp: slot_record_def slot_seed_def)
  then show "floor_of slots c \<le> floor_of (record_acked d q slots) c" "floor_of slots c \<le> floor_of (seed d f slots) c"
    using slot_at_apply(1,2) [of d _ slots c] by (simp_all add: floor_of_slot)
qed

lemma slot_after:
  "consumer_subjects_slot (deliver_book d h q books) c =
    (if c = d then Some (suppress q (snd (cs_inc h (case consumer_subjects_slot books d of Some cs \<Rightarrow> cs | None \<Rightarrow> consumer_subjects_new))))
     else consumer_subjects_slot books c)"
  by (auto simp: deliver_book_def consumer_subjects_slot_mut_def consumer_subjects_slot_def vec_get_def Let_def
      nth_append nth_list_update split: option.split)

lemma slot_event:
  "consumer_subjects_slot (apply_drain_event (DrainAck d h f q op) books) c =
    (if c = d then map_option (\<lambda>cs. apply_suppress_op op q (raise_ack_floor f (snd (cs_dec h cs)))) (consumer_subjects_slot books d)
     else consumer_subjects_slot books c)"
  "consumer_subjects_slot (apply_drain_event (ConsumerRemoved d) books) c = (if c = d then None else consumer_subjects_slot books c)"
  by (auto simp: consumer_subjects_slot_def vec_get_def nth_list_update split: option.split)

declare apply_drain_event.simps [simp del]

lemma suppressed_event:
  assumes "is_suppressed (apply_suppress_op op p (raise_ack_floor f (snd (cs_dec h cs)))) q"
  shows "q \<le> f \<or> op = Acked \<and> q = p \<or> is_suppressed cs q \<and> (op = Released \<longrightarrow> q \<noteq> p \<or> q \<le> cs_ack_floor cs)"
  using assms by (cases op) (auto simp: apply_suppress_op_def dest!: suppressed_suppress suppressed_release suppressed_raise)

lemma event_good_cong:
  "dm_floors s' = dm_floors s \<Longrightarrow> dm_acked s' = dm_acked s \<Longrightarrow> event_good s' ev = event_good s ev"
  by (cases ev) (simp_all add: event_good_def)

definition book_good :: "delivery_memory \<Rightarrow> u32 \<Rightarrow> consumer_subjects \<Rightarrow> bool" where
  "book_good s c cs \<longleftrightarrow> cs_ack_floor cs \<le> floor_of (dm_floors s) c \<and>
     (\<forall>q. is_suppressed cs q \<longrightarrow> q \<le> floor_of (dm_floors s) c \<or> q \<in> dm_acked s c \<or> q \<in> dm_out s c)"

lemma book_goodI:
  assumes "book_good s c cs" "cs_ack_floor cs' \<le> floor_of (dm_floors s') c"
    and "floor_of (dm_floors s) c \<le> floor_of (dm_floors s') c" "dm_acked s c \<subseteq> dm_acked s' c"
    and "\<And>q. is_suppressed cs' q \<Longrightarrow> q \<le> floor_of (dm_floors s') c \<or> q \<in> dm_acked s' c \<or> q \<in> dm_out s' c \<or>
      (is_suppressed cs q \<and> (q \<in> dm_out s c \<longrightarrow> q \<in> dm_out s' c))"
  shows "book_good s' c cs'"
  using assms unfolding book_good_def by (metis order.trans subsetD)

lemma memory_inv_books:
  "memory_inv s \<longleftrightarrow> (\<forall>c. slot_ok (dm_start s c) (dm_acked s c) (slot_at (dm_floors s) c)) \<and>
     (\<forall>ev \<in> set (dm_events s). event_good s ev) \<and>
     (\<forall>c cs. consumer_subjects_slot (dm_books s) c = Some cs \<longrightarrow> book_good s c cs)"
  by (simp add: memory_inv_def book_good_def)

lemma event_good_mono:
  assumes "event_good s ev" "\<And>c. floor_of (dm_floors s) c \<le> floor_of (dm_floors s') c" "\<And>c. dm_acked s c \<subseteq> dm_acked s' c"
  shows "event_good s' ev"
  using assms unfolding event_good_def by (fastforce split: drain_event.splits intro: order.trans)

text \<open>The steps of the command thread leave the books alone.\<close>

lemma command_step_inv:
  assumes "memory_inv s" "dm_books s' = dm_books s" "dm_out s' = dm_out s"
    and "\<And>c. floor_of (dm_floors s) c \<le> floor_of (dm_floors s') c" "\<And>c. dm_acked s c \<subseteq> dm_acked s' c"
    and "\<And>c. slot_ok (dm_start s' c) (dm_acked s' c) (slot_at (dm_floors s') c)"
    and "\<And>ev. ev \<in> set (dm_events s') \<Longrightarrow> ev \<notin> set (dm_events s) \<Longrightarrow> event_good s' ev"
  shows "memory_inv s'"
  unfolding memory_inv_books
proof (intro conjI allI ballI impI)
  fix ev assume "ev \<in> set (dm_events s')"
  then show "event_good s' ev"
    using assms(7) event_good_mono [OF _ assms(4,5)] assms(1) unfolding memory_inv_books by blast
next
  fix c cs assume "consumer_subjects_slot (dm_books s') c = Some cs"
  then have "book_good s c cs" using assms(1,2) unfolding memory_inv_books by simp
  then show "book_good s' c cs"
    using assms(3,4) by (intro book_goodI [OF \<open>book_good s c cs\<close> _ assms(4,5)]) (auto simp: book_good_def intro: order.trans)
qed (rule assms(6))

lemma deliver_inv:
  assumes "memory_inv s"
  shows "memory_inv (s\<lparr>dm_books := deliver_book d h p (dm_books s), dm_out := (dm_out s)(d := insert p (dm_out s d))\<rparr>)"
    (is "memory_inv ?s'")
  unfolding memory_inv_books
proof (intro conjI allI ballI impI)
  fix c cs' assume cs': "consumer_subjects_slot (dm_books ?s') c = Some cs'"
  show "book_good ?s' c cs'"
  proof (cases "c = d")
    case False
    then have "book_good s c cs'" using assms cs' by (simp add: memory_inv_books slot_after)
    then show ?thesis using False by (simp add: book_good_def)
  next
    case True
    define cs where "cs = (case consumer_subjects_slot (dm_books s) d of Some cs \<Rightarrow> cs | None \<Rightarrow> consumer_subjects_new)"
    have good: "book_good s d cs"
      using assms unfolding cs_def memory_inv_books
      by (auto simp: book_good_def consumer_subjects_new_def is_suppressed_def split: option.split)
    have eq: "cs' = suppress p (snd (cs_inc h cs))" using cs' True by (simp add: slot_after cs_def)
    show ?thesis unfolding True eq
      by (rule book_goodI [OF good]) (use good in \<open>auto simp: book_good_def dest!: suppressed_suppress\<close>)
  qed
next
  fix ev' assume "ev' \<in> set (dm_events ?s')"
  then have "event_good s ev'" using assms unfolding memory_inv_books by auto
  then show "event_good ?s' ev'" using event_good_cong [of ?s' s ev'] by simp
qed (use assms in \<open>simp add: memory_inv_books\<close>)

lemma apply_event_inv:
  assumes "memory_inv s" "dm_events s = xs @ ev # ys"
  shows "memory_inv (s\<lparr>dm_books := apply_drain_event ev (dm_books s), dm_events := xs @ ys,
    dm_out := (\<lambda>c. dm_out s c - released_by ev c)\<rparr>)" (is "memory_inv ?s'")
  unfolding memory_inv_books
proof (intro conjI allI ballI impI)
  fix c cs' assume cs': "consumer_subjects_slot (dm_books ?s') c = Some cs'"
  have ev: "event_good s ev" using assms unfolding memory_inv_books by simp
  show "book_good ?s' c cs'"
  proof (cases ev)
    case (ConsumerRemoved d)
    then have "book_good s c cs'" using assms(1) cs' by (simp add: memory_inv_books slot_event split: if_splits)
    then show ?thesis using ConsumerRemoved by (simp add: book_good_def)
  next
    case (DrainAck d h f p op)
    show ?thesis
    proof (cases "c = d")
      case False
      then have "book_good s c cs'" using assms(1) cs' DrainAck by (simp add: memory_inv_books slot_event)
      moreover have "released_by ev c = {}" using DrainAck False by (cases op) auto
      ultimately show ?thesis by (simp add: book_good_def)
    next
      case True
      obtain cs where cs: "consumer_subjects_slot (dm_books s) d = Some cs"
        "cs' = apply_suppress_op op p (raise_ack_floor f (snd (cs_dec h cs)))"
        using cs' True DrainAck by (auto simp: slot_event)
      have good: "book_good s d cs" using assms(1) cs(1) by (simp add: memory_inv_books)
      have f: "f \<le> floor_of (dm_floors s) d" "op = Acked \<longrightarrow> p \<in> dm_acked s d" using ev DrainAck by (simp_all add: event_good_def)
      have rel: "x \<in> released_by ev d \<Longrightarrow> op = Released \<and> x = p" for x using DrainAck by (cases op) auto
      show ?thesis unfolding True cs(2)
      proof (rule book_goodI [OF good])
        show "cs_ack_floor (apply_suppress_op op p (raise_ack_floor f (snd (cs_dec h cs)))) \<le> floor_of (dm_floors ?s') d"
          using f(1) good by (simp add: apply_suppress_op_def book_good_def split: suppress_op.split)
        fix q assume "is_suppressed (apply_suppress_op op p (raise_ack_floor f (snd (cs_dec h cs)))) q"
        from suppressed_event [OF this] f good rel [of q]
        show "q \<le> floor_of (dm_floors ?s') d \<or> q \<in> dm_acked ?s' d \<or> q \<in> dm_out ?s' d \<or>
            is_suppressed cs q \<and> (q \<in> dm_out s d \<longrightarrow> q \<in> dm_out ?s' d)"
          by (auto simp: book_good_def)
      qed simp_all
    qed
  qed
next
  fix ev' assume "ev' \<in> set (dm_events ?s')"
  then have "event_good s ev'" using assms unfolding memory_inv_books by auto
  then show "event_good ?s' ev'" using event_good_cong [of ?s' s ev'] by simp
qed (use assms in \<open>simp add: memory_inv_books\<close>)

lemma memory_step_inv:
  assumes "memory_step s s'" "memory_inv s"
  shows "memory_inv s'"
  using assms
proof (induction rule: memory_step.induct)
  case (seed_start s c f)
  have "slot_ok (if d = c then max (dm_start s c) f else dm_start s d) (dm_acked s d) (slot_at (seed c f (dm_floors s)) d)" for d
    using seed_start slot_seed_ok slot_at_apply(2) [of c f "dm_floors s" d] by (simp add: memory_inv_books)
  then show ?case by (intro command_step_inv [OF seed_start]) (auto simp: floor_grows)
next
  case (deliver s c q h)
  show ?case by (rule deliver_inv [OF deliver(2)])
next
  case (ack fl c q s h)
  have "slot_ok (dm_start s d) (if d = c then insert q (dm_acked s c) else dm_acked s d) (slot_at fl d)" for d
    using ack slot_record_ok slot_at_apply(1) [of c q "dm_floors s" d] by (simp add: memory_inv_books)
  then show ?case by (intro command_step_inv [OF ack(2)]) (auto simp: floor_grows ack(1) event_good_def)
next
  case (give_back op s c h q)
  then show ?case
    by (intro command_step_inv [OF give_back(2)]) (auto simp: event_good_def memory_inv_books)
next
  case (apply_event s xs ev ys)
  then show ?case by (intro apply_event_inv)
qed

lemma memory_reach_inv: "memory_reach s \<Longrightarrow> memory_inv s"
proof (induction rule: memory_reach.induct)
  case init
  then show ?case using slot_default_ok
    by (simp add: memory_inv_books dm_init_def slot_at_def vec_get_def consumer_subjects_slot_def)
next
  case (step s s')
  then show ?case using memory_step_inv by blast
qed

section \<open>Properties\<close>


lemma demo_memory:
  "memory_reach (dm_init\<lparr>dm_books := deliver_book 1 9 1 [], dm_out := (\<lambda>_. {})(1 := {1})\<rparr>)"
  using memory_reach.step [OF memory_reach.init memory_step.deliver [of dm_init 1 1 9]]
  by (simp add: dm_init_def suppressed_for_def consumer_subjects_slot_def vec_get_def)


end
