(* ===== verification/Eviction.thy ===== *)
theory Eviction
  imports Memory_Contract
begin

text \<open>
  Age-based eviction, \<^verbatim>\<open>CommandWorker::evict_expired\<close> of
  \<^verbatim>\<open>arbitro-server/src/shard/handlers.rs\<close>: one shard journal holds several streams, the walk
  looks for the first entry of each stream that must stay, and the journal is cut at the least of
  them.  The journal is reached through the operations of the \<^verbatim>\<open>Store\<close> trait.
\<close>

section \<open>The walk\<close>

record stream_retention =
  max_age_ms :: u64
  created_at_seq :: u64

record evict_state =
  ev_retention :: "(u32, stream_retention) hmap"
  evict_resume_seq :: u64
  stream_oldest_ts :: "(u32, u64) hmap"

definition evict_walk_cap :: u64 where "evict_walk_cap = 10000"

definition max_stream_idx :: "(u32, stream_retention) hmap \<Rightarrow> usize" where
  "max_stream_idx m = fold max (map fst m) 0"

definition cutoff_ts :: "u64 \<Rightarrow> (u32, stream_retention) hmap \<Rightarrow> u64 list" where
  "cutoff_ts now_ms m =
     fold (\<lambda>(sid, r) v. if max_age_ms r > 0 then v[sid := now_ms - max_age_ms r] else v) m
       (replicate (max_stream_idx m + 1) 0)"

definition pre_resolved :: "u64 list \<Rightarrow> (u32, u64) hmap \<Rightarrow> (u32, stream_retention) hmap \<Rightarrow> bool list" where
  "pre_resolved cts oldest m =
     fold (\<lambda>(sid, r) v.
         if sid < length v \<and> max_age_ms r > 0 then
           case hm_get oldest sid of
             Some cached_ts \<Rightarrow> if cached_ts \<ge> cts ! sid then v[sid := True] else v
           | None \<Rightarrow> v
         else v) m
       (replicate (max_stream_idx m + 1) False)"

type_synonym evict_acc = "u64 \<times> bool list \<times> (u32 \<times> u64) list"

definition lower :: "u64 \<Rightarrow> u64 \<Rightarrow> u64" where
  "lower seq mv = (if mv = 0 \<or> seq < mv then seq else mv)"

definition evict_visit :: "u64 list \<Rightarrow> entry \<Rightarrow> evict_acc \<Rightarrow> evict_acc" where
  "evict_visit cts e acc =
    (case acc of (mv, res, ups) \<Rightarrow>
       let sid = e_stream_id e in
       if sid \<ge> length res then (lower (e_seq e) mv, res, ups)
       else if res ! sid then acc
       else if cts ! sid = 0 then (lower (e_seq e) mv, res[sid := True], ups)
       else if e_timestamp e \<ge> cts ! sid
         then (lower (e_seq e) mv, res[sid := True], ups @ [(sid, e_timestamp e)])
       else acc)"

definition evict_expired ::
  "('s \<Rightarrow> store_info) \<Rightarrow> (u64 \<Rightarrow> u64 \<Rightarrow> 's \<Rightarrow> entry list option) \<Rightarrow> (u64 \<Rightarrow> 's \<Rightarrow> u64 \<times> 's) \<Rightarrow>
   u64 \<Rightarrow> evict_state \<times> 's \<Rightarrow> (evict_state \<times> 's) option" where
  "evict_expired info each trunc now_ms st =
    (let w = fst st; s = snd st; inf = info s in
     if \<not> list_ex (\<lambda>(_, r). max_age_ms r > 0) (ev_retention w) then Some st
     else if si_messages inf = 0 then Some st
     else
       let cts = cutoff_ts now_ms (ev_retention w);
           start = max (si_first_seq inf) (evict_resume_seq w);
           end = min (start + evict_walk_cap) (si_last_seq inf + 1);
           res = pre_resolved cts (stream_oldest_ts w) (ev_retention w)
       in case each start end s of
         None \<Rightarrow> None
       | Some es \<Rightarrow>
         let (mv, _, ups) = fold (evict_visit cts) es (0, res, []);
             w1 = w\<lparr>stream_oldest_ts := fold (\<lambda>(sid, ts). hm_insert sid ts) ups (stream_oldest_ts w)\<rparr>
         in Some (if mv > si_first_seq inf then
               let (deleted, s1) = trunc mv s
               in ((if deleted > 0 then w1\<lparr>stream_oldest_ts := []\<rparr> else w1)\<lparr>evict_resume_seq := 0\<rparr>, s1)
             else if end < si_last_seq inf + 1 then (w1\<lparr>evict_resume_seq := end\<rparr>, s)
             else (w1\<lparr>evict_resume_seq := 0\<rparr>, s)))"

section \<open>What the walk computes\<close>

text \<open>An entry that must stay: its stream is unknown, has no age limit, or it is young enough.\<close>

definition must_stay :: "u64 list \<Rightarrow> entry \<Rightarrow> bool" where
  "must_stay cts e \<longleftrightarrow> length cts \<le> e_stream_id e \<or> cts ! e_stream_id e = 0 \<or> cts ! e_stream_id e \<le> e_timestamp e"

lemma evict_visit_lower:
  "0 < e_seq e \<Longrightarrow> fst acc = 0 \<or> fst (evict_visit cts e acc) \<le> fst acc"
  by (cases acc) (simp add: evict_visit_def lower_def Let_def)

definition walk_ok :: "u64 list \<Rightarrow> entry list \<Rightarrow> evict_acc \<Rightarrow> bool" where
  "walk_ok cts es acc \<longleftrightarrow> (case acc of (mv, res, ups) \<Rightarrow> length res = length cts \<and>
     (\<forall>e \<in> set es. must_stay cts e \<longrightarrow> 0 < mv \<and> mv \<le> e_seq e) \<and>
     (\<forall>sid < length res. res ! sid \<longrightarrow> (\<exists>e \<in> set es. e_stream_id e = sid \<and> must_stay cts e)) \<and>
     (mv = 0 \<or> mv \<in> e_seq ` set es))"

lemma walk_ok_lower:
  assumes "walk_ok cts es (mv, res, ups)" "0 < e_seq e" "\<forall>x \<in> set es. e_seq x < e_seq e" "must_stay cts e"
    and "length res' = length cts" "\<And>sid. sid < length res' \<Longrightarrow> res' ! sid \<Longrightarrow> res ! sid \<or> sid = e_stream_id e"
  shows "walk_ok cts (es @ [e]) (lower (e_seq e) mv, res', ups')"
proof -
  have l: "lower (e_seq e) mv = (if mv = 0 then e_seq e else mv)" "mv = 0 \<or> mv < e_seq e"
    using assms(1,3) by (auto simp: walk_ok_def lower_def)
  have old: "mv \<le> e_seq x" if "x \<in> set es" "must_stay cts x" for x using assms(1) that by (simp add: walk_ok_def)
  have "\<exists>x \<in> set (es @ [e]). e_stream_id x = sid \<and> must_stay cts x" if "sid < length res'" "res' ! sid" for sid
    using assms(6) [OF that] that(1) assms(1,4,5) unfolding walk_ok_def prod.case by (metis UnCI Un_iff list.set_intros(1) set_append)
  moreover have "0 < lower (e_seq e) mv \<and> lower (e_seq e) mv \<le> e_seq x" if "x \<in> set (es @ [e])" "must_stay cts x" for x
    using that l assms(1,2) old by (auto simp: walk_ok_def)
  moreover have "lower (e_seq e) mv \<in> e_seq ` set (es @ [e])" using l assms(1) by (auto simp: walk_ok_def)
  ultimately show ?thesis using assms(5) unfolding walk_ok_def prod.case by blast
qed

lemma walk_ok_same:
  assumes "walk_ok cts es (mv, res, ups)" "must_stay cts e \<longrightarrow> 0 < mv \<and> mv \<le> e_seq e"
  shows "walk_ok cts (es @ [e]) (mv, res, ups)"
  using assms unfolding walk_ok_def by auto

lemma evict_visit_ok:
  assumes "walk_ok cts es acc" "0 < e_seq e" "\<forall>x \<in> set es. e_seq x < e_seq e"
  shows "walk_ok cts (es @ [e]) (evict_visit cts e acc)"
proof -
  obtain mv res ups where acc: "acc = (mv, res, ups)" by (cases acc)
  let ?sid = "e_stream_id e"
  have len: "length res = length cts" using assms(1) acc by (simp add: walk_ok_def)
  note low = walk_ok_lower [OF assms(1) [unfolded acc] assms(2,3)]
  consider "?sid \<ge> length res" | "?sid < length res" "res ! ?sid" | "?sid < length res" "\<not> res ! ?sid" "must_stay cts e"
    | "?sid < length res" "\<not> res ! ?sid" "\<not> must_stay cts e" by linarith
  then show ?thesis
  proof cases
    case 1
    then show ?thesis unfolding acc evict_visit_def using len by (simp add: Let_def) (rule low, auto simp: must_stay_def)
  next
    case 2
    then obtain x where x: "x \<in> set es" "e_stream_id x = ?sid" "must_stay cts x"
      using assms(1) unfolding acc walk_ok_def by auto
    then have "0 < mv \<and> mv \<le> e_seq x" using assms(1) unfolding acc walk_ok_def by auto
    then have "walk_ok cts (es @ [e]) (mv, res, ups)"
      using x assms(3) by (intro walk_ok_same assms(1) [unfolded acc]) (auto intro: order.trans less_imp_le)
    then show ?thesis using 2 unfolding acc evict_visit_def by (simp add: Let_def)
  next
    case 3
    have "walk_ok cts (es @ [e]) (lower (e_seq e) mv, res[?sid := True], us)" for us
      using 3 len by (intro low) (auto simp: nth_list_update split: if_splits)
    then show ?thesis using 3 len unfolding acc evict_visit_def by (auto simp: Let_def must_stay_def)
  next
    case 4
    then have "walk_ok cts (es @ [e]) (mv, res, ups)" by (intro walk_ok_same assms(1) [unfolded acc]) simp
    then show ?thesis using 4 len unfolding acc evict_visit_def by (auto simp: Let_def must_stay_def)
  qed
qed

lemma evict_walk_ok:
  assumes "sorted_wrt (\<lambda>a b. e_seq a < e_seq b) es" "\<forall>e \<in> set es. 0 < e_seq e"
  shows "walk_ok cts es (fold (evict_visit cts) es (0, replicate (length cts) False, []))"
  using assms
proof (induction es rule: rev_induct)
  case (snoc e es)
  then show ?case by (auto simp: sorted_wrt_append intro!: evict_visit_ok)
qed (simp add: walk_ok_def)

lemma length_fold_update:
  "(\<And>p v. length (f p v) = length v) \<Longrightarrow> length (fold f ps v) = length (v :: 'b list)"
  by (induction ps arbitrary: v) simp_all

lemma length_cutoff [simp]: "length (cutoff_ts now m) = max_stream_idx m + 1"
  by (simp add: cutoff_ts_def length_fold_update split_def)

lemma pre_resolved_Nil: "pre_resolved cts [] m = replicate (max_stream_idx m + 1) False"
proof -
  have "fold (\<lambda>(sid, r) v. if sid < length v \<and> max_age_ms r > 0 then
      case hm_get [] sid of Some cached_ts \<Rightarrow> if cached_ts \<ge> cts ! sid then v[sid := True] else v | None \<Rightarrow> v
      else v) xs v = v" for xs and v :: "bool list"
    by (induction xs) auto
  then show ?thesis unfolding pre_resolved_def by blast
qed

lemma fold_max_ge: "b \<le> fold max xs (b :: nat)"
  by (induction xs arbitrary: b) (simp, metis fold_simps(2) max.boundedE max.commute)

lemma fold_max_mem: "x \<in> set xs \<Longrightarrow> x \<le> fold max xs (b :: nat)"
proof (induction xs arbitrary: b)
  case (Cons y ys)
  then show ?case using fold_max_ge [of "max y b" ys] by auto
qed simp

lemma le_max_stream_idx: "(sid, r) \<in> set m \<Longrightarrow> sid \<le> max_stream_idx m"
  unfolding max_stream_idx_def by (rule fold_max_mem) force

text \<open>The cutoff of a stream: none without an age limit.\<close>

lemma cutoff_nth:
  assumes "hm_ok m" "hm_get m sid = Some r"
  shows "cutoff_ts now m ! sid = (if max_age_ms r > 0 then now - max_age_ms r else 0)"
proof -
  let ?f = "\<lambda>(sid, r) v. if max_age_ms r > 0 then v[sid := now - max_age_ms r] else v"
  have out: "fold ?f ps v ! sid = v ! sid" if "sid \<notin> fst ` set ps" for ps v
    using that by (induction ps arbitrary: v) auto
  have "fold ?f m v ! sid = (if max_age_ms r > 0 then now - max_age_ms r else v ! sid)" if "sid < length v" for v
    using assms that
  proof (induction m arbitrary: v)
    case (Cons p m)
    then show ?case using out [of m] by (cases p) (auto simp: hm_ok_def hm_get_def split: if_splits)
  qed (simp add: hm_get_def)
  moreover have "sid < max_stream_idx m + 1"
    using le_max_stream_idx [of sid r m] assms(2) by (auto simp: hm_get_def dest!: map_of_SomeD)
  ultimately show ?thesis unfolding cutoff_ts_def by (simp del: replicate_Suc)
qed

section \<open>The pass on the in-memory journal\<close>

definition has_age_streams :: "evict_state \<Rightarrow> bool" where
  "has_age_streams w \<longleftrightarrow> list_ex (\<lambda>(_, r). max_age_ms r > 0) (ev_retention w)"

abbreviation evict :: "u64 \<Rightarrow> evict_state \<times> memory_store \<Rightarrow> (evict_state \<times> memory_store) option" where
  "evict \<equiv> evict_expired mem_info for_each truncate_front"

lemma evict_idle: "\<not> has_age_streams w \<or> journal_of s = [] \<Longrightarrow> evict now (w, s) = Some (w, s)"
  by (auto simp: evict_expired_def has_age_streams_def mem_info_def journal_of_def Let_def)

lemma evict_pass:
  assumes "mem_ok s" "has_age_streams w" "journal_of s \<noteq> []" "start = max (first_seq s) (evict_resume_seq w)"
    and "stop = min (start + evict_walk_cap) (next_seq s)" "cts = cutoff_ts now (ev_retention w)"
    and "fold (evict_visit cts) (filter (\<lambda>e. start \<le> e_seq e \<and> e_seq e < stop) (journal_of s))
      (0, pre_resolved cts (stream_oldest_ts w) (ev_retention w), []) = (mv, res, ups)"
  obtains w' where "evict now (w, s) = Some (if mv > first_seq s then (w', snd (truncate_front mv s)) else (w', s))"
    "ev_retention w' = ev_retention w"
    "evict_resume_seq w' = (if mv \<le> first_seq s \<and> stop < next_seq s then stop else 0)"
    "mv \<le> first_seq s \<Longrightarrow> stream_oldest_ts w' = fold (\<lambda>(sid, ts). hm_insert sid ts) ups (stream_oldest_ts w)"
proof -
  let ?w1 = "w\<lparr>stream_oldest_ts := fold (\<lambda>(sid, ts). hm_insert sid ts) ups (stream_oldest_ts w)\<rparr>"
  have last: "si_last_seq (mem_info s) + 1 = next_seq s" "si_first_seq (mem_info s) = first_seq s"
    "si_messages (mem_info s) \<noteq> 0"
    using assms(1,3) by (auto simp: mem_info_def mem_ok_def index_sound_def journal_of_def)
  have each: "for_each start stop s = Some (filter (\<lambda>e. start \<le> e_seq e \<and> e_seq e < stop) (journal_of s))"
    by (simp add: for_each_range read_range_journal [OF assms(1)])
  have run: "evict now (w, s) = Some (if mv > first_seq s then
               let (deleted, s1) = truncate_front mv s
               in ((if deleted > 0 then ?w1\<lparr>stream_oldest_ts := []\<rparr> else ?w1)\<lparr>evict_resume_seq := 0\<rparr>, s1)
             else if stop < next_seq s then (?w1\<lparr>evict_resume_seq := stop\<rparr>, s) else (?w1\<lparr>evict_resume_seq := 0\<rparr>, s))"
    unfolding evict_expired_def fst_conv snd_conv Let_def last(1,2) assms(4-6) [symmetric] each option.case assms(7) prod.case
    using assms(2) last(3) by (simp add: has_age_streams_def)
  show thesis
    by (rule that [of "if mv > first_seq s then (if fst (truncate_front mv s) > 0 then ?w1\<lparr>stream_oldest_ts := []\<rparr> else ?w1)\<lparr>evict_resume_seq := 0\<rparr>
        else if stop < next_seq s then ?w1\<lparr>evict_resume_seq := stop\<rparr> else ?w1\<lparr>evict_resume_seq := 0\<rparr>"])
      (simp_all add: run case_prod_beta)
qed

lemma below_cut:
  assumes "mem_ok s" "dense s" "e \<in> set (take (truncate_cut n s) (journal_of s))"
  shows "e \<in> set (journal_of s)" "e_seq e < n"
proof -
  obtain i where i: "i < truncate_cut n s" "i < length (index s)" "e = journal_of s ! i"
    using assms(3) by (auto simp: in_set_conv_nth)
  then show "e \<in> set (journal_of s)" by simp
  have "e_seq e = first_seq s + i" using dense_seq [of s i] assms i by (simp add: journal_of_def mem_ok_def)
  then show "e_seq e < n" using i(1) by (auto simp: truncate_cut_def)
qed

text \<open>The part of a journal with consecutive numbers that a walk sees.\<close>

lemma dense_window:
  assumes "mem_ok s" "dense s" "first_seq s \<le> a" "a \<le> b" "b \<le> next_seq s"
  shows "filter (\<lambda>e. a \<le> e_seq e \<and> e_seq e < b) (journal_of s) = map ((!) (journal_of s)) [a - first_seq s ..< b - first_seq s]"
  by (rule filter_interval [symmetric])
    (use assms dense_seq [of s] in \<open>auto simp: journal_of_def mem_ok_def dense_def\<close>)

text \<open>A walk over the entries of one stream without age limit stops at the first of them.\<close>

lemma walk_one_stream:
  assumes "\<forall>e \<in> set es. e_stream_id e = sid" "sid < length res" "\<not> res ! sid" "cts ! sid = 0" "es \<noteq> []"
  shows "fold (evict_visit cts) es (0, res, []) = (e_seq (hd es), res[sid := True], [])"
proof -
  have "fold (evict_visit cts) xs (m, res[sid := True], []) = (m, res[sid := True], [])" if "\<forall>e \<in> set xs. e_stream_id e = sid" for xs m
    using that assms(2) by (induction xs) (simp_all add: evict_visit_def Let_def)
  then show ?thesis using assms by (cases es) (simp_all add: evict_visit_def Let_def lower_def)
qed

lemma evict_one_stream:
  assumes "mem_ok s" "dense s" "has_age_streams w" "\<forall>e \<in> set (journal_of s). e_stream_id e = sid"
    and "hm_ok (ev_retention w)" "hm_get (ev_retention w) sid = Some r" "max_age_ms r = 0" "stream_oldest_ts w = []"
    and "start = max (first_seq s) (evict_resume_seq w)" "stop = min (start + evict_walk_cap) (next_seq s)" "start < next_seq s"
  obtains w' where "evict now (w, s) = Some (if start > first_seq s then (w', snd (truncate_front start s)) else (w', s))"
    "ev_retention w' = ev_retention w" "evict_resume_seq w' = (if start \<le> first_seq s \<and> stop < next_seq s then stop else 0)"
    "start \<le> first_seq s \<Longrightarrow> stream_oldest_ts w' = []"
proof -
  define cts where "cts = cutoff_ts now (ev_retention w)"
  let ?res = "replicate (max_stream_idx (ev_retention w) + 1) False"
  have st: "start < stop" "first_seq s \<le> start" "stop \<le> next_seq s" using assms(9-11) by (auto simp: evict_walk_cap_def)
  have win: "filter (\<lambda>e. start \<le> e_seq e \<and> e_seq e < stop) (journal_of s) =
      map ((!) (journal_of s)) [start - first_seq s ..< stop - first_seq s]" (is "?es = _")
    using dense_window [OF assms(1,2) st(2) less_imp_le [OF st(1)] st(3)] .
  have idx: "start - first_seq s < length (index s)" using assms(2,11) st(2) by (simp add: dense_def)
  have "hd ?es = journal_of s ! (start - first_seq s)" "?es \<noteq> []"
    unfolding win using st by (simp_all add: hd_map upt_rec)
  moreover have "e_seq (journal_of s ! (start - first_seq s)) = start"
    using dense_seq [of s "start - first_seq s"] assms(1,2) idx st(2) by (simp add: journal_of_def mem_ok_def)
  moreover have "sid \<le> max_stream_idx (ev_retention w)"
    using le_max_stream_idx [of sid r] assms(6) by (auto simp: hm_get_def dest!: map_of_SomeD)
  moreover have "cts ! sid = 0" using cutoff_nth [OF assms(5,6), of now] assms(7) by (simp add: cts_def)
  ultimately have walk: "fold (evict_visit cts) ?es (0, ?res, []) = (start, ?res[sid := True], [])"
    using walk_one_stream [of ?es sid ?res cts] assms(4) by (simp del: replicate_Suc)
  have "journal_of s \<noteq> []" using idx by (auto simp flip: length_journal)
  from evict_pass [OF assms(1,3) this assms(9,10) cts_def, of start "?res[sid := True]" "[]"] walk that show thesis
    unfolding assms(8) pre_resolved_Nil by auto
qed

section \<open>Properties\<close>


definition demo_retention :: evict_state where
  "demo_retention = \<lparr>ev_retention = [(1, \<lparr>max_age_ms = 0, created_at_seq = 1\<rparr>), (2, \<lparr>max_age_ms = 5, created_at_seq = 1\<rparr>)],
     evict_resume_seq = 0, stream_oldest_ts = []\<rparr>"

lemma demo_cutoff: "cutoff_ts 20 (ev_retention demo_retention) = [0, 0, 15]"
  by code_simp

lemma demo_journal:
  assumes "length ids < 2 ^ 32 - 1"
  obtains s where "append_batch (\<lambda>_. 0) (\<lambda>_. True) (map demo_ref ids) 7 (with_segment_size 4096) = Some (Inr 1, s)"
    "mem_ok s" "journal_of s = assigned 7 1 (map demo_ref ids)" "dense s" "first_seq s = 1"
proof (rule demo_appended [of ids])
  fix s
  assume s: "append_batch (\<lambda>_. 0) (\<lambda>_. True) (map demo_ref ids) 7 (with_segment_size 4096) = Some (Inr 1, s)"
    "mem_ok s" "journal_of s = assigned 7 1 (map demo_ref ids)" "next_seq s = 1 + length ids" "first_seq s = 1"
  have "length (assigned ts q es) = length es" for ts q es by (induction es arbitrary: q) simp_all
  then have "dense s" using s(3-5) length_journal [of s] by (simp add: dense_def)
  then show thesis using that s by blast
qed (use assms in simp)


text \<open>C19. A pass that continues where the previous one stopped deletes live messages.  The pass
  looks at no more than 10000 entries and resumes behind them, but cuts the journal at the first entry
  to keep that it sees after the resumption.  In a shard that has some stream with an age limit and
  holds more than 10000 messages of a stream without one, the second pass deletes the first 10000
  messages, none of which may be evicted.\<close>

theorem eviction_resumed_pass_deletes_live:
  assumes "mem_ok s" "dense s" "has_age_streams w" "\<forall>e \<in> set (journal_of s). e_stream_id e = sid"
    and "hm_ok (ev_retention w)" "hm_get (ev_retention w) sid = Some r" "max_age_ms r = 0" "stream_oldest_ts w = []"
    and "evict_resume_seq w = 0" "10000 < length (journal_of s)"
  shows "\<exists>w1 w2 s2. evict_expired mem_info for_each truncate_front now (w, s) = Some (w1, s) \<and>
    evict_expired mem_info for_each truncate_front now' (w1, s) = Some (w2, s2) \<and>
    journal_of s2 = drop 10000 (journal_of s) \<and>
    (\<forall>e \<in> set (journal_of s). must_stay (cutoff_ts now' (ev_retention w1)) e)"
proof -
  define a where "a = first_seq s + 10000"
  have a: "a < next_seq s" "first_seq s < a" using assms(2,10) by (simp_all add: a_def dense_def)
  obtain w1 where w1: "evict now (w, s) = Some (w1, s)" "ev_retention w1 = ev_retention w" "evict_resume_seq w1 = a" "stream_oldest_ts w1 = []"
    by (rule evict_one_stream [where now = now, OF assms(1-8) refl refl]) (use a assms(9) in \<open>auto simp: evict_walk_cap_def a_def\<close>)
  then have "has_age_streams w1" using assms(3) by (simp add: has_age_streams_def)
  then obtain w2 where w2: "evict now' (w1, s) = Some (w2, snd (truncate_front a s))"
    by (rule evict_one_stream [where now = now' and w = w1, OF assms(1,2) _ assms(4)]) (use assms a w1 in \<open>auto split: if_splits\<close>)
  have "journal_of (snd (truncate_front a s)) = drop 10000 (journal_of s)"
    using truncate_front_ok [OF assms(1,2) a(1)] dense_filter [OF assms(1,2), of a] assms(10) by (simp add: truncate_cut_def a_def)
  moreover have "cutoff_ts now' (ev_retention w) ! sid = 0" using cutoff_nth [OF assms(5,6), of now'] assms(7) by simp
  ultimately show ?thesis using w1 w2 assms(4) by (intro exI [of _ w1] exI [of _ w2] exI [of _ "snd (truncate_front a s)"]) (auto simp: must_stay_def)
qed

theorem eviction_resumed_pass_deletes_live_witness:
  "\<exists>s w1 w2 s2. append_batch (\<lambda>_. 0) (\<lambda>_. True) (replicate 10001 (demo_ref 1)) 7 (with_segment_size 4096) = Some (Inr 1, s) \<and>
    evict_expired mem_info for_each truncate_front 20 (demo_retention, s) = Some (w1, s) \<and>
    evict_expired mem_info for_each truncate_front 25 (w1, s) = Some (w2, s2) \<and> length (journal_of s) = 10001 \<and> length (journal_of s2) = 1"
proof -
  obtain s where s: "append_batch (\<lambda>_. 0) (\<lambda>_. True) (map demo_ref (replicate 10001 1)) 7 (with_segment_size 4096) = Some (Inr 1, s)"
    "mem_ok s" "journal_of s = assigned 7 1 (map demo_ref (replicate 10001 1))" "dense s"
    by (rule demo_journal [of "replicate 10001 1"]) simp_all
  have len: "length (assigned ts q es) = length es" for ts q es by (induction es arbitrary: q) simp_all
  have "e_stream_id e = 1" if "e \<in> set (assigned ts q (map demo_ref ids))" "set ids \<subseteq> {1}" for e ts q ids
    using that by (induction ids arbitrary: q) (auto simp: stored_def demo_ref_def)
  then have one: "\<forall>e \<in> set (journal_of s). e_stream_id e = 1" unfolding s(3) by fastforce
  have n: "length (journal_of s) = 10001" by (simp only: s(3) len length_map length_replicate)
  have r: "hm_get (ev_retention demo_retention) 1 = Some \<lparr>max_age_ms = 0, created_at_seq = 1\<rparr>" "hm_ok (ev_retention demo_retention)"
    "has_age_streams demo_retention" "stream_oldest_ts demo_retention = []" "evict_resume_seq demo_retention = 0"
    by (simp_all add: demo_retention_def has_age_streams_def hm_ok_def hm_get_def)
  have "10000 < length (journal_of s)" unfolding n by simp
  then obtain w1 w2 s2 where e: "evict 20 (demo_retention, s) = Some (w1, s)" "evict 25 (w1, s) = Some (w2, s2)" "journal_of s2 = drop 10000 (journal_of s)"
    using eviction_resumed_pass_deletes_live [OF s(2,4) r(3) one r(2,1) _ r(4,5), of 20 25] by auto
  have "length (journal_of s2) = 1" unfolding e(3) length_drop n by simp
  then show ?thesis using s(1) e(1,2) n by (intro exI [of _ s] exI [of _ w1] exI [of _ w2] exI [of _ s2]) (simp only: map_replicate simp_thms)
qed

end
