(* ===== verification/Shared_Counters.thy ===== *)
theory Shared_Counters
  imports Arbitro_Prelude
begin

text \<open>
  The counters shared between the drain and the command thread of a shard
  (\<^verbatim>\<open>arbitro-server/src/shard/shared.rs\<close>).  Each method is one atomic operation on one slot; a
  compare-and-swap loop is the operation it retries.  The arrays have a fixed size: an index out of
  range panics, which is \<open>None\<close>.
\<close>

definition slots :: usize where "slots = 4096"

definition no_rewind :: u64 where "no_rewind = 2 ^ 64 - 1"

record shared_counters =
  sh_consumer :: "u32 list"
  sh_queue :: "u32 list"
  sh_demand :: "u32 list"
  sh_total_demand :: u32
  sh_paused :: "bool list"
  sh_cursor :: u64
  sh_rewind :: u64

definition counters_new :: shared_counters where
  "counters_new = \<lparr>sh_consumer = replicate slots 0, sh_queue = replicate slots 0, sh_demand = replicate slots 0,
     sh_total_demand = 0, sh_paused = replicate slots False, sh_cursor = 0, sh_rewind = no_rewind\<rparr>"

definition on_inflight :: "(u32 \<Rightarrow> u32) \<Rightarrow> u32 \<Rightarrow> u32 \<Rightarrow> shared_counters \<Rightarrow> shared_counters option" where
  "on_inflight f consumer_id queue_id s =
    (case slot_update f consumer_id (sh_consumer s) of
       None \<Rightarrow> None
     | Some cs \<Rightarrow> (case slot_update f queue_id (sh_queue s) of
         None \<Rightarrow> None
       | Some qs \<Rightarrow> Some (s\<lparr>sh_consumer := cs, sh_queue := qs\<rparr>)))"

definition inc_inflight :: "u32 \<Rightarrow> u32 \<Rightarrow> shared_counters \<Rightarrow> shared_counters option" where
  "inc_inflight = on_inflight (\<lambda>n. u32_add n 1)"

definition saturating_dec :: "u32 \<Rightarrow> u32 \<Rightarrow> u32" where
  "saturating_dec count cur = cur - count"

definition dec_inflight :: "u32 \<Rightarrow> u32 \<Rightarrow> shared_counters \<Rightarrow> shared_counters option" where
  "dec_inflight = on_inflight (saturating_dec 1)"

definition dec_inflight_bulk :: "u32 \<Rightarrow> u32 \<Rightarrow> u32 \<Rightarrow> shared_counters \<Rightarrow> shared_counters option" where
  "dec_inflight_bulk consumer_id queue_id count = on_inflight (saturating_dec count) consumer_id queue_id"

definition sh_consumer_inflight :: "shared_counters \<Rightarrow> u32 \<Rightarrow> u32 option" where
  "sh_consumer_inflight s consumer_id = vec_get (sh_consumer s) consumer_id"

definition sh_has_capacity :: "shared_counters \<Rightarrow> u32 \<Rightarrow> u32 \<Rightarrow> bool option" where
  "sh_has_capacity s consumer_id max_inflight = map_option (\<lambda>n. n < max_inflight) (sh_consumer_inflight s consumer_id)"

definition sh_has_any_demand :: "shared_counters \<Rightarrow> bool" where
  "sh_has_any_demand s \<longleftrightarrow> sh_total_demand s > 0"

definition sh_has_demand :: "shared_counters \<Rightarrow> u32 \<Rightarrow> bool option" where
  "sh_has_demand s stream_id = map_option (\<lambda>n. n > 0) (vec_get (sh_demand s) stream_id)"

definition sh_inc_demand :: "u32 \<Rightarrow> shared_counters \<Rightarrow> (u32 \<times> shared_counters) option" where
  "sh_inc_demand stream_id s =
     map_option (\<lambda>d. (sh_demand s ! stream_id, s\<lparr>sh_demand := d, sh_total_demand := u32_add (sh_total_demand s) 1\<rparr>))
       (slot_update (\<lambda>n. u32_add n 1) stream_id (sh_demand s))"

definition sh_dec_demand :: "u32 \<Rightarrow> shared_counters \<Rightarrow> (u32 \<times> shared_counters) option" where
  "sh_dec_demand stream_id s =
     map_option (\<lambda>d. (sh_demand s ! stream_id, s\<lparr>sh_demand := d, sh_total_demand := u32_sub (sh_total_demand s) 1\<rparr>))
       (slot_update (\<lambda>n. u32_sub n 1) stream_id (sh_demand s))"

definition sh_is_paused :: "shared_counters \<Rightarrow> u32 \<Rightarrow> bool option" where
  "sh_is_paused s consumer_id = vec_get (sh_paused s) consumer_id"

definition sh_set_paused :: "u32 \<Rightarrow> bool \<Rightarrow> shared_counters \<Rightarrow> shared_counters option" where
  "sh_set_paused consumer_id v s =
     map_option (\<lambda>p. s\<lparr>sh_paused := p\<rparr>) (slot_update (\<lambda>_. v) consumer_id (sh_paused s))"

definition set_cursor :: "u64 \<Rightarrow> shared_counters \<Rightarrow> shared_counters" where
  "set_cursor v s = s\<lparr>sh_cursor := v\<rparr>"

definition signal_rewind :: "u64 \<Rightarrow> shared_counters \<Rightarrow> shared_counters" where
  "signal_rewind target s = s\<lparr>sh_rewind := min (sh_rewind s) target\<rparr>"

definition take_rewind :: "shared_counters \<Rightarrow> u64 option \<times> shared_counters" where
  "take_rewind s =
    (if sh_rewind s = no_rewind then None else Some (sh_rewind s), s\<lparr>sh_rewind := no_rewind\<rparr>)"

definition clear_rewind_if_eq :: "u64 \<Rightarrow> shared_counters \<Rightarrow> bool \<times> shared_counters" where
  "clear_rewind_if_eq expected s =
    (if sh_rewind s = expected then (True, s\<lparr>sh_rewind := no_rewind\<rparr>) else (False, s))"

definition clear_rewind :: "shared_counters \<Rightarrow> shared_counters" where
  "clear_rewind s = s\<lparr>sh_rewind := no_rewind\<rparr>"

text \<open>\<^verbatim>\<open>worker.rs\<close>: how the command thread asks for a rewind, and how the drain honours it.\<close>

definition rewind_released :: "u64 \<Rightarrow> shared_counters \<Rightarrow> shared_counters" where
  "rewind_released min_seq s =
    (if min_seq = 0 then s
     else signal_rewind min_seq (if min_seq - 1 < sh_cursor s then set_cursor (min_seq - 1) s else s))"

datatype rewind_applied = NoRewind | Applied u64 | AlreadyBehind u64

definition apply_rewind :: "shared_counters \<Rightarrow> rewind_applied \<times> shared_counters" where
  "apply_rewind s =
    (case take_rewind s of
       (None, s1) \<Rightarrow> (NoRewind, s1)
     | (Some rw, s1) \<Rightarrow>
       if rw > 0 \<and> rw - 1 < sh_cursor s1 then (Applied (rw - 1), set_cursor (rw - 1) s1)
       else (AlreadyBehind rw, s1))"

section \<open>Rewinding is not lost\<close>

text \<open>
  A drain cycle writes its cursor at the end, possibly over a rewind of the command thread; the
  signal makes the next cycle go back.  Whatever forward writes happen in between, the cycle that
  takes the signal starts at or before every number that was signalled.
\<close>

inductive cursor_step :: "shared_counters \<Rightarrow> shared_counters \<Rightarrow> bool" where
  forward: "cursor_step s (set_cursor v s)"
| rewind: "cursor_step s (rewind_released q s)"

lemma rewind_signal_kept:
  assumes "cursor_step\<^sup>*\<^sup>* s s'" "sh_rewind s \<le> q"
  shows "sh_rewind s' \<le> q"
  using assms by (induction rule: rtranclp_induct)
    (auto elim!: cursor_step.cases simp: set_cursor_def rewind_released_def signal_rewind_def)

lemma apply_rewind_behind:
  assumes "0 < q" "q < no_rewind" "sh_rewind s \<le> q" "0 < sh_rewind s"
  shows "sh_cursor (snd (apply_rewind s)) < q"
  using assms by (auto simp: apply_rewind_def take_rewind_def set_cursor_def)

lemma rewind_honoured:
  assumes "0 < q" "q < no_rewind" "cursor_step\<^sup>*\<^sup>* (rewind_released q s) s'" "0 < sh_rewind s'"
  shows "sh_cursor (snd (apply_rewind s')) < q"
proof -
  have "sh_rewind (rewind_released q s) \<le> q" using assms(1) by (simp add: rewind_released_def signal_rewind_def set_cursor_def)
  from rewind_signal_kept [OF assms(3) this] show ?thesis by (rule apply_rewind_behind [OF assms(1,2) _ assms(4)])
qed

section \<open>Counting\<close>

lemma on_inflight_Some:
  assumes "consumer_id < length (sh_consumer s)" "queue_id < length (sh_queue s)"
  shows "\<exists>s'. on_inflight f consumer_id queue_id s = Some s' \<and>
    sh_consumer s' = (sh_consumer s)[consumer_id := f (sh_consumer s ! consumer_id)] \<and>
    length (sh_queue s') = length (sh_queue s) \<and> sh_cursor s' = sh_cursor s \<and> sh_rewind s' = sh_rewind s \<and>
    sh_demand s' = sh_demand s \<and> sh_total_demand s' = sh_total_demand s \<and> sh_paused s' = sh_paused s"
  using assms by (auto simp: on_inflight_def slot_update_def)

end
