(* ===== verification/Delivery_Wire.thy ===== *)
theory Delivery_Wire
  imports Proto_Codes
begin

text \<open>
  The frames the server and its clients exchange about deliveries: the transport envelope
  (\<^verbatim>\<open>arbitro-proto/src/wire/envelope.rs\<close>) and the acknowledgement and batch layouts of
  \<^verbatim>\<open>arbitro-proto/src/wire/delivery.rs\<close>.  A structure with little-endian fields is a record with a
  function to its bytes and one from bytes, which is \<open>None\<close> when the length is not the structure's;
  a value that does not fit its field is cut off, as the source's \<^verbatim>\<open>as\<close> casts do.  A view wraps the
  bytes of a frame; its methods that unwrap panic on a short frame, which is \<open>None\<close> as well.
\<close>

section \<open>Little-endian fields\<close>

fun le_bytes :: "nat \<Rightarrow> nat \<Rightarrow> bytes" where
  "le_bytes 0 v = []"
| "le_bytes (Suc k) v = word_of_nat (v mod 256) # le_bytes k (v div 256)"

fun le_nat :: "bytes \<Rightarrow> nat" where
  "le_nat [] = 0"
| "le_nat (b # bs) = unat b + 256 * le_nat bs"

text \<open>The field of \<open>n\<close> bytes at an offset.\<close>

definition field :: "nat \<Rightarrow> nat \<Rightarrow> bytes \<Rightarrow> nat" where
  "field off n b = le_nat (take n (drop off b))"

lemma length_le_bytes [simp]: "length (le_bytes k v) = k"
  by (induction k arbitrary: v) auto

lemma le_nat_le_bytes [simp]: "le_nat (le_bytes k v) = v mod 256 ^ k"
proof (induction k arbitrary: v)
  case (Suc k)
  have "unat (word_of_nat (v mod 256) :: byte) = v mod 256"
    by (simp add: unat_of_nat)
  then show ?case using Suc by (simp add: mod_mult2_eq)
qed simp

lemma field_skip: "length a \<le> off \<Longrightarrow> field off n (a @ b) = field (off - length a) n b"
  by (simp add: field_def)

lemma field_here [simp]: "field 0 n (le_bytes n v @ b) = v mod 256 ^ n"
  by (simp add: field_def)

lemma field_last [simp]: "field 0 n (le_bytes n v) = v mod 256 ^ n"
  by (simp add: field_def)

section \<open>The envelope\<close>

record envelope =
  env_action :: u16
  env_flags :: nat
  env_rsv :: nat
  env_stream_id :: u32
  env_msg_len :: u32
  env_seq :: u32

definition envelope_size :: usize where "envelope_size = 16"

definition envelope_new :: "action \<Rightarrow> u32 \<Rightarrow> u32 \<Rightarrow> u32 \<Rightarrow> envelope" where
  "envelope_new act stream_id msg_len seq =
    \<lparr>env_action = action_as_u16 act, env_flags = 0, env_rsv = 0, env_stream_id = stream_id,
     env_msg_len = msg_len, env_seq = seq\<rparr>"

definition envelope_bytes :: "envelope \<Rightarrow> bytes" where
  "envelope_bytes e = le_bytes 2 (env_action e) @ le_bytes 1 (env_flags e) @ le_bytes 1 (env_rsv e) @
     le_bytes 4 (env_stream_id e) @ le_bytes 4 (env_msg_len e) @ le_bytes 4 (env_seq e)"

definition envelope_from :: "bytes \<Rightarrow> envelope option" where
  "envelope_from b =
    (if length b = envelope_size
     then Some \<lparr>env_action = field 0 2 b, env_flags = field 2 1 b, env_rsv = field 3 1 b,
        env_stream_id = field 4 4 b, env_msg_len = field 8 4 b, env_seq = field 12 4 b\<rparr>
     else None)"

definition view_envelope :: "bytes \<Rightarrow> envelope option" where
  "view_envelope buf = Option.bind (slice buf 0 envelope_size) envelope_from"

definition view_action_raw :: "bytes \<Rightarrow> u16 option" where
  "view_action_raw buf = map_option env_action (view_envelope buf)"

definition view_action :: "bytes \<Rightarrow> action option option" where
  "view_action buf = map_option action_from_u16 (view_action_raw buf)"

abbreviation view_flags :: "bytes \<Rightarrow> nat option" where
  "view_flags buf \<equiv> map_option env_flags (view_envelope buf)"

definition view_stream_id :: "bytes \<Rightarrow> u32 option" where
  "view_stream_id buf = map_option env_stream_id (view_envelope buf)"

definition view_msg_len :: "bytes \<Rightarrow> u32 option" where
  "view_msg_len buf = map_option env_msg_len (view_envelope buf)"

definition view_body :: "bytes \<Rightarrow> bytes option" where
  "view_body buf = slice buf envelope_size (length buf)"

definition frame_validate :: "bytes \<Rightarrow> (proto_error + unit) option" where
  "frame_validate buf =
    (if length buf < envelope_size then Some (Inl (PBufferTooShort envelope_size (length buf mod 2 ^ 32)))
     else case view_msg_len buf of
       None \<Rightarrow> None
     | Some msg_len \<Rightarrow>
       if length buf < envelope_size + msg_len
       then Some (Inl (PBufferTooShort ((envelope_size + msg_len) mod 2 ^ 32) (length buf mod 2 ^ 32)))
       else case view_action_raw buf of
         None \<Rightarrow> None
       | Some raw \<Rightarrow> (case action_from_u16 raw of None \<Rightarrow> Some (Inl (PUnknownAction raw)) | Some _ \<Rightarrow> Some (Inr ())))"

section \<open>Acknowledgements\<close>

record ack_action =
  aa_sequence :: u64
  aa_consumer_id :: u32
  aa_sub_id :: u32

definition ack_action_size :: usize where "ack_action_size = 16"

definition ack_action_bytes :: "ack_action \<Rightarrow> bytes" where
  "ack_action_bytes a = le_bytes 8 (aa_sequence a) @ le_bytes 4 (aa_consumer_id a) @ le_bytes 4 (aa_sub_id a)"

definition ack_action_from :: "bytes \<Rightarrow> ack_action option" where
  "ack_action_from b =
    (if length b = ack_action_size
     then Some \<lparr>aa_sequence = field 0 8 b, aa_consumer_id = field 8 4 b, aa_sub_id = field 12 4 b\<rparr> else None)"

definition ack_try_new :: "bytes \<Rightarrow> bytes option" where
  "ack_try_new buf = (if length buf < ack_action_size then None else Some buf)"

definition ack_inner :: "bytes \<Rightarrow> ack_action option" where
  "ack_inner buf = Option.bind (slice buf 0 ack_action_size) ack_action_from"

abbreviation ack_sequence :: "bytes \<Rightarrow> u64 option" where
  "ack_sequence buf \<equiv> map_option aa_sequence (ack_inner buf)"

abbreviation ack_consumer_id :: "bytes \<Rightarrow> u32 option" where
  "ack_consumer_id buf \<equiv> map_option aa_consumer_id (ack_inner buf)"

record nack_action =
  na_sequence :: u64
  na_consumer_id :: u32
  na_delay_ms :: u32

definition nack_action_size :: usize where "nack_action_size = 16"

definition nack_action_bytes :: "nack_action \<Rightarrow> bytes" where
  "nack_action_bytes a = le_bytes 8 (na_sequence a) @ le_bytes 4 (na_consumer_id a) @ le_bytes 4 (na_delay_ms a)"

definition nack_action_from :: "bytes \<Rightarrow> nack_action option" where
  "nack_action_from b =
    (if length b = nack_action_size
     then Some \<lparr>na_sequence = field 0 8 b, na_consumer_id = field 8 4 b, na_delay_ms = field 12 4 b\<rparr> else None)"

definition nack_try_new :: "bytes \<Rightarrow> bytes option" where
  "nack_try_new buf = (if length buf < nack_action_size then None else Some buf)"

definition nack_inner :: "bytes \<Rightarrow> nack_action option" where
  "nack_inner buf = Option.bind (slice buf 0 nack_action_size) nack_action_from"

abbreviation nack_sequence :: "bytes \<Rightarrow> u64 option" where
  "nack_sequence buf \<equiv> map_option na_sequence (nack_inner buf)"

abbreviation nack_consumer_id :: "bytes \<Rightarrow> u32 option" where
  "nack_consumer_id buf \<equiv> map_option na_consumer_id (nack_inner buf)"

abbreviation nack_delay_ms :: "bytes \<Rightarrow> u32 option" where
  "nack_delay_ms buf \<equiv> map_option na_delay_ms (nack_inner buf)"

text \<open>\<^verbatim>\<open>RepOk\<close> and \<^verbatim>\<open>RepError\<close> carry the number they answer; the rest of the 16 bytes is padding or
  the error code.\<close>

definition rep_size :: usize where "rep_size = 16"

abbreviation rep_ok_bytes :: "u64 \<Rightarrow> u64 \<Rightarrow> bytes" where
  "rep_ok_bytes ref_seq pad \<equiv> le_bytes 8 ref_seq @ le_bytes 8 pad"

definition rep_error_bytes :: "u64 \<Rightarrow> u16 \<Rightarrow> u64 \<Rightarrow> bytes" where
  "rep_error_bytes ref_seq code pad = le_bytes 8 ref_seq @ le_bytes 2 code @ le_bytes 6 pad"

definition rep_try_new :: "bytes \<Rightarrow> bytes option" where
  "rep_try_new buf = (if length buf < rep_size then None else Some buf)"

definition rep_ref_seq :: "bytes \<Rightarrow> u64 option" where
  "rep_ref_seq buf = map_option (field 0 8) (slice buf 0 rep_size)"

definition rep_error_code :: "bytes \<Rightarrow> u16 option" where
  "rep_error_code buf = map_option (field 8 2) (slice buf 0 rep_size)"

section \<open>Batches of acknowledgements\<close>

record batch_ack_fixed =
  bf_consumer_id :: u32
  bf_count :: u16
  bf_pad :: u16

definition batch_ack_fixed_size :: usize where "batch_ack_fixed_size = 8"

definition batch_ack_fixed_bytes :: "batch_ack_fixed \<Rightarrow> bytes" where
  "batch_ack_fixed_bytes f = le_bytes 4 (bf_consumer_id f) @ le_bytes 2 (bf_count f) @ le_bytes 2 (bf_pad f)"

definition batch_ack_fixed_from :: "bytes \<Rightarrow> batch_ack_fixed option" where
  "batch_ack_fixed_from b =
    (if length b = batch_ack_fixed_size
     then Some \<lparr>bf_consumer_id = field 0 4 b, bf_count = field 4 2 b, bf_pad = field 6 2 b\<rparr> else None)"

definition batch_ack_entry_size :: usize where "batch_ack_entry_size = 16"

definition batch_ack_entry_bytes :: "u64 \<times> u32 \<Rightarrow> bytes" where
  "batch_ack_entry_bytes e = le_bytes 8 (fst e) @ le_bytes 4 (snd e) @ le_bytes 4 0"

definition batch_ack_try_new :: "bytes \<Rightarrow> bytes option" where
  "batch_ack_try_new buf = (if length buf < batch_ack_fixed_size then None else Some buf)"

definition batch_ack_head :: "bytes \<Rightarrow> batch_ack_fixed option" where
  "batch_ack_head buf = Option.bind (slice buf 0 batch_ack_fixed_size) batch_ack_fixed_from"

abbreviation batch_ack_consumer_id :: "bytes \<Rightarrow> u32 option" where
  "batch_ack_consumer_id buf \<equiv> map_option bf_consumer_id (batch_ack_head buf)"

definition batch_ack_count :: "bytes \<Rightarrow> u16 option" where
  "batch_ack_count buf = map_option bf_count (batch_ack_head buf)"

fun batch_ack_iter :: "bytes \<Rightarrow> usize \<Rightarrow> nat \<Rightarrow> (u64 \<times> u32) list" where
  "batch_ack_iter buf offset 0 = []"
| "batch_ack_iter buf offset (Suc remaining) =
    (case slice buf offset (offset + batch_ack_entry_size) of
       None \<Rightarrow> []
     | Some s \<Rightarrow> (field 0 8 s, field 8 4 s) # batch_ack_iter buf (offset + batch_ack_entry_size) remaining)"

definition batch_ack_entries :: "bytes \<Rightarrow> (u64 \<times> u32) list option" where
  "batch_ack_entries buf = map_option (batch_ack_iter buf batch_ack_fixed_size) (batch_ack_count buf)"

section \<open>Batches of deliveries\<close>

definition rep_batch_fixed_size :: usize where "rep_batch_fixed_size = 4"

definition rep_batch_fixed_bytes :: "u16 \<Rightarrow> bytes" where
  "rep_batch_fixed_bytes count = le_bytes 2 count @ le_bytes 2 0"

record delivery_entry_header =
  dh_consumer_id :: u32
  dh_seq :: u64
  dh_subj_len :: u16
  dh_reply_len :: u16
  dh_data_len :: u32
  dh_sub_id :: u32

definition delivery_entry_header_size :: usize where "delivery_entry_header_size = 24"

definition header_bytes :: "delivery_entry_header \<Rightarrow> bytes" where
  "header_bytes h = le_bytes 4 (dh_consumer_id h) @ le_bytes 8 (dh_seq h) @ le_bytes 2 (dh_subj_len h) @
     le_bytes 2 (dh_reply_len h) @ le_bytes 4 (dh_data_len h) @ le_bytes 4 (dh_sub_id h)"

definition header_from :: "bytes \<Rightarrow> delivery_entry_header option" where
  "header_from b =
    (if length b = delivery_entry_header_size
     then Some \<lparr>dh_consumer_id = field 0 4 b, dh_seq = field 4 8 b, dh_subj_len = field 12 2 b,
        dh_reply_len = field 14 2 b, dh_data_len = field 16 4 b, dh_sub_id = field 20 4 b\<rparr>
     else None)"

definition rep_batch_try_new :: "bytes \<Rightarrow> bytes option" where
  "rep_batch_try_new buf = (if length buf < rep_batch_fixed_size then None else Some buf)"

definition rep_batch_count :: "bytes \<Rightarrow> u16 option" where
  "rep_batch_count buf = map_option (field 0 2) (slice buf 0 rep_batch_fixed_size)"

record rep_batch_entry =
  rb_consumer_id :: u32
  rb_seq :: u64
  rb_subject_hash :: u32
  rb_subject :: bytes
  rb_reply_to :: bytes
  rb_payload :: bytes

text \<open>One step of the iterator: the entry at the offset and its total size, or the end.\<close>

definition rep_batch_next :: "bytes \<Rightarrow> usize \<Rightarrow> (rep_batch_entry \<times> usize) option" where
  "rep_batch_next buf offset =
    (if offset > length buf then None
     else
       let rest = drop offset buf in
       if length rest < delivery_entry_header_size then None
       else case header_from (take delivery_entry_header_size rest) of
         None \<Rightarrow> None
       | Some h \<Rightarrow>
         let subj_len = dh_subj_len h; reply_len = dh_reply_len h; data_len = dh_data_len h;
             entry_total = delivery_entry_header_size + data_len
         in if entry_total > length rest then None
            else if subj_len + reply_len > data_len then None
            else
              let payload_len = data_len - (subj_len + reply_len);
                  tail = take data_len (drop delivery_entry_header_size rest)
              in Some (\<lparr>rb_consumer_id = dh_consumer_id h, rb_seq = dh_seq h, rb_subject_hash = dh_sub_id h,
                   rb_subject = take subj_len tail, rb_reply_to = take reply_len (drop subj_len tail),
                   rb_payload = take payload_len (drop (subj_len + reply_len) tail)\<rparr>, entry_total))"

fun rep_batch_iter :: "bytes \<Rightarrow> usize \<Rightarrow> nat \<Rightarrow> rep_batch_entry list" where
  "rep_batch_iter buf offset 0 = []"
| "rep_batch_iter buf offset (Suc remaining) =
    (case rep_batch_next buf offset of
       None \<Rightarrow> []
     | Some (e, entry_total) \<Rightarrow> e # rep_batch_iter buf (offset + entry_total) remaining)"

definition rep_batch_entries :: "bytes \<Rightarrow> rep_batch_entry list option" where
  "rep_batch_entries buf = map_option (rep_batch_iter buf rep_batch_fixed_size) (rep_batch_count buf)"

section \<open>What the views read back\<close>

lemmas wire_sizes = envelope_size_def ack_action_size_def nack_action_size_def rep_size_def
  batch_ack_fixed_size_def batch_ack_entry_size_def rep_batch_fixed_size_def delivery_entry_header_size_def

lemma slice_prefix: "length a = n \<Longrightarrow> slice (a @ b) 0 n = Some a"
  by (simp add: slice_def)

lemma length_envelope_bytes [simp]: "length (envelope_bytes e) = envelope_size"
  by (simp add: envelope_bytes_def wire_sizes)

lemma length_header_bytes [simp]: "length (header_bytes h) = delivery_entry_header_size"
  by (simp add: header_bytes_def wire_sizes)

lemma envelope_roundtrip:
  assumes "action < 2 ^ 16" "flags < 2 ^ 8" "rsv < 2 ^ 8" "stream < 2 ^ 32" "len < 2 ^ 32" "seq < 2 ^ 32"
  shows "envelope_from (envelope_bytes \<lparr>env_action = action, env_flags = flags, env_rsv = rsv, env_stream_id = stream,
           env_msg_len = len, env_seq = seq\<rparr>) =
         Some \<lparr>env_action = action, env_flags = flags, env_rsv = rsv, env_stream_id = stream, env_msg_len = len, env_seq = seq\<rparr>"
  using assms by (simp add: envelope_from_def envelope_bytes_def wire_sizes field_skip del: le_bytes.simps)

lemma header_roundtrip:
  assumes "dh_consumer_id h < 2 ^ 32" "dh_seq h < 2 ^ 64" "dh_subj_len h < 2 ^ 16" "dh_reply_len h < 2 ^ 16"
    "dh_data_len h < 2 ^ 32" "dh_sub_id h < 2 ^ 32"
  shows "header_from (header_bytes h) = Some h"
  using assms by (simp add: header_from_def header_bytes_def wire_sizes field_skip)

lemma ack_roundtrip:
  assumes "aa_sequence a < 2 ^ 64" "aa_consumer_id a < 2 ^ 32" "aa_sub_id a < 2 ^ 32"
  shows "ack_inner (ack_action_bytes a @ rest) = Some a"
  using assms
  by (simp add: ack_inner_def ack_action_from_def ack_action_bytes_def slice_def wire_sizes field_skip)

lemma nack_roundtrip:
  assumes "na_sequence a < 2 ^ 64" "na_consumer_id a < 2 ^ 32" "na_delay_ms a < 2 ^ 32"
  shows "nack_inner (nack_action_bytes a @ rest) = Some a"
  using assms
  by (simp add: nack_inner_def nack_action_from_def nack_action_bytes_def slice_def wire_sizes field_skip)

lemma rep_error_roundtrip:
  assumes "ref_seq < 2 ^ 64" "code < 2 ^ 16"
  shows "rep_ref_seq (rep_error_bytes ref_seq code pad) = Some ref_seq" "rep_error_code (rep_error_bytes ref_seq code pad) = Some code"
  using assms by (simp_all add: rep_ref_seq_def rep_error_code_def rep_error_bytes_def slice_def wire_sizes field_skip)

lemma batch_ack_iter_bytes:
  assumes "\<forall>e \<in> set es. fst e < 2 ^ 64 \<and> snd e < 2 ^ 32"
  shows "batch_ack_iter (pre @ concat (map batch_ack_entry_bytes es) @ post) (length pre) (length es) = es"
  using assms
proof (induction es arbitrary: pre)
  case (Cons e es)
  have "length (batch_ack_entry_bytes e) = batch_ack_entry_size"
    by (simp add: batch_ack_entry_bytes_def wire_sizes)
  moreover from this have "slice (pre @ batch_ack_entry_bytes e @ concat (map batch_ack_entry_bytes es) @ post)
      (length pre) (length pre + batch_ack_entry_size) = Some (batch_ack_entry_bytes e)"
    by (simp add: slice_def)
  moreover have "field 0 8 (batch_ack_entry_bytes e) = fst e" "field 8 4 (batch_ack_entry_bytes e) = snd e"
    using Cons.prems by (simp_all add: batch_ack_entry_bytes_def field_skip)
  ultimately show ?case
    using Cons.IH [of "pre @ batch_ack_entry_bytes e"] Cons.prems by simp
qed simp

lemma batch_ack_roundtrip:
  assumes "bf_consumer_id f < 2 ^ 32" "bf_pad f < 2 ^ 16" "bf_count f = length es" "length es < 2 ^ 16"
    "\<forall>e \<in> set es. fst e < 2 ^ 64 \<and> snd e < 2 ^ 32"
  shows "batch_ack_entries (batch_ack_fixed_bytes f @ concat (map batch_ack_entry_bytes es)) = Some es"
proof -
  have "batch_ack_count (batch_ack_fixed_bytes f @ concat (map batch_ack_entry_bytes es)) = Some (length es)"
    using assms
    by (simp add: batch_ack_count_def batch_ack_head_def batch_ack_fixed_from_def batch_ack_fixed_bytes_def slice_def
      wire_sizes field_skip)
  moreover have "length (batch_ack_fixed_bytes f) = batch_ack_fixed_size"
    by (simp add: batch_ack_fixed_bytes_def wire_sizes)
  ultimately show ?thesis
    using batch_ack_iter_bytes [OF assms(5), of "batch_ack_fixed_bytes f" "[]"] by (simp add: batch_ack_entries_def)
qed

text \<open>One delivery entry: what its header and its three byte strings become.\<close>

definition entry_bytes :: "rep_batch_entry \<Rightarrow> bytes" where
  "entry_bytes e =
    header_bytes \<lparr>dh_consumer_id = rb_consumer_id e, dh_seq = rb_seq e, dh_subj_len = length (rb_subject e),
      dh_reply_len = length (rb_reply_to e),
      dh_data_len = length (rb_subject e) + length (rb_reply_to e) + length (rb_payload e),
      dh_sub_id = rb_subject_hash e\<rparr> @ rb_subject e @ rb_reply_to e @ rb_payload e"

definition entry_fits :: "rep_batch_entry \<Rightarrow> bool" where
  "entry_fits e \<longleftrightarrow> rb_consumer_id e < 2 ^ 32 \<and> rb_seq e < 2 ^ 64 \<and> rb_subject_hash e < 2 ^ 32 \<and>
     length (rb_subject e) < 2 ^ 16 \<and> length (rb_reply_to e) < 2 ^ 16 \<and>
     length (rb_subject e) + length (rb_reply_to e) + length (rb_payload e) < 2 ^ 32"

lemma rep_batch_next_entry:
  assumes "entry_fits e"
  shows "rep_batch_next (pre @ entry_bytes e @ post) (length pre) = Some (e, length (entry_bytes e))"
proof -
  define h where "h = \<lparr>dh_consumer_id = rb_consumer_id e, dh_seq = rb_seq e, dh_subj_len = length (rb_subject e),
      dh_reply_len = length (rb_reply_to e),
      dh_data_len = length (rb_subject e) + length (rb_reply_to e) + length (rb_payload e),
      dh_sub_id = rb_subject_hash e\<rparr>"
  have "header_from (header_bytes h) = Some h"
    by (rule header_roundtrip) (use assms in \<open>auto simp: h_def entry_fits_def\<close>)
  moreover have "entry_bytes e = header_bytes h @ rb_subject e @ rb_reply_to e @ rb_payload e"
    by (simp add: entry_bytes_def h_def)
  ultimately show ?thesis
    by (simp add: rep_batch_next_def Let_def) (simp add: h_def)
qed

lemma rep_batch_iter_entries:
  assumes "\<forall>e \<in> set es. entry_fits e"
  shows "rep_batch_iter (pre @ concat (map entry_bytes es) @ post) (length pre) (length es) = es"
  using assms
proof (induction es arbitrary: pre)
  case (Cons e es)
  then show ?case
    using rep_batch_next_entry [of e pre "concat (map entry_bytes es) @ post"]
      Cons.IH [of "pre @ entry_bytes e"] by simp
qed simp

lemma rep_batch_roundtrip:
  assumes "\<forall>e \<in> set es. entry_fits e" "length es < 2 ^ 16"
  shows "rep_batch_entries (rep_batch_fixed_bytes (length es) @ concat (map entry_bytes es)) = Some es"
proof -
  have "length (rep_batch_fixed_bytes (length es)) = rep_batch_fixed_size"
    by (simp add: rep_batch_fixed_bytes_def wire_sizes)
  moreover have "rep_batch_count (rep_batch_fixed_bytes (length es) @ concat (map entry_bytes es)) = Some (length es)"
    using assms by (simp add: rep_batch_count_def rep_batch_fixed_bytes_def slice_def wire_sizes)
  ultimately show ?thesis
    using rep_batch_iter_entries [OF assms(1), of "rep_batch_fixed_bytes (length es)" "[]"]
    by (simp add: rep_batch_entries_def)
qed

end
