(* ===== verification/Accumulator.thy ===== *)
theory Accumulator
  imports Delivery_Wire
begin

text \<open>
  The frame accumulator of a drain cycle (\<^verbatim>\<open>arbitro-server/src/shard/accumulator.rs\<close>): one bucket of
  wire bytes per connection, stream and kind of frame, drawn from a pool of recycled buckets.  The
  reservation of buffer space has no counterpart.  \<open>wire\<close> is the translation of stream identifiers
  that the name registry provides.  \<open>None\<close> is an index or a slice out of range.
\<close>

section \<open>Buckets\<close>

record bucket =
  bk_body :: bytes
  bk_count :: u16
  bk_first_seq :: u64
  bk_stream_id :: u32
  bk_connection_id :: u64
  bk_in_use :: bool
  bk_is_fanout :: bool

definition new_blank :: bucket where
  "new_blank = \<lparr>bk_body = [], bk_count = 0, bk_first_seq = 0, bk_stream_id = 0, bk_connection_id = 0,
     bk_in_use = False, bk_is_fanout = False\<rparr>"

definition bucket_activate :: "u64 \<Rightarrow> u32 \<Rightarrow> u64 \<Rightarrow> bool \<Rightarrow> bucket \<Rightarrow> bucket" where
  "bucket_activate conn stream seq0 is_fanout b =
    \<lparr>bk_body = replicate envelope_size 0 @ rep_batch_fixed_bytes 0, bk_count = 0, bk_first_seq = seq0,
     bk_stream_id = stream, bk_connection_id = conn, bk_in_use = True, bk_is_fanout = is_fanout\<rparr>"

definition bucket_release :: "bucket \<Rightarrow> bucket" where
  "bucket_release b = b\<lparr>bk_body := [], bk_count := 0, bk_in_use := False, bk_is_fanout := False\<rparr>"

definition push_entry_bytes :: "u32 \<Rightarrow> u64 \<Rightarrow> u32 \<Rightarrow> bytes \<Rightarrow> bytes \<Rightarrow> bytes \<Rightarrow> bucket \<Rightarrow> bucket" where
  "push_entry_bytes consumer_id seq sub_id subject reply_to payload b =
    (let subj_len = length subject; reply_len = length reply_to;
         data_len = subj_len + reply_len + length payload;
         header = \<lparr>dh_consumer_id = consumer_id, dh_seq = seq, dh_subj_len = subj_len, dh_reply_len = reply_len,
           dh_data_len = data_len, dh_sub_id = sub_id\<rparr>;
         count = min (bk_count b + 1) (2 ^ 16 - 1)
     in b\<lparr>bk_body := bk_body b @ header_bytes header @ subject @ reply_to @ payload, bk_count := count,
          bk_first_seq := (if count = 1 then seq else bk_first_seq b)\<rparr>)"

section \<open>The accumulator\<close>

type_synonym bucket_key = "u64 \<times> u32 \<times> bool"

record accumulator =
  ac_buckets :: "bucket list"
  ac_active :: "usize list"
  ac_index :: "(bucket_key, usize) hmap"
  ac_free :: "usize list"

definition acc_new :: accumulator where
  "acc_new = \<lparr>ac_buckets = [], ac_active = [], ac_index = [], ac_free = []\<rparr>"

definition acc_clear :: "accumulator \<Rightarrow> accumulator" where
  "acc_clear a = \<lparr>ac_buckets = map (\<lambda>b. if bk_in_use b then bucket_release b else b) (ac_buckets a),
     ac_active = [], ac_index = [], ac_free = [0..<length (ac_buckets a)]\<rparr>"

definition acquire_bucket :: "u64 \<Rightarrow> u32 \<Rightarrow> u64 \<Rightarrow> bool \<Rightarrow> accumulator \<Rightarrow> (usize \<times> accumulator) option" where
  "acquire_bucket conn stream seq0 is_fanout a =
    (let key = (conn, stream, is_fanout) in
     case hm_get (ac_index a) key of
       Some idx \<Rightarrow> Some (idx, a)
     | None \<Rightarrow>
       let (idx, a1) =
         (if ac_free a = [] then (length (ac_buckets a), a\<lparr>ac_buckets := ac_buckets a @ [new_blank]\<rparr>)
          else (last (ac_free a), a\<lparr>ac_free := butlast (ac_free a)\<rparr>))
       in map_option (\<lambda>bs. (idx, a1\<lparr>ac_buckets := bs, ac_active := ac_active a1 @ [idx],
              ac_index := hm_insert key idx (ac_index a1)\<rparr>))
            (slot_update (bucket_activate conn stream seq0 is_fanout) idx (ac_buckets a1)))"

definition acc_push ::
  "u64 \<Rightarrow> u32 \<Rightarrow> bool \<Rightarrow> u32 \<Rightarrow> u64 \<Rightarrow> u32 \<Rightarrow> bytes \<Rightarrow> bytes \<Rightarrow> bytes \<Rightarrow> accumulator \<Rightarrow> accumulator option" where
  "acc_push conn stream is_fanout consumer seq sub_id subject reply_to payload a =
    (case acquire_bucket conn stream seq is_fanout a of
       None \<Rightarrow> None
     | Some (idx, a1) \<Rightarrow>
       map_option (\<lambda>bs. a1\<lparr>ac_buckets := bs\<rparr>)
         (slot_update (push_entry_bytes consumer seq sub_id subject reply_to payload) idx (ac_buckets a1)))"

definition acc_add ::
  "u64 \<Rightarrow> u32 \<Rightarrow> u32 \<Rightarrow> u64 \<Rightarrow> bytes \<Rightarrow> u32 \<Rightarrow> bytes \<Rightarrow> bytes \<Rightarrow> accumulator \<Rightarrow> accumulator option" where
  "acc_add conn stream consumer seq subject sub_id reply_to payload =
     acc_push conn stream False consumer seq sub_id subject reply_to payload"

definition acc_add_fanout ::
  "u64 \<Rightarrow> u32 \<Rightarrow> u64 \<Rightarrow> bytes \<Rightarrow> u32 \<Rightarrow> bytes \<Rightarrow> bytes \<Rightarrow> accumulator \<Rightarrow> accumulator option" where
  "acc_add_fanout conn stream seq subject subject_hash reply_to payload =
     acc_push conn stream True 0 seq subject_hash subject reply_to payload"

record frame =
  fr_connection_id :: u64
  fr_stream_id :: u32
  fr_first_seq :: u64
  fr_count :: u16
  fr_bytes :: bytes

text \<open>\<^verbatim>\<open>for_each\<close> hands the frames over one by one and ignores what the callback returns, so it is
  the list of the frames.\<close>

definition bucket_frame :: "(u32 \<Rightarrow> u32 option) \<Rightarrow> bucket \<Rightarrow> frame option" where
  "bucket_frame wire b =
    (case write_slice (bk_body b) envelope_size (le_bytes 2 (bk_count b)) of
       None \<Rightarrow> None
     | Some body \<Rightarrow>
       let body_len = length body - envelope_size;
           wire_stream_id = (case wire (bk_stream_id b) of Some w \<Rightarrow> w | None \<Rightarrow> bk_stream_id b);
           act = (if bk_is_fanout b then FanoutBatch else RepBatch);
           env = envelope_new act wire_stream_id (body_len mod 2 ^ 32) 0
       in map_option (\<lambda>bs. \<lparr>fr_connection_id = bk_connection_id b, fr_stream_id = bk_stream_id b,
              fr_first_seq = bk_first_seq b, fr_count = bk_count b, fr_bytes = bs\<rparr>)
            (write_slice body 0 (envelope_bytes env)))"

fun flush_active :: "(u32 \<Rightarrow> u32 option) \<Rightarrow> usize list \<Rightarrow> accumulator \<Rightarrow> (frame list \<times> accumulator) option" where
  "flush_active wire [] a = Some ([], a)"
| "flush_active wire (idx # rest) a =
    (case vec_get (ac_buckets a) idx of
       None \<Rightarrow> None
     | Some b \<Rightarrow>
       let a1 = a\<lparr>ac_buckets := (ac_buckets a)[idx := bucket_release b], ac_free := ac_free a @ [idx]\<rparr>
       in if bk_count b = 0 then flush_active wire rest a1
          else case bucket_frame wire b of
            None \<Rightarrow> None
          | Some f \<Rightarrow> map_option (\<lambda>(fs, a2). (f # fs, a2)) (flush_active wire rest a1))"

definition acc_for_each :: "(u32 \<Rightarrow> u32 option) \<Rightarrow> accumulator \<Rightarrow> (frame list \<times> accumulator) option" where
  "acc_for_each wire a =
     map_option (\<lambda>(fs, a1). (fs, a1\<lparr>ac_active := [], ac_index := []\<rparr>)) (flush_active wire (ac_active a) a)"

section \<open>Grouping\<close>

text \<open>
  What the accumulator means: the entries of each key in the order they came, the keys in the order
  of their first entry.
\<close>

type_synonym grouping = "(bucket_key, rep_batch_entry list) hmap"

definition put :: "bucket_key \<times> rep_batch_entry \<Rightarrow> grouping \<Rightarrow> grouping" where
  "put ke m = hm_insert (fst ke) (get_or m (fst ke) [] @ [snd ke]) m"

definition holds :: "bucket_key \<Rightarrow> rep_batch_entry list \<Rightarrow> bucket \<Rightarrow> bool" where
  "holds key es b \<longleftrightarrow> (bk_connection_id b, bk_stream_id b, bk_is_fanout b) = key \<and> es \<noteq> [] \<and>
     bk_body b = replicate envelope_size 0 @ rep_batch_fixed_bytes 0 @ concat (map entry_bytes es) \<and>
     bk_count b = min (length es) (2 ^ 16 - 1) \<and> bk_first_seq b = rb_seq (hd es)"

definition pool_ok :: "accumulator \<Rightarrow> bool" where
  "pool_ok a \<longleftrightarrow> map snd (ac_index a) = ac_active a \<and> distinct (map fst (ac_index a)) \<and>
     distinct (ac_active a @ ac_free a) \<and> (\<forall>i \<in> set (ac_active a @ ac_free a). i < length (ac_buckets a))"

definition acc_rep :: "accumulator \<Rightarrow> grouping \<Rightarrow> bool" where
  "acc_rep a m \<longleftrightarrow> pool_ok a \<and>
     list_all2 (\<lambda>(k, i) (k', es). k = k' \<and> holds k es (ac_buckets a ! i)) (ac_index a) m"

text \<open>The call that appends an entry under a key.\<close>

definition acc_put :: "bucket_key \<times> rep_batch_entry \<Rightarrow> accumulator \<Rightarrow> accumulator option" where
  "acc_put ke a =
    (let (conn, stream, is_fanout) = fst ke; e = snd ke in
     if is_fanout
     then acc_add_fanout conn stream (rb_seq e) (rb_subject e) (rb_subject_hash e) (rb_reply_to e) (rb_payload e) a
     else acc_add conn stream (rb_consumer_id e) (rb_seq e) (rb_subject e) (rb_subject_hash e) (rb_reply_to e) (rb_payload e) a)"

definition put_fits :: "bucket_key \<times> rep_batch_entry \<Rightarrow> bool" where
  "put_fits ke \<longleftrightarrow> entry_fits (snd ke) \<and> (snd (snd (fst ke)) \<longrightarrow> rb_consumer_id (snd ke) = 0)"

lemma acc_rep_clear: "acc_rep (acc_clear a) []"
  by (simp add: acc_rep_def pool_ok_def acc_clear_def)

lemma acc_rep_new: "acc_rep acc_new []"
  by (simp add: acc_rep_def pool_ok_def acc_new_def)

lemma hm_insert_at:
  "distinct (map fst m) \<Longrightarrow> n < length m \<Longrightarrow> fst (m ! n) = k \<Longrightarrow> hm_insert k v m = m[n := (k, v)]"
  unfolding hm_insert_def
proof (induction m arbitrary: n)
  case (Cons x m)
  then show ?case by (cases n; cases x) (auto simp: nth_mem)
qed simp

lemma hm_insert_new: "k \<notin> fst ` set m \<Longrightarrow> hm_insert k v m = m @ [(k, v)]"
  unfolding hm_insert_def by (induction m) auto

lemma hm_get_at: "distinct (map fst m) \<Longrightarrow> n < length m \<Longrightarrow> hm_get m (fst (m ! n)) = Some (snd (m ! n))"
  by (simp add: hm_get_def map_of_eq_Some_iff)

lemma holds_activate:
  "holds (conn, stream, is_fanout) [e]
     (push_entry_bytes (rb_consumer_id e) (rb_seq e) (rb_subject_hash e) (rb_subject e) (rb_reply_to e) (rb_payload e)
       (bucket_activate conn stream (rb_seq e) is_fanout b))"
  by (simp add: holds_def push_entry_bytes_def bucket_activate_def entry_bytes_def Let_def)

lemma holds_push:
  assumes "holds key es b"
  shows "holds key (es @ [e])
     (push_entry_bytes (rb_consumer_id e) (rb_seq e) (rb_subject_hash e) (rb_subject e) (rb_reply_to e) (rb_payload e) b)"
  using assms by (auto simp: holds_def push_entry_bytes_def entry_bytes_def Let_def hd_append min_def)

lemma rep_keys: "acc_rep a m \<Longrightarrow> map fst (ac_index a) = map fst m"
  unfolding acc_rep_def by (auto simp: list_all2_conv_all_nth list_eq_iff_nth_eq split_beta)

lemma rep_distinct: "acc_rep a m \<Longrightarrow> distinct (map fst m)"
  using rep_keys [of a m] by (simp add: acc_rep_def pool_ok_def)

text \<open>The bucket of a key that is already there gets the entry and no other bucket changes.\<close>

lemma acc_push_existing:
  assumes "acc_rep a m" "hm_get (ac_index a) (conn, stream, is_fanout) = Some idx"
  shows "\<exists>a'. acc_push conn stream is_fanout (rb_consumer_id e) (rb_seq e) (rb_subject_hash e) (rb_subject e) (rb_reply_to e) (rb_payload e) a = Some a' \<and>
    acc_rep a' (put ((conn, stream, is_fanout), e) m)"
proof -
  let ?k = "(conn, stream, is_fanout)" and ?p = "push_entry_bytes (rb_consumer_id e) (rb_seq e) (rb_subject_hash e) (rb_subject e) (rb_reply_to e) (rb_payload e)"
  have pool: "map snd (ac_index a) = ac_active a" "distinct (map fst (ac_index a))" "distinct (ac_active a)"
      "\<forall>i \<in> set (ac_active a). i < length (ac_buckets a)"
    and l2: "list_all2 (\<lambda>(k, i) (k', es). k = k' \<and> holds k es (ac_buckets a ! i)) (ac_index a) m"
    using assms(1) by (auto simp: acc_rep_def pool_ok_def)
  obtain n where n: "n < length (ac_index a)" "ac_index a ! n = (?k, idx)"
    using assms(2) by (metis hm_get_def map_of_SomeD in_set_conv_nth)
  have lm: "length m = length (ac_index a)"
    using l2 by (simp add: list_all2_conv_all_nth)
  obtain es where es: "m ! n = (?k, es)" "holds ?k es (ac_buckets a ! idx)"
    using list_all2_nthD [OF l2 n(1)] n(2) by auto
  have act: "ac_active a ! j = snd (ac_index a ! j)" if "j < length (ac_index a)" for j
    using pool(1) that by (metis nth_map)
  have la: "length (ac_active a) = length (ac_index a)"
    using pool(1) by (metis length_map)
  have idx: "idx < length (ac_buckets a)"
    using pool(4) act [OF n(1)] n la by (metis nth_mem snd_conv)
  have other: "snd (ac_index a ! j) \<noteq> idx" if "j < length (ac_index a)" "j \<noteq> n" for j
    using pool(3) act that n la by (metis nth_eq_iff_index_eq snd_conv)
  have put: "put (?k, e) m = m[n := (?k, es @ [e])]"
    using hm_insert_at [OF rep_distinct [OF assms(1)], of n ?k] hm_get_at [OF rep_distinct [OF assms(1)], of n] n es lm
    by (simp add: put_def get_or_def)
  have "list_all2 (\<lambda>(k, i) (k', es). k = k' \<and> holds k es ((ac_buckets a)[idx := ?p (ac_buckets a ! idx)] ! i))
      (ac_index a) (m[n := (?k, es @ [e])])"
    using l2 n es idx holds_push [OF es(2)] other
    by (auto simp: list_all2_conv_all_nth nth_list_update split_beta)
  then show ?thesis
    using assms idx put by (auto simp: acc_push_def acquire_bucket_def slot_update_def Let_def acc_rep_def pool_ok_def)
qed

text \<open>A new key gets a bucket nobody else uses: the last free one, or a new one.\<close>

lemma acc_push_into:
  assumes rep: "acc_rep a m" and new: "k \<notin> fst ` set m"
    and idx: "idx < length bs" "idx \<notin> set (ac_active a)" "length (ac_buckets a) \<le> length bs"
    and same: "\<And>i. i \<in> set (ac_active a) \<Longrightarrow> bs ! i = ac_buckets a ! i"
    and free: "distinct (ac_active a @ idx # fr)" "\<forall>i \<in> set fr. i < length bs"
    and held: "holds k es b"
    and a': "ac_buckets a' = bs[idx := b]" "ac_active a' = ac_active a @ [idx]"
      "ac_index a' = hm_insert k idx (ac_index a)" "ac_free a' = fr"
  shows "acc_rep a' (m @ [(k, es)])"
proof -
  have keys: "map fst (ac_index a) = map fst m" by (rule rep_keys [OF rep])
  have newi: "k \<notin> fst ` set (ac_index a)" using new keys by (metis image_set)
  have pool: "map snd (ac_index a) = ac_active a" "distinct (map fst (ac_index a))"
      "\<forall>i \<in> set (ac_active a). i < length (ac_buckets a)"
    and l2: "list_all2 (\<lambda>(k, i) (k', es). k = k' \<and> holds k es (ac_buckets a ! i)) (ac_index a) m"
    using rep by (auto simp: acc_rep_def pool_ok_def)
  have "list_all2 (\<lambda>(k, i) (k', es). k = k' \<and> holds k es (bs[idx := b] ! i)) (ac_index a) m"
  proof (rule list.rel_mono_strong [OF l2])
    fix x y
    assume x: "x \<in> set (ac_index a)" and h: "(case x of (k, i) \<Rightarrow> \<lambda>(k', es). k = k' \<and> holds k es (ac_buckets a ! i)) y"
    have "snd x \<in> set (ac_active a)" using x pool(1) by (metis image_eqI list.set_map)
    then have "bs[idx := b] ! snd x = ac_buckets a ! snd x" using same idx(2) by (metis nth_list_update_neq)
    then show "(case x of (k, i) \<Rightarrow> \<lambda>(k', es). k = k' \<and> holds k es (bs[idx := b] ! i)) y"
      using h by (cases x; cases y) simp
  qed
  then show ?thesis
    using pool newi idx free held a' by (auto simp: acc_rep_def pool_ok_def hm_insert_new list_all2_appendI intro: less_le_trans)
qed

lemma acc_push_new:
  assumes rep: "acc_rep a m" and none: "hm_get (ac_index a) (conn, stream, is_fanout) = None"
  shows "\<exists>a'. acc_push conn stream is_fanout (rb_consumer_id e) (rb_seq e) (rb_subject_hash e) (rb_subject e) (rb_reply_to e) (rb_payload e) a = Some a' \<and>
    acc_rep a' (put ((conn, stream, is_fanout), e) m)"
proof -
  let ?k = "(conn, stream, is_fanout)" and ?p = "push_entry_bytes (rb_consumer_id e) (rb_seq e) (rb_subject_hash e) (rb_subject e) (rb_reply_to e) (rb_payload e)"
  let ?b = "\<lambda>b. ?p (bucket_activate conn stream (rb_seq e) is_fanout b)"
  have "map fst (ac_index a) = map fst m" by (rule rep_keys [OF rep])
  then have new: "?k \<notin> fst ` set m"
    using none by (metis hm_get_def image_set map_of_eq_None_iff)
  then have put: "put (?k, e) m = m @ [(?k, [e])]"
    by (simp add: put_def hm_insert_new get_or_def hm_get_def map_of_eq_None_iff [THEN iffD2])
  have pool: "distinct (ac_active a @ ac_free a)" "\<forall>i \<in> set (ac_active a @ ac_free a). i < length (ac_buckets a)"
    using rep by (auto simp: acc_rep_def pool_ok_def)
  show ?thesis
  proof (cases "ac_free a = []")
    case True
    let ?bs = "ac_buckets a @ [new_blank]" and ?i = "length (ac_buckets a)"
    define a' where "a' = a\<lparr>ac_active := ac_active a @ [?i], ac_index := hm_insert ?k ?i (ac_index a),
        ac_buckets := ?bs[?i := ?b new_blank]\<rparr>"
    have "acc_push conn stream is_fanout (rb_consumer_id e) (rb_seq e) (rb_subject_hash e) (rb_subject e) (rb_reply_to e) (rb_payload e) a = Some a'"
      using none True by (simp add: acc_push_def acquire_bucket_def slot_update_def Let_def a'_def)
    moreover have "acc_rep a' (m @ [(?k, [e])])"
      by (rule acc_push_into [OF rep new, where bs = ?bs and idx = ?i and fr = "[]" and b = "?b new_blank"])
        (use pool True in \<open>auto simp: nth_append holds_activate a'_def\<close>)
    ultimately show ?thesis using put by simp
  next
    case False
    define i where "i = last (ac_free a)"
    define fr where "fr = butlast (ac_free a)"
    have fr: "ac_free a = fr @ [i]" using False by (simp add: i_def fr_def)
    define a' where "a' = a\<lparr>ac_free := fr, ac_active := ac_active a @ [i], ac_index := hm_insert ?k i (ac_index a),
        ac_buckets := (ac_buckets a)[i := ?b (ac_buckets a ! i)]\<rparr>"
    have "acc_push conn stream is_fanout (rb_consumer_id e) (rb_seq e) (rb_subject_hash e) (rb_subject e) (rb_reply_to e) (rb_payload e) a = Some a'"
      using none fr pool by (simp add: acc_push_def acquire_bucket_def slot_update_def Let_def a'_def)
    moreover have "acc_rep a' (m @ [(?k, [e])])"
      by (rule acc_push_into [OF rep new, where bs = "ac_buckets a" and idx = i and fr = fr and b = "?b (ac_buckets a ! i)"])
        (use pool fr in \<open>auto simp: holds_activate a'_def\<close>)
    ultimately show ?thesis using put by simp
  qed
qed

lemma acc_push_ok:
  assumes "acc_rep a m"
  shows "\<exists>a'. acc_push conn stream is_fanout (rb_consumer_id e) (rb_seq e) (rb_subject_hash e) (rb_subject e) (rb_reply_to e) (rb_payload e) a = Some a' \<and>
    acc_rep a' (put ((conn, stream, is_fanout), e) m)"
  using acc_push_new [OF assms] acc_push_existing [OF assms]
  by (cases "hm_get (ac_index a) (conn, stream, is_fanout)") blast+

lemma acc_put_ok:
  assumes "acc_rep a m" "put_fits ke"
  shows "\<exists>a'. acc_put ke a = Some a' \<and> acc_rep a' (put ke m)"
proof -
  obtain conn stream fan e where ke: "ke = ((conn, stream, fan), e)" by (cases ke) auto
  have "fan \<Longrightarrow> rb_consumer_id e = 0" using assms(2) by (simp add: ke put_fits_def)
  then show ?thesis
    using acc_push_ok [OF assms(1), of conn stream fan e]
    by (cases fan) (auto simp: ke acc_put_def acc_add_def acc_add_fanout_def)
qed

lemma acc_puts_ok:
  assumes "acc_rep a m" "\<forall>ke \<in> set kes. put_fits ke"
  shows "\<exists>a'. ofold acc_put kes a = Some a' \<and> acc_rep a' (fold put kes m)"
  using assms
proof (induction kes arbitrary: a m)
  case (Cons ke kes)
  then obtain a1 where "acc_put ke a = Some a1" "acc_rep a1 (put ke m)" 
    using acc_put_ok [OF Cons.prems(1), of ke] by auto
  moreover have "\<forall>ke \<in> set kes. put_fits ke" using Cons.prems(2) by simp
  ultimately show ?case using Cons.IH [of a1 "put ke m"] by simp
qed simp

section \<open>Flushing\<close>

definition frame_of :: "(u32 \<Rightarrow> u32 option) \<Rightarrow> bucket_key \<times> rep_batch_entry list \<Rightarrow> frame" where
  "frame_of wire ke =
    (let (conn, stream, is_fanout) = fst ke; es = snd ke;
         count = min (length es) (2 ^ 16 - 1);
         body = rep_batch_fixed_bytes count @ concat (map entry_bytes es);
         act = (if is_fanout then FanoutBatch else RepBatch)
     in \<lparr>fr_connection_id = conn, fr_stream_id = stream, fr_first_seq = rb_seq (hd es), fr_count = count,
         fr_bytes = envelope_bytes (envelope_new act (case wire stream of Some w \<Rightarrow> w | None \<Rightarrow> stream)
           (length body mod 2 ^ 32) 0) @ body\<rparr>)"

lemma bucket_frame_holds:
  assumes "holds key es b"
  shows "bucket_frame wire b = Some (frame_of wire (key, es))"
proof -
  have body: "bk_body b = replicate envelope_size 0 @ rep_batch_fixed_bytes 0 @ concat (map entry_bytes es)"
    using assms by (simp add: holds_def)
  have "write_slice (bk_body b) envelope_size (le_bytes 2 (bk_count b)) =
      Some (replicate envelope_size 0 @ rep_batch_fixed_bytes (bk_count b) @ concat (map entry_bytes es))"
    by (simp add: body write_slice_def rep_batch_fixed_bytes_def)
  moreover have "write_slice (replicate envelope_size 0 @ ys) 0 (envelope_bytes env) = Some (envelope_bytes env @ ys)" for ys env
    by (simp add: write_slice_def)
  ultimately show ?thesis
    using assms by (auto simp: bucket_frame_def frame_of_def holds_def Let_def)
qed

lemma flush_active_frames:
  assumes "list_all2 (\<lambda>i (k, es). i < length (ac_buckets a) \<and> holds k es (ac_buckets a ! i)) idxs m" "distinct idxs"
  shows "\<exists>a'. flush_active wire idxs a = Some (map (frame_of wire) m, a') \<and> ac_free a' = ac_free a @ idxs \<and>
    length (ac_buckets a') = length (ac_buckets a)"
  using assms
proof (induction idxs arbitrary: a m)
  case (Cons i idxs)
  then obtain k es m' where m: "m = (k, es) # m'" and i: "i < length (ac_buckets a)" "holds k es (ac_buckets a ! i)"
    and l2: "list_all2 (\<lambda>i (k, es). i < length (ac_buckets a) \<and> holds k es (ac_buckets a ! i)) idxs m'"
    by (cases m) auto
  define a1 where "a1 = a\<lparr>ac_buckets := (ac_buckets a)[i := bucket_release (ac_buckets a ! i)], ac_free := ac_free a @ [i]\<rparr>"
  have "list_all2 (\<lambda>i (k, es). i < length (ac_buckets a1) \<and> holds k es (ac_buckets a1 ! i)) idxs m'"
proof (rule list.rel_mono_strong [OF l2])
    fix z y
    assume "z \<in> set idxs" "(case y of (k, es) \<Rightarrow> z < length (ac_buckets a) \<and> holds k es (ac_buckets a ! z))"
    moreover from this(1) have "z \<noteq> i" using Cons.prems(2) by auto
    ultimately show "(case y of (k, es) \<Rightarrow> z < length (ac_buckets a1) \<and> holds k es (ac_buckets a1 ! z))"
      by (cases y) (simp add: a1_def)
  qed
  from Cons.IH [OF this] obtain a' where a': "flush_active wire idxs a1 = Some (map (frame_of wire) m', a')"
      "ac_free a' = ac_free a1 @ idxs" "length (ac_buckets a') = length (ac_buckets a1)"
    using Cons.prems(2) by auto
  have "bk_count (ac_buckets a ! i) \<noteq> 0" using i(2) by (auto simp: holds_def)
  then show ?case
    using a' i bucket_frame_holds [OF i(2)] by (simp add: m vec_get_def Let_def a1_def)
qed simp

lemma acc_for_each_ok:
  assumes "acc_rep a m"
  shows "\<exists>a'. acc_for_each wire a = Some (map (frame_of wire) m, a') \<and> acc_rep a' []"
proof -
  have pool: "map snd (ac_index a) = ac_active a" "distinct (ac_active a @ ac_free a)"
      "\<forall>i \<in> set (ac_active a @ ac_free a). i < length (ac_buckets a)"
    and l2: "list_all2 (\<lambda>(k, i) (k', es). k = k' \<and> holds k es (ac_buckets a ! i)) (ac_index a) m"
    using assms by (auto simp: acc_rep_def pool_ok_def)
  have "list_all2 (\<lambda>i (k, es). i < length (ac_buckets a) \<and> holds k es (ac_buckets a ! i)) (ac_active a) m"
    unfolding pool(1) [symmetric] list.rel_map
    by (rule list.rel_mono_strong [OF l2]) (use pool in \<open>auto simp: image_iff dest!: arg_cong [where f = set]\<close>, force)
  from flush_active_frames [OF this, of wire] pool(2) obtain a' where
    "flush_active wire (ac_active a) a = Some (map (frame_of wire) m, a')" "ac_free a' = ac_free a @ ac_active a"
    "length (ac_buckets a') = length (ac_buckets a)" by auto
  then show ?thesis
    using pool by (auto simp: acc_for_each_def acc_rep_def pool_ok_def)
qed

section \<open>From the drain to the client\<close>

definition first_keys :: "(bucket_key \<times> rep_batch_entry) list \<Rightarrow> bucket_key list" where
  "first_keys kes = rev (remdups (rev (map fst kes)))"

definition entries_of :: "bucket_key \<Rightarrow> (bucket_key \<times> rep_batch_entry) list \<Rightarrow> rep_batch_entry list" where
  "entries_of k kes = map snd (filter (\<lambda>ke. fst ke = k) kes)"

lemma hm_get_map: "hm_get (map (\<lambda>k. (k, f k)) ks) k = (if k \<in> set ks then Some (f k) else None)"
  by (induction ks) (auto simp: hm_get_def)

lemma hm_insert_map:
  "distinct ks \<Longrightarrow> hm_insert k v (map (\<lambda>k. (k, f k)) ks) =
     map (\<lambda>x. (x, if x = k then v else f x)) (if k \<in> set ks then ks else ks @ [k])"
  unfolding hm_insert_def by (induction ks) auto

lemma first_keys_snoc:
  "first_keys (kes @ [ke]) = (if fst ke \<in> set (first_keys kes) then first_keys kes else first_keys kes @ [fst ke])"
  by (simp add: first_keys_def)

lemma grouping: "fold put kes [] = map (\<lambda>k. (k, entries_of k kes)) (first_keys kes)"
proof (induction kes rule: rev_induct)
  case (snoc ke kes)
  have none: "entries_of (fst ke) kes = []" if "fst ke \<notin> set (first_keys kes)"
    using that by (simp add: entries_of_def first_keys_def filter_empty_conv) (metis image_eqI)
  have d: "distinct (first_keys kes)" by (simp add: first_keys_def)
  have "(\<lambda>x. (x, if x = fst ke then get_or (fold put kes []) (fst ke) [] @ [snd ke] else entries_of x kes)) =
      (\<lambda>k. (k, entries_of k (kes @ [ke])))"
    using none by (auto simp: entries_of_def get_or_def snoc.IH hm_get_map)
  then show ?case
    using hm_insert_map [OF d, of "fst ke" "get_or (fold put kes []) (fst ke) [] @ [snd ke]" "\<lambda>k. entries_of k kes"]
    unfolding fold_append o_apply fold.simps id_apply put_def [of ke] first_keys_snoc snoc.IH by simp
qed (simp add: first_keys_def)

text \<open>What a client that receives the frame reads from its bytes.\<close>

definition received :: "frame \<Rightarrow> (u64 \<times> u32 option \<times> action option option \<times> (proto_error + unit) option \<times> rep_batch_entry list option)" where
  "received f = (fr_connection_id f, view_stream_id (fr_bytes f), view_action (fr_bytes f), frame_validate (fr_bytes f),
     Option.bind (view_body (fr_bytes f)) rep_batch_entries)"

definition wired :: "(u32 \<Rightarrow> u32 option) \<Rightarrow> u32 \<Rightarrow> u32" where
  "wired wire stream = (case wire stream of Some w \<Rightarrow> w | None \<Rightarrow> stream)"

lemma view_envelope_append:
  assumes "stream < 2 ^ 32" "len < 2 ^ 32"
  shows "view_envelope (envelope_bytes (envelope_new (if fan then FanoutBatch else RepBatch) stream len 0) @ body) =
    Some (envelope_new (if fan then FanoutBatch else RepBatch) stream len 0)"
  using assms envelope_roundtrip [of "action_as_u16 (if fan then FanoutBatch else RepBatch)" 0 0 stream len 0]
  by (auto simp: view_envelope_def envelope_new_def slice_prefix)

lemma received_frame:
  assumes fits: "\<forall>e \<in> set es. entry_fits e" and len: "length es < 2 ^ 16"
    and size: "rep_batch_fixed_size + length (concat (map entry_bytes es)) < 2 ^ 32"
    and wire: "wired wire stream < 2 ^ 32"
  shows "received (frame_of wire ((conn, stream, fan), es)) =
    (conn, Some (wired wire stream), Some (Some (if fan then FanoutBatch else RepBatch)), Some (Inr ()), Some es)"
proof -
  let ?act = "if fan then FanoutBatch else RepBatch" and ?body = "rep_batch_fixed_bytes (length es) @ concat (map entry_bytes es)"
  define len where "len = length ?body"
  let ?bytes = "envelope_bytes (envelope_new ?act (wired wire stream) len 0) @ ?body"
  have flen: "length (rep_batch_fixed_bytes (length es)) = rep_batch_fixed_size"
    by (simp add: rep_batch_fixed_bytes_def wire_sizes)
  have small: "len < 2 ^ 32" using size flen by (simp add: len_def)
  have frame: "fr_bytes (frame_of wire ((conn, stream, fan), es)) = ?bytes"
    using len small by (simp add: frame_of_def wired_def Let_def len_def min_def)
  have env: "view_envelope ?bytes = Some (envelope_new ?act (wired wire stream) len 0)"
    by (rule view_envelope_append [OF wire small])
  have act: "action_from_u16 (action_as_u16 ?act) = Some ?act"
    by (simp add: action_from_u16_def)
  have "view_body ?bytes = Some ?body"
    by (simp add: view_body_def slice_def)
  moreover have "frame_validate ?bytes = Some (Inr ())"
    using env act by (simp add: frame_validate_def view_msg_len_def view_action_raw_def envelope_new_def len_def)
  moreover have "view_stream_id ?bytes = Some (wired wire stream)" "view_action ?bytes = Some (Some ?act)"
    using env act by (simp_all add: view_stream_id_def view_action_def view_action_raw_def envelope_new_def)
  moreover have "fr_connection_id (frame_of wire ((conn, stream, fan), es)) = conn"
    by (simp add: frame_of_def Let_def)
  ultimately show ?thesis
    unfolding received_def frame using rep_batch_roundtrip [OF fits len] by simp
qed

lemma size_entries_of:
  "length (concat (map entry_bytes (entries_of k kes))) \<le> (\<Sum>ke \<leftarrow> kes. length (entry_bytes (snd ke)))"
  by (induction kes) (auto simp: entries_of_def)

text \<open>C9. Whatever an earlier cycle left in the accumulator, a cycle that clears it and appends
  entries gets one frame per connection, stream and kind, in the order of first use, and no panic.
  The client that receives a frame finds it valid, reads the stream's wire identifier and the kind,
  and gets exactly the entries appended for that connection, stream and kind, in order, byte for
  byte: recycled buckets never mix the traffic of two connections.  The hypotheses are the widths of
  the wire fields: subjects and reply subjects under 64 KiB, fewer than 65536 entries, under 4 GiB.\<close>

theorem accumulator_roundtrip:
  assumes "\<forall>ke \<in> set kes. put_fits ke \<and> wired wire (fst (snd (fst ke))) < 2 ^ 32" "length kes < 2 ^ 16"
    "rep_batch_fixed_size + (\<Sum>ke \<leftarrow> kes. length (entry_bytes (snd ke))) < 2 ^ 32"
  shows "\<exists>a1 frames a2. ofold acc_put kes (acc_clear a) = Some a1 \<and> acc_for_each wire a1 = Some (frames, a2) \<and>
    map received frames = map (\<lambda>k. (fst k, Some (wired wire (fst (snd k))), Some (Some (if snd (snd k) then FanoutBatch else RepBatch)),
      Some (Inr ()), Some (entries_of k kes))) (first_keys kes)"
proof -
  obtain a1 where a1: "ofold acc_put kes (acc_clear a) = Some a1" "acc_rep a1 (fold put kes [])"
    using acc_puts_ok [OF acc_rep_clear, of kes] assms(1) by blast
  obtain a2 where a2: "acc_for_each wire a1 = Some (map (frame_of wire) (fold put kes []), a2)"
    using acc_for_each_ok [OF a1(2)] by blast
  have "received (frame_of wire (k, entries_of k kes)) = (fst k, Some (wired wire (fst (snd k))),
      Some (Some (if snd (snd k) then FanoutBatch else RepBatch)), Some (Inr ()), Some (entries_of k kes))"
    if k: "k \<in> set (first_keys kes)" for k
  proof -
    obtain conn stream fan where kk: "k = (conn, stream, fan)" by (cases k) auto
    have "\<forall>e \<in> set (entries_of k kes). entry_fits e"
      using assms(1) by (auto simp: entries_of_def put_fits_def)
    moreover have "length (entries_of k kes) < 2 ^ 16"
      using assms(2) length_filter_le [of "\<lambda>ke. fst ke = k" kes] unfolding entries_of_def length_map by linarith
    moreover have "rep_batch_fixed_size + length (concat (map entry_bytes (entries_of k kes))) < 2 ^ 32"
      using assms(3) size_entries_of [of k kes] by linarith
    moreover have "wired wire stream < 2 ^ 32"
      using assms(1) k kk by (force simp: first_keys_def)
    ultimately show ?thesis using received_frame kk by simp
  qed
  then show ?thesis using a1 a2 by (simp add: grouping)
qed

definition demo_entry :: "u64 \<Rightarrow> bytes \<Rightarrow> rep_batch_entry" where
  "demo_entry seq payload = \<lparr>rb_consumer_id = 3, rb_seq = seq, rb_subject_hash = 9, rb_subject = [97, 46, 98],
     rb_reply_to = [], rb_payload = payload\<rparr>"

definition demo_puts :: "(bucket_key \<times> rep_batch_entry) list" where
  "demo_puts = [((7, 0, False), demo_entry 1 [1]), ((8, 0, False), demo_entry 2 [2, 2]), ((7, 0, False), demo_entry 3 [])]"

theorem accumulator_roundtrip_witness:
  "\<exists>a1 frames a2. ofold acc_put demo_puts (acc_clear acc_new) = Some a1 \<and> acc_for_each (\<lambda>_. Some 40) a1 = Some (frames, a2) \<and>
    map received frames =
      [(7, Some 40, Some (Some RepBatch), Some (Inr ()), Some [demo_entry 1 [1], demo_entry 3 []]),
       (8, Some 40, Some (Some RepBatch), Some (Inr ()), Some [demo_entry 2 [2, 2]])]"
  using accumulator_roundtrip [of demo_puts "\<lambda>_. Some 40" acc_new]
  by (simp add: demo_puts_def demo_entry_def put_fits_def entry_fits_def wired_def entry_bytes_def wire_sizes
    first_keys_def entries_of_def)

end
