(* ===== verification/Drain_Cycle.thy ===== *)
theory Drain_Cycle
  imports Engine Memory_Store Consumer_Subjects Shared_Counters Accumulator
begin

text \<open>
  The drain cycle of a shard, \<^verbatim>\<open>arbitro-server/src/shard/drain.rs\<close>: walk a window of the journal, decide
  for every entry which bindings get it, collect the entries into one frame per connection and
  stream, send the frames, and record what was delivered.  The journal is reached through \<open>info\<close> and
  \<open>each\<close>; \<open>hash\<close> is the subject hash; \<open>failed\<close> is what the load of a binding's failed flag returned
  while an entry was dispatched, and \<open>net\<close> what happened to the n-th frame of a flush.  The counters
  the command thread may change meanwhile are read as they are at the start of the phase.  Tracing,
  probes and the debug counters are left out.  \<open>None\<close> is a panic.
\<close>

section \<open>Data\<close>

record active_binding =
  ab_binding_id :: u32
  ab_connection_id :: u64
  ab_consumer_id :: u32
  ab_subscription_id :: u32
  ab_group_idx :: u32
  ab_external_sub_id :: u32
  ab_stream_id :: u32
  ab_queue_id :: u32
  ab_max_inflight :: u32
  ab_fire_and_forget :: bool
  ab_ack_wait_ms :: u32
  ab_deliver_floor :: u64

record drain_snapshot =
  sn_bindings :: "active_binding list"
  sn_writers :: "u64 list"
  sn_match_tables :: "match_table option list"
  sn_max_age_ms :: "u64 list"
  sn_created_at_seq :: "u64 list"

definition snapshot_empty :: drain_snapshot where
  "snapshot_empty = \<lparr>sn_bindings = [], sn_writers = [], sn_match_tables = [], sn_max_age_ms = [], sn_created_at_seq = []\<rparr>"

record drain_config =
  dc_max_feed :: usize
  dc_max_age_ms :: u64
  dc_stall_evict_ms :: u64

record pending_notify =
  pn_conn :: u64
  pn_stream :: u32
  pn_binding_idx :: usize
  pn_seq :: u64
  pn_subject_hash :: u32
  pn_consumer_id :: u32
  pn_queue_id :: u32

section \<open>Scratch state and caches\<close>

record subject_cache =
  ca_birth_seq :: u64
  ca_resolved :: "(u32, match_entry list) hmap"
  ca_limit :: "(u32, u32 option) hmap"

definition cache_default :: subject_cache where
  "cache_default = \<lparr>ca_birth_seq = 0, ca_resolved = [], ca_limit = []\<rparr>"

definition for_incarnation :: "u64 \<Rightarrow> subject_cache \<Rightarrow> subject_cache" where
  "for_incarnation birth_seq c =
    (if ca_birth_seq c \<noteq> birth_seq then \<lparr>ca_birth_seq = birth_seq, ca_resolved = [], ca_limit = []\<rparr> else c)"

type_synonym stream_caches = "(u32, subject_cache) hmap"

definition stream_cache :: "u32 \<Rightarrow> u64 \<Rightarrow> stream_caches \<Rightarrow> subject_cache" where
  "stream_cache stream_id birth_seq caches = for_incarnation birth_seq (get_or caches stream_id cache_default)"

definition resolve_patterns ::
  "u32 \<Rightarrow> u64 \<Rightarrow> u32 \<Rightarrow> bytes \<Rightarrow> match_table \<Rightarrow> stream_caches \<Rightarrow> (match_entry list \<times> stream_caches) option" where
  "resolve_patterns stream_id birth_seq subject_hash subject mt caches =
    (let c = stream_cache stream_id birth_seq caches in
     case hm_get (ca_resolved c) subject_hash of
       Some es \<Rightarrow> Some (es, hm_insert stream_id c caches)
     | None \<Rightarrow>
       map_option (\<lambda>es. (es, hm_insert stream_id (c\<lparr>ca_resolved := hm_insert subject_hash es (ca_resolved c)\<rparr>) caches))
         (resolve_patterns_readonly mt subject []))"

definition resolve_limit ::
  "u32 \<Rightarrow> u64 \<Rightarrow> u32 \<Rightarrow> bytes \<Rightarrow> match_table \<Rightarrow> stream_caches \<Rightarrow> (u32 option \<times> stream_caches) option" where
  "resolve_limit stream_id birth_seq subject_hash subject mt caches =
    (let c = stream_cache stream_id birth_seq caches in
     case hm_get (ca_limit c) subject_hash of
       Some l \<Rightarrow> Some (l, hm_insert stream_id c caches)
     | None \<Rightarrow>
       map_option (\<lambda>l. (l, hm_insert stream_id (c\<lparr>ca_limit := hm_insert subject_hash l (ca_limit c)\<rparr>) caches))
         (resolve_subject_limit_readonly mt subject_hash subject))"

datatype flush_outcome = FlushOk | Backpressured u64 | WriterGone u64

record drain_scratch =
  ds_fanout_stamp :: "u64 list"
  ds_fanout_gen :: u64
  ds_dead :: "u64 list"
  ds_caches :: stream_caches
  ds_acc :: accumulator
  ds_deliveries :: "pending_notify list"
  ds_local_inflight :: "(u32 \<times> u32) list"
  ds_local_subject :: "(u32 \<times> u32, u32) hmap"
  ds_stalled :: "(u64 \<times> u64) list"

definition scratch_new :: drain_scratch where
  "scratch_new = \<lparr>ds_fanout_stamp = [], ds_fanout_gen = 0, ds_dead = [], ds_caches = [], ds_acc = acc_new,
     ds_deliveries = [], ds_local_inflight = [], ds_local_subject = [], ds_stalled = []\<rparr>"

fun local_delta_get :: "(u32 \<times> u32) list \<Rightarrow> u32 \<Rightarrow> u32" where
  "local_delta_get [] key = 0"
| "local_delta_get ((k, v) # xs) key = (if k = key then v else local_delta_get xs key)"

fun local_delta_inc :: "u32 \<Rightarrow> (u32 \<times> u32) list \<Rightarrow> (u32 \<times> u32) list" where
  "local_delta_inc key [] = [(key, 1)]"
| "local_delta_inc key ((k, v) # xs) = (if k = key then (k, u32_add v 1) # xs else (k, v) # local_delta_inc key xs)"

definition open_pending :: "pending_notify \<Rightarrow> drain_scratch \<Rightarrow> drain_scratch" where
  "open_pending n s =
     s\<lparr>ds_deliveries := ds_deliveries s @ [n],
       ds_local_inflight := local_delta_inc (pn_consumer_id n) (ds_local_inflight s),
       ds_local_subject := hm_insert (pn_consumer_id n, pn_subject_hash n)
         (u32_add (get_or (ds_local_subject s) (pn_consumer_id n, pn_subject_hash n) 0) 1) (ds_local_subject s)\<rparr>"

text \<open>What the walk carries from entry to entry.\<close>

record walk =
  wk_scratch :: drain_scratch
  wk_more_pending :: bool
  wk_lowest_skipped :: "u64 option"

definition track_skipped :: "u64 \<Rightarrow> u64 option \<Rightarrow> u64 option" where
  "track_skipped seq lowest = Some (case lowest of Some s \<Rightarrow> min s seq | None \<Rightarrow> seq)"

definition skip_owed :: "u64 \<Rightarrow> walk \<Rightarrow> walk" where
  "skip_owed seq w = w\<lparr>wk_more_pending := True, wk_lowest_skipped := track_skipped seq (wk_lowest_skipped w)\<rparr>"

section \<open>Choosing the recipients of an entry\<close>

text \<open>The stored payload may carry headers and a reply subject in front of the user's bytes.\<close>

definition strip_headers :: "byte \<Rightarrow> bytes \<Rightarrow> bytes" where
  "strip_headers flags payload =
    (if and flags has_headers_flag \<noteq> 0 \<and> length payload \<ge> 4 then
       let pay_len = field 0 4 payload
       in if length payload \<ge> 4 + pay_len then take pay_len (drop 4 payload) else payload
     else payload)"

definition split_reply :: "byte \<Rightarrow> bytes \<Rightarrow> bytes \<times> bytes" where
  "split_reply flags raw =
    (if and flags has_reply_to_flag \<noteq> 0 \<and> length raw \<ge> 2 then
       let reply_len = field 0 2 raw
       in if length raw \<ge> 2 + reply_len then (take reply_len (drop 2 raw), drop (2 + reply_len) raw) else ([], raw)
     else ([], raw))"

text \<open>The checks that keep an owed entry back and pin the cursor.\<close>

definition held_back ::
  "shared_counters \<Rightarrow> subject_books \<Rightarrow> u32 option \<Rightarrow> u32 \<Rightarrow> u32 \<Rightarrow> active_binding \<Rightarrow> drain_scratch \<Rightarrow> bool option" where
  "held_back counters books subject_limit subject_hash consumer b s =
    (case sh_is_paused counters consumer of
       None \<Rightarrow> None
     | Some True \<Rightarrow> Some True
     | Some False \<Rightarrow>
       if ab_fire_and_forget b then Some False
       else
         let pending = local_delta_get (ds_local_inflight s) consumer in
         if pending \<ge> ab_max_inflight b then Some True
         else case sh_has_capacity counters consumer (ab_max_inflight b - pending) of
           None \<Rightarrow> None
         | Some False \<Rightarrow> Some True
         | Some True \<Rightarrow>
           Some (case subject_limit of
               None \<Rightarrow> False
             | Some mx \<Rightarrow>
               u32_add (get_or (ds_local_subject s) (consumer, subject_hash) 0)
                 (case consumer_subjects_slot books consumer of Some cs \<Rightarrow> cs_get cs subject_hash | None \<Rightarrow> 0) \<ge> mx))"

definition hand_off ::
  "entry \<Rightarrow> u32 \<Rightarrow> u32 \<Rightarrow> bool \<Rightarrow> match_entry \<Rightarrow> active_binding \<Rightarrow> drain_scratch \<Rightarrow> drain_scratch option" where
  "hand_off e stream_id subject_hash collapsed me b s =
    (let (reply_to, payload) = split_reply (e_flags e) (strip_headers (e_flags e) (e_payload e)) in
     case (if collapsed then Some (ds_acc s)
           else acc_add (me_connection_id me) stream_id (me_consumer_id me) (e_seq e) (e_subject e)
                  (ab_external_sub_id b) reply_to payload (ds_acc s)) of
       None \<Rightarrow> None
     | Some acc \<Rightarrow>
       let s1 = s\<lparr>ds_acc := acc\<rparr>
       in Some (if ab_fire_and_forget b then s1
            else open_pending \<lparr>pn_conn = me_connection_id me, pn_stream = stream_id, pn_binding_idx = binding_idx me,
                   pn_seq = e_seq e, pn_subject_hash = subject_hash, pn_consumer_id = me_consumer_id me,
                   pn_queue_id = me_queue_id me\<rparr> s1))"

text \<open>
  One candidate whose binding is known; \<open>collapsed\<close> says that a sibling on the same connection already
  carries the bytes.  The queues already served for this entry and the walk go in and come out.
\<close>

definition dispatch_bound ::
  "(u64 \<Rightarrow> usize \<Rightarrow> bool) \<Rightarrow> shared_counters \<Rightarrow> entry \<Rightarrow> u32 \<Rightarrow> u32 \<Rightarrow> u32 option \<Rightarrow> subject_books \<Rightarrow> match_entry \<Rightarrow>
   active_binding \<Rightarrow> bool \<Rightarrow> u32 list \<times> walk \<Rightarrow> (u32 list \<times> walk) option" where
  "dispatch_bound failed counters e stream_id subject_hash subject_limit books me b collapsed st =
    (let served = fst st; w = snd st in
     if collapsed \<and> ab_fire_and_forget b then Some st
     else if e_seq e \<le> ab_deliver_floor b then Some st
     else if failed (e_seq e) (binding_idx me) then Some st
     else case held_back counters books subject_limit subject_hash (me_consumer_id me) b (wk_scratch w) of
       None \<Rightarrow> None
     | Some True \<Rightarrow> Some (served, skip_owed (e_seq e) w)
     | Some False \<Rightarrow>
       (case hand_off e stream_id subject_hash collapsed me b (wk_scratch w) of
          None \<Rightarrow> None
        | Some s1 \<Rightarrow>
          if me_queue_id me \<noteq> 0 then Some (served @ [me_queue_id me], w\<lparr>wk_scratch := s1\<rparr>)
          else Some (served, w\<lparr>wk_scratch :=
            s1\<lparr>ds_fanout_stamp := (ds_fanout_stamp s1)[ab_group_idx b := ds_fanout_gen s1]\<rparr>\<rparr>)))"

definition dispatch_one ::
  "(u64 \<Rightarrow> usize \<Rightarrow> bool) \<Rightarrow> shared_counters \<Rightarrow> entry \<Rightarrow> u32 \<Rightarrow> u32 \<Rightarrow> u32 option \<Rightarrow> subject_books \<Rightarrow> active_binding list \<Rightarrow>
   match_entry \<Rightarrow> u32 list \<times> walk \<Rightarrow> (u32 list \<times> walk) option" where
  "dispatch_one failed counters e stream_id subject_hash subject_limit books bs me st =
    (let served = fst st; s = wk_scratch (snd st); has_queue = (me_queue_id me \<noteq> 0) in
     if me_connection_id me = 0 then Some st
     else if suppressed_for books (me_consumer_id me) (e_seq e) then Some st
     else if has_queue \<and> me_queue_id me \<in> set served then Some st
     else if me_connection_id me \<in> set (ds_dead s) then Some st
     else if binding_idx me = binding_idx_unbound \<or> binding_idx me \<ge> length bs then Some st
     else
       let b = bs ! binding_idx me in
       case (if has_queue then Some False
             else map_option (\<lambda>g. g = ds_fanout_gen s) (vec_get (ds_fanout_stamp s) (ab_group_idx b))) of
         None \<Rightarrow> None
       | Some collapsed \<Rightarrow>
         dispatch_bound failed counters e stream_id subject_hash subject_limit books me b collapsed st)"

text \<open>The round starts at the entry's number modulo the number of candidates.\<close>

definition rotated :: "nat \<Rightarrow> 'a list \<Rightarrow> 'a list" where
  "rotated start xs = drop start xs @ take start xs"

definition dispatch_recipients ::
  "(u64 \<Rightarrow> usize \<Rightarrow> bool) \<Rightarrow> shared_counters \<Rightarrow> entry \<Rightarrow> u32 \<Rightarrow> u32 \<Rightarrow> u32 option \<Rightarrow> subject_books \<Rightarrow> active_binding list \<Rightarrow>
   match_entry list \<Rightarrow> walk \<Rightarrow> walk option" where
  "dispatch_recipients failed counters e stream_id subject_hash subject_limit books bs matches w =
    (let s = wk_scratch w;
         s1 = s\<lparr>ds_fanout_gen := ds_fanout_gen s + 1,
                ds_fanout_stamp := ds_fanout_stamp s @ replicate (length bs - length (ds_fanout_stamp s)) 0\<rparr>;
         w1 = w\<lparr>wk_scratch := s1\<rparr>
     in if matches = [] then Some w1
        else map_option snd
          (ofold (dispatch_one failed counters e stream_id subject_hash subject_limit books bs)
            (rotated (e_seq e mod length matches) matches) ([], w1)))"

definition merge_resolved :: "match_entry list \<Rightarrow> match_entry list \<Rightarrow> match_entry list" where
  "merge_resolved resolved ms = fold (\<lambda>e ms. if list_ex (me_eq e) ms then ms else ms @ [e]) resolved ms"

text \<open>The candidates of an entry: the literal and catch-all matches, then what the patterns add.\<close>

definition resolve_matches ::
  "u32 \<Rightarrow> u64 \<Rightarrow> u32 \<Rightarrow> bytes \<Rightarrow> match_table \<Rightarrow> stream_caches \<Rightarrow> (match_entry list \<times> stream_caches) option" where
  "resolve_matches stream birth_seq subject_hash subject mt caches =
    (let ms = mr_iter (lookup_verified mt subject_hash subject) in
     if pattern_count mt > 0
     then map_option (\<lambda>(res, ca). (merge_resolved res ms, ca)) (resolve_patterns stream birth_seq subject_hash subject mt caches)
     else Some (ms, caches))"

definition route_entry ::
  "(bytes \<Rightarrow> u32) \<Rightarrow> (u64 \<Rightarrow> usize \<Rightarrow> bool) \<Rightarrow> shared_counters \<Rightarrow> drain_snapshot \<Rightarrow> subject_books \<Rightarrow> u64 \<Rightarrow> match_table \<Rightarrow> entry \<Rightarrow>
   walk \<Rightarrow> walk option" where
  "route_entry hash failed counters snap books birth_seq mt e w =
    (let stream = e_stream_id e; subject_hash = hash (e_subject e); s = wk_scratch w in
     case resolve_matches stream birth_seq subject_hash (e_subject e) mt (ds_caches s) of
       None \<Rightarrow> None
     | Some (matches, ca) \<Rightarrow>
       (case (if has_subject_limits mt
              then resolve_limit stream birth_seq subject_hash (e_subject e) mt ca else Some (None, ca)) of
          None \<Rightarrow> None
        | Some (subject_limit, ca') \<Rightarrow>
          let w1 = w\<lparr>wk_scratch := s\<lparr>ds_caches := ca'\<rparr>\<rparr>
          in if matches = [] then Some w1
             else dispatch_recipients failed counters e stream subject_hash subject_limit books (sn_bindings snap) matches w1))"

definition process_drain_entry ::
  "(bytes \<Rightarrow> u32) \<Rightarrow> (u64 \<Rightarrow> usize \<Rightarrow> bool) \<Rightarrow> shared_counters \<Rightarrow> drain_snapshot \<Rightarrow> subject_books \<Rightarrow> u64 \<Rightarrow> u64 \<Rightarrow> entry \<Rightarrow> walk \<Rightarrow> walk option" where
  "process_drain_entry hash failed counters snap books now_ms max_age_ms e w =
    (let stream = e_stream_id e;
         birth_seq = vec_or (sn_created_at_seq snap) stream 0
     in if max_age_ms > 0 \<and> e_timestamp e > 0 \<and> e_timestamp e + max_age_ms \<le> now_ms then Some w
        else if and (e_flags e) tombstone_flag \<noteq> 0 then Some w
        else if birth_seq > 0 \<and> e_seq e < birth_seq then Some w
        else case sh_has_demand counters stream of
          None \<Rightarrow> None
        | Some False \<Rightarrow> Some w
        | Some True \<Rightarrow>
          (case vec_or (sn_match_tables snap) stream None of
             None \<Rightarrow> Some w
           | Some mt \<Rightarrow> route_entry hash failed counters snap books birth_seq mt e w))"

section \<open>Reading a window\<close>

record drain_read_result =
  rr_start :: u64
  rr_end :: u64
  rr_more_pending :: bool
  rr_lowest_skipped :: "u64 option"
  rr_last_seq :: u64

datatype read_verdict = NoDemand | UpToDate u64 u64 | Fed drain_read_result

text \<open>The age limit of a stream, or the global one when the stream has none.\<close>

definition stream_max_age :: "drain_snapshot \<Rightarrow> drain_config \<Rightarrow> u32 \<Rightarrow> u64" where
  "stream_max_age snap cfg stream =
    (let v = vec_or (sn_max_age_ms snap) stream 0 in if v > 0 then v else dc_max_age_ms cfg)"

definition drain_walk ::
  "(bytes \<Rightarrow> u32) \<Rightarrow> (u64 \<Rightarrow> usize \<Rightarrow> bool) \<Rightarrow> shared_counters \<Rightarrow> drain_snapshot \<Rightarrow> drain_config \<Rightarrow> subject_books \<Rightarrow> u64 \<Rightarrow>
   entry list \<Rightarrow> drain_scratch \<Rightarrow> walk option" where
  "drain_walk hash failed counters snap cfg books now_ms es s =
     ofold (\<lambda>e. process_drain_entry hash failed counters snap books now_ms (stream_max_age snap cfg (e_stream_id e)) e)
       es \<lparr>wk_scratch = s, wk_more_pending = False, wk_lowest_skipped = None\<rparr>"

definition scratch_reset :: "bool \<Rightarrow> drain_scratch \<Rightarrow> drain_scratch" where
  "scratch_reset snap_changed s =
     s\<lparr>ds_dead := [], ds_local_inflight := [], ds_local_subject := [], ds_deliveries := [], ds_acc := acc_clear (ds_acc s),
       ds_caches := (if snap_changed then [] else ds_caches s)\<rparr>"

definition drain_read ::
  "(bytes \<Rightarrow> u32) \<Rightarrow> (u64 \<Rightarrow> usize \<Rightarrow> bool) \<Rightarrow> ('s \<Rightarrow> store_info) \<Rightarrow> (u64 \<Rightarrow> u64 \<Rightarrow> 's \<Rightarrow> entry list option) \<Rightarrow>
   shared_counters \<Rightarrow> drain_snapshot \<Rightarrow> 's \<Rightarrow> drain_config \<Rightarrow> subject_books \<Rightarrow> u64 \<Rightarrow> bool \<Rightarrow> drain_scratch \<Rightarrow>
   (read_verdict \<times> drain_scratch) option" where
  "drain_read hash failed info each counters snap store cfg books now_ms snap_changed s =
    (if \<not> sh_has_any_demand counters then Some (NoDemand, s)
     else
       let inf = info store; cursor = sh_cursor counters in
       if si_last_seq inf \<le> cursor then Some (UpToDate (si_last_seq inf) cursor, s)
       else
         let start = cursor + 1;
             stop = min (start + dc_max_feed cfg) (si_last_seq inf + 1)
         in case each start stop store of
              None \<Rightarrow> None
            | Some es \<Rightarrow>
              map_option (\<lambda>w. (Fed \<lparr>rr_start = start, rr_end = stop, rr_more_pending = wk_more_pending w,
                    rr_lowest_skipped = wk_lowest_skipped w, rr_last_seq = si_last_seq inf\<rparr>, wk_scratch w))
                (drain_walk hash failed counters snap cfg books now_ms es (scratch_reset snap_changed s)))"

section \<open>Sending the frames\<close>

text \<open>
  What the writer of a connection does with a frame: it takes it, its channel refuses it, or it has
  already failed.  The last lookup of a writer is kept for the next frame.
\<close>

datatype net_result = Accepted | ChannelRefused | WriteFailed

fun flush_frames ::
  "u64 list \<Rightarrow> (nat \<Rightarrow> frame \<Rightarrow> net_result) \<Rightarrow> nat \<Rightarrow> u64 \<times> bool \<Rightarrow> frame list \<Rightarrow> (u64 \<times> flush_outcome) list" where
  "flush_frames writers net n prev [] = []"
| "flush_frames writers net n prev (f # fs) =
    (let conn = fr_connection_id f;
         found = (if conn = fst prev then snd prev else conn \<in> set writers);
         outcome =
           (if \<not> found then WriterGone (fr_first_seq f)
            else case net n f of
              WriteFailed \<Rightarrow> WriterGone (fr_first_seq f)
            | Accepted \<Rightarrow> FlushOk
            | ChannelRefused \<Rightarrow> Backpressured (fr_first_seq f))
     in (conn, outcome) # flush_frames writers net (n + 1) (conn, found) fs)"

definition flush :: "u64 list \<Rightarrow> (nat \<Rightarrow> frame \<Rightarrow> net_result) \<Rightarrow> frame list \<Rightarrow> (u64 \<times> flush_outcome) list" where
  "flush writers net = flush_frames writers net 0 (2 ^ 64 - 1, False)"

definition result_skipped :: "u64 \<Rightarrow> drain_read_result \<Rightarrow> drain_read_result" where
  "result_skipped seq r = r\<lparr>rr_lowest_skipped := track_skipped seq (rr_lowest_skipped r), rr_more_pending := True\<rparr>"

text \<open>\<open>clock n\<close> is the instant read for the n-th outcome.\<close>

definition note_stall :: "u64 \<Rightarrow> u64 \<Rightarrow> u64 \<Rightarrow> drain_scratch \<Rightarrow> drain_scratch" where
  "note_stall stall_evict_ms now conn s =
    (if stall_evict_ms > 0 then
       case find (\<lambda>e. fst e = conn) (ds_stalled s) of
         None \<Rightarrow> s\<lparr>ds_stalled := ds_stalled s @ [(conn, now)]\<rparr>
       | Some (_, since) \<Rightarrow>
         if now - since \<ge> stall_evict_ms \<and> conn \<notin> set (ds_dead s) then s\<lparr>ds_dead := ds_dead s @ [conn]\<rparr> else s
     else s)"

definition note_outcome ::
  "u64 \<Rightarrow> (nat \<Rightarrow> u64) \<Rightarrow> nat \<times> u64 \<times> flush_outcome \<Rightarrow> drain_read_result \<times> drain_scratch \<Rightarrow> drain_read_result \<times> drain_scratch" where
  "note_outcome stall_evict_ms clock x st =
    (let (n, conn, outcome) = x; (r, s) = st in
     case outcome of
       FlushOk \<Rightarrow> (r, s)
     | Backpressured seq0 \<Rightarrow> (result_skipped seq0 r, note_stall stall_evict_ms (clock n) conn s)
     | WriterGone seq0 \<Rightarrow> (result_skipped seq0 r, s\<lparr>ds_dead := ds_dead s @ [conn]\<rparr>))"

definition keep_stalled :: "(u64 \<times> flush_outcome) list \<Rightarrow> u64 \<times> u64 \<Rightarrow> bool" where
  "keep_stalled results c \<longleftrightarrow>
     list_ex (\<lambda>(fc, outcome). fc = fst c \<and> (case outcome of Backpressured _ \<Rightarrow> True | _ \<Rightarrow> False)) results \<and>
     \<not> list_ex (\<lambda>(fc, outcome). fc = fst c \<and> outcome = FlushOk) results"

section \<open>Recording the deliveries\<close>

fun frame_ok_for :: "(u64 \<times> flush_outcome) list \<Rightarrow> u64 \<Rightarrow> bool" where
  "frame_ok_for [] conn = False"
| "frame_ok_for ((c, outcome) # results) conn = (if c = conn then outcome = FlushOk else frame_ok_for results conn)"

definition record_delivery ::
  "(u64 \<times> flush_outcome) list \<Rightarrow> pending_notify \<Rightarrow> shared_counters \<times> subject_books \<Rightarrow> (shared_counters \<times> subject_books) option" where
  "record_delivery results d cb =
    (if frame_ok_for results (pn_conn d) then
       map_option (\<lambda>c. (c, deliver_book (pn_consumer_id d) (pn_subject_hash d) (pn_seq d) (snd cb)))
         (inc_inflight (pn_consumer_id d) (pn_queue_id d) (fst cb))
     else Some cb)"

definition record_deliveries ::
  "pending_notify list \<Rightarrow> (u64 \<times> flush_outcome) list \<Rightarrow> shared_counters \<times> subject_books \<Rightarrow> (shared_counters \<times> subject_books) option" where
  "record_deliveries deliveries results = ofold (record_delivery results) deliveries"

section \<open>Telling the command thread\<close>

datatype drain_notification =
    NotifyDelivered u32 u32 u32 "delivered_entry list"
  | NotifyDead u64

record notify_ring =
  nr_queue :: "drain_notification list"
  nr_dropped :: nat

definition notify_capacity :: usize where "notify_capacity = 8192"

definition try_notify :: "drain_notification \<Rightarrow> notify_ring \<Rightarrow> notify_ring" where
  "try_notify n r =
    (if length (nr_queue r) < notify_capacity then r\<lparr>nr_queue := nr_queue r @ [n]\<rparr> else r\<lparr>nr_dropped := nr_dropped r + 1\<rparr>)"

definition delivered_of :: "pending_notify \<Rightarrow> delivered_entry" where
  "delivered_of d = \<lparr>de_seq = pn_seq d, de_subject_hash = pn_subject_hash d\<rparr>"

definition notify_binding :: "active_binding \<Rightarrow> pending_notify list \<Rightarrow> drain_notification" where
  "notify_binding b ds = NotifyDelivered (ab_binding_id b) (ab_consumer_id b) (ab_queue_id b) (map delivered_of ds)"

text \<open>The slow path groups by binding with a counting sort: count, prefix sums, placement.\<close>

definition bucket_counts :: "nat \<Rightarrow> pending_notify list \<Rightarrow> nat list option" where
  "bucket_counts k ds = ofold (\<lambda>d. slot_update Suc (pn_binding_idx d + 1)) ds (replicate (k + 1) 0)"

definition prefix_sums :: "nat \<Rightarrow> nat list \<Rightarrow> nat list" where
  "prefix_sums k counts = fold (\<lambda>i cs. cs[i := cs ! i + cs ! (i - 1)]) [1..<k + 1] counts"

definition place_one :: "pending_notify \<Rightarrow> pending_notify list \<times> nat list \<Rightarrow> (pending_notify list \<times> nat list) option" where
  "place_one d pc =
    (let (placed, cursors) = pc in
     case vec_get cursors (pn_binding_idx d) of
       None \<Rightarrow> None
     | Some p \<Rightarrow>
       if p < length placed then Some (placed[p := d], cursors[pn_binding_idx d := p + 1]) else None)"

definition counting_sort :: "nat \<Rightarrow> pending_notify list \<Rightarrow> (pending_notify list \<times> nat list) option" where
  "counting_sort k ds =
    (case bucket_counts k ds of
       None \<Rightarrow> None
     | Some counts \<Rightarrow>
       let starts = prefix_sums k counts
       in map_option (\<lambda>(placed, _). (placed, starts)) (ofold place_one ds (replicate (length ds) (hd ds), starts)))"

definition notify_group ::
  "active_binding list \<Rightarrow> pending_notify list \<Rightarrow> nat list \<Rightarrow> nat \<Rightarrow> notify_ring \<Rightarrow> notify_ring option" where
  "notify_group bs placed starts idx r =
    (case (vec_get starts idx, vec_get starts (idx + 1)) of
       (Some a, Some b) \<Rightarrow>
         if a = b then Some r
         else case (slice placed a b, vec_get bs idx) of
           (Some grp, Some b1) \<Rightarrow> Some (try_notify (notify_binding b1 grp) r)
         | _ \<Rightarrow> None
     | _ \<Rightarrow> None)"

definition notify_delivered_grouped ::
  "active_binding list \<Rightarrow> pending_notify list \<Rightarrow> (u64 \<times> flush_outcome) list \<Rightarrow> notify_ring \<Rightarrow> notify_ring option" where
  "notify_delivered_grouped bs deliveries results r =
    (if deliveries \<noteq> [] \<and> list_all (\<lambda>d. pn_binding_idx d = pn_binding_idx (hd deliveries)) deliveries \<and>
        list_all (\<lambda>d. frame_ok_for results (pn_conn d)) deliveries
     then map_option (\<lambda>b. try_notify (notify_binding b deliveries) r) (vec_get bs (pn_binding_idx (hd deliveries)))
     else
       let ok = filter (\<lambda>d. frame_ok_for results (pn_conn d)) deliveries in
       if ok = [] then Some r
       else case counting_sort (length bs) ok of
         None \<Rightarrow> None
       | Some (placed, starts) \<Rightarrow> ofold (notify_group bs placed starts) [0..<length bs] r)"

definition report_dead_connections :: "u64 list \<Rightarrow> notify_ring \<Rightarrow> notify_ring" where
  "report_dead_connections dead r = fold (\<lambda>c. try_notify (NotifyDead c)) dead r"

section \<open>The cycle\<close>

record drain_state =
  dr_counters :: shared_counters
  dr_books :: subject_books
  dr_scratch :: drain_scratch
  dr_ring :: notify_ring
  dr_gate :: bool

definition advance_cursor :: "drain_read_result \<Rightarrow> shared_counters \<Rightarrow> shared_counters" where
  "advance_cursor r = set_cursor (case rr_lowest_skipped r of None \<Rightarrow> rr_end r - 1 | Some ls \<Rightarrow> ls - 1)"

definition close_window :: "drain_read_result \<Rightarrow> drain_read_result" where
  "close_window r =
    (if rr_end r \<le> rr_last_seq r \<or> rr_lowest_skipped r \<noteq> None then r\<lparr>rr_more_pending := True\<rparr> else r)"

definition reopen_if_pending :: "drain_read_result \<Rightarrow> bool \<Rightarrow> bool" where
  "reopen_if_pending r gate = (rr_more_pending r \<or> gate)"

definition drain_deliver ::
  "(u32 \<Rightarrow> u32 option) \<Rightarrow> (nat \<Rightarrow> frame \<Rightarrow> net_result) \<Rightarrow> (nat \<Rightarrow> u64) \<Rightarrow> drain_snapshot \<Rightarrow> u64 \<Rightarrow> drain_read_result \<Rightarrow>
   drain_state \<Rightarrow> drain_state option" where
  "drain_deliver wire net clock snap stall_evict_ms result d =
    (case acc_for_each wire (ds_acc (dr_scratch d)) of
       None \<Rightarrow> None
     | Some (frames, acc) \<Rightarrow>
       let results = flush (sn_writers snap) net frames;
           (r, s) = fold (note_outcome stall_evict_ms clock) (enumerate 0 results) (result, (dr_scratch d)\<lparr>ds_acc := acc\<rparr>);
           s1 = s\<lparr>ds_stalled := filter (keep_stalled results) (ds_stalled s)\<rparr>
       in case record_deliveries (ds_deliveries s1) results (dr_counters d, dr_books d) of
            None \<Rightarrow> None
          | Some (counters, books) \<Rightarrow>
            (case (if ds_deliveries s1 = [] then Some (dr_ring d)
                   else notify_delivered_grouped (sn_bindings snap) (ds_deliveries s1) results (dr_ring d)) of
               None \<Rightarrow> None
             | Some ring \<Rightarrow>
               let r1 = close_window r
               in Some \<lparr>dr_counters = advance_cursor r counters, dr_books = books, dr_scratch = s1\<lparr>ds_dead := []\<rparr>,
                    dr_ring = report_dead_connections (ds_dead s1) ring, dr_gate = reopen_if_pending r1 (dr_gate d)\<rparr>))"

text \<open>\<^verbatim>\<open>worker.rs\<close>: one turn of the drain loop, from the gate to the delivery.\<close>

definition cycle_now_ms :: "drain_config \<Rightarrow> u64 \<Rightarrow> u64" where
  "cycle_now_ms cfg wall = (if dc_max_age_ms cfg > 0 then wall else 0)"

definition drain_cycle ::
  "(bytes \<Rightarrow> u32) \<Rightarrow> (u64 \<Rightarrow> usize \<Rightarrow> bool) \<Rightarrow> ('s \<Rightarrow> store_info) \<Rightarrow> (u64 \<Rightarrow> u64 \<Rightarrow> 's \<Rightarrow> entry list option) \<Rightarrow>
   (u32 \<Rightarrow> u32 option) \<Rightarrow> (nat \<Rightarrow> frame \<Rightarrow> net_result) \<Rightarrow> (nat \<Rightarrow> u64) \<Rightarrow> drain_config \<Rightarrow> drain_snapshot \<Rightarrow> bool \<Rightarrow> u64 \<Rightarrow>
   drain_event list \<Rightarrow> 's \<Rightarrow> drain_state \<Rightarrow> drain_state option" where
  "drain_cycle hash failed info each wire net clock cfg snap snap_changed wall events store d =
    (let counters = snd (apply_rewind (dr_counters d));
         books = drain_event_ring events (dr_books d);
         d1 = d\<lparr>dr_counters := counters, dr_books := books, dr_gate := False\<rparr>
     in case drain_read hash failed info each counters snap store cfg books (cycle_now_ms cfg wall) snap_changed (dr_scratch d) of
          None \<Rightarrow> None
        | Some (Fed result, s) \<Rightarrow> drain_deliver wire net clock snap (dc_stall_evict_ms cfg) result (d1\<lparr>dr_scratch := s\<rparr>)
        | Some (_, s) \<Rightarrow> Some (d1\<lparr>dr_scratch := s\<rparr>))"

end
