(* ===== verification/Drain_Safety.thy ===== *)
theory Drain_Safety
  imports Drain_Cycle Memory_Contract "HOL-Library.Code_Target_Nat"
begin

text \<open>
  What a drain cycle guarantees.  The window is walked once, so the properties are invariants of the
  walk: each is shown for one candidate (\<open>dispatch_one\<close>) and carried through the entry and the
  window.
\<close>

section \<open>One candidate\<close>

text \<open>A candidate is passed over, held back, or handed the entry.\<close>

definition wire_form :: "entry \<Rightarrow> match_entry \<Rightarrow> active_binding \<Rightarrow> rep_batch_entry" where
  "wire_form e me b =
    (let (reply_to, payload) = split_reply (e_flags e) (strip_headers (e_flags e) (e_payload e)) in
     \<lparr>rb_consumer_id = me_consumer_id me, rb_seq = e_seq e, rb_subject_hash = ab_external_sub_id b,
      rb_subject = e_subject e, rb_reply_to = reply_to, rb_payload = payload\<rparr>)"

definition notice :: "entry \<Rightarrow> u32 \<Rightarrow> u32 \<Rightarrow> match_entry \<Rightarrow> pending_notify" where
  "notice e stream_id subject_hash me =
    \<lparr>pn_conn = me_connection_id me, pn_stream = stream_id, pn_binding_idx = binding_idx me, pn_seq = e_seq e,
     pn_subject_hash = subject_hash, pn_consumer_id = me_consumer_id me, pn_queue_id = me_queue_id me\<rparr>"

lemma seq_wire_form [simp]: "rb_seq (wire_form e me b) = e_seq e"
  by (simp add: wire_form_def split_beta Let_def)

lemma hand_off_eq:
  "hand_off e stream subject_hash collapsed me b s =
    map_option (\<lambda>acc. if ab_fire_and_forget b then s\<lparr>ds_acc := acc\<rparr>
        else open_pending (notice e stream subject_hash me) (s\<lparr>ds_acc := acc\<rparr>))
      (if collapsed then Some (ds_acc s)
       else acc_push (me_connection_id me) stream False (rb_consumer_id (wire_form e me b)) (rb_seq (wire_form e me b))
         (rb_subject_hash (wire_form e me b)) (rb_subject (wire_form e me b)) (rb_reply_to (wire_form e me b))
         (rb_payload (wire_form e me b)) (ds_acc s))"
  by (simp add: hand_off_def wire_form_def notice_def acc_add_def split_beta Let_def split: option.split)

definition eligible ::
  "(u64 \<Rightarrow> usize \<Rightarrow> bool) \<Rightarrow> shared_counters \<Rightarrow> entry \<Rightarrow> u32 \<Rightarrow> u32 option \<Rightarrow> subject_books \<Rightarrow> active_binding list \<Rightarrow>
   match_entry \<Rightarrow> u32 list \<Rightarrow> drain_scratch \<Rightarrow> bool" where
  "eligible failed counters e subject_hash subject_limit books bs me served s \<longleftrightarrow>
     me_connection_id me \<noteq> 0 \<and> \<not> suppressed_for books (me_consumer_id me) (e_seq e) \<and>
     (me_queue_id me \<noteq> 0 \<longrightarrow> me_queue_id me \<notin> set served) \<and> me_connection_id me \<notin> set (ds_dead s) \<and>
     binding_idx me < length bs \<and> ab_deliver_floor (bs ! binding_idx me) < e_seq e \<and>
     \<not> failed (e_seq e) (binding_idx me) \<and>
     held_back counters books subject_limit subject_hash (me_consumer_id me) (bs ! binding_idx me) s = Some False"

lemma dispatch_bound_cases:
  assumes "dispatch_bound failed counters e stream subject_hash subject_limit books me b collapsed (served, w) = Some (served', w')"
  obtains (passed) "served' = served" "w' = w"
  | (held) "served' = served" "w' = skip_owed (e_seq e) w"
  | (handed) s1 stamps where
      "ab_deliver_floor b < e_seq e" "\<not> failed (e_seq e) (binding_idx me)"
      "held_back counters books subject_limit subject_hash (me_consumer_id me) b (wk_scratch w) = Some False"
      "hand_off e stream subject_hash collapsed me b (wk_scratch w) = Some s1"
      "served' = (if me_queue_id me \<noteq> 0 then served @ [me_queue_id me] else served)"
      "w' = w\<lparr>wk_scratch := s1\<lparr>ds_fanout_stamp := stamps\<rparr>\<rparr>"
proof (cases "(collapsed \<and> ab_fire_and_forget b) \<or> e_seq e \<le> ab_deliver_floor b \<or> failed (e_seq e) (binding_idx me)")
  case True
  then show ?thesis using assms by (intro passed) (auto simp: dispatch_bound_def Let_def split: if_splits)
next
  case n: False
  then obtain h where h: "held_back counters books subject_limit subject_hash (me_consumer_id me) b (wk_scratch w) = Some h"
    using assms by (cases "held_back counters books subject_limit subject_hash (me_consumer_id me) b (wk_scratch w)")
      (auto simp: dispatch_bound_def Let_def)
  show ?thesis
  proof (cases h)
    case True
    then show ?thesis using assms n h by (intro held) (auto simp: dispatch_bound_def Let_def)
  next
    case False
    then obtain s1 where s1: "hand_off e stream subject_hash collapsed me b (wk_scratch w) = Some s1"
      using assms n h by (cases "hand_off e stream subject_hash collapsed me b (wk_scratch w)") (auto simp: dispatch_bound_def Let_def)
    show ?thesis
    proof (rule handed [OF _ _ _ s1, of "if me_queue_id me \<noteq> 0 then ds_fanout_stamp s1
        else (ds_fanout_stamp s1)[ab_group_idx b := ds_fanout_gen s1]"])
    qed (use assms n h False s1 in \<open>auto simp: dispatch_bound_def Let_def split: if_splits\<close>)
  qed
qed

lemma dispatch_one_cases:
  assumes "dispatch_one failed counters e stream subject_hash subject_limit books bs me (served, w) = Some (served', w')"
  obtains (passed) "served' = served" "w' = w"
  | (held) "served' = served" "w' = skip_owed (e_seq e) w"
  | (handed) collapsed s1 stamps where
      "eligible failed counters e subject_hash subject_limit books bs me served (wk_scratch w)"
      "hand_off e stream subject_hash collapsed me (bs ! binding_idx me) (wk_scratch w) = Some s1"
      "served' = (if me_queue_id me \<noteq> 0 then served @ [me_queue_id me] else served)"
      "w' = w\<lparr>wk_scratch := s1\<lparr>ds_fanout_stamp := stamps\<rparr>\<rparr>"
proof (cases "me_connection_id me = 0 \<or> suppressed_for books (me_consumer_id me) (e_seq e) \<or>
    (me_queue_id me \<noteq> 0 \<and> me_queue_id me \<in> set served) \<or> me_connection_id me \<in> set (ds_dead (wk_scratch w)) \<or>
    binding_idx me = binding_idx_unbound \<or> binding_idx me \<ge> length bs")
  case True
  then show ?thesis using assms by (intro passed) (auto simp: dispatch_one_def Let_def split: if_splits)
next
  case g: False
  then obtain collapsed where
    "dispatch_bound failed counters e stream subject_hash subject_limit books me (bs ! binding_idx me) collapsed (served, w) = Some (served', w')"
    using assms by (auto simp: dispatch_one_def Let_def split: if_splits option.splits)
  then show ?thesis
  proof (cases rule: dispatch_bound_cases)
    case (handed s1 stamps)
    then show ?thesis using g that(3) by (auto simp: eligible_def)
  qed (use that in auto)
qed

section \<open>Carrying an invariant through the walk\<close>

lemma ofold_inv:
  assumes "ofold f xs s = Some s'" "I s" "\<And>x s s'. x \<in> set xs \<Longrightarrow> I s \<Longrightarrow> f x s = Some s' \<Longrightarrow> I s'"
  shows "I s'"
  using assms
proof (induction xs arbitrary: s)
  case (Cons x xs)
  then obtain s1 where "f x s = Some s1" "ofold f xs s1 = Some s'" by (auto split: option.splits)
  then show ?case using Cons.IH [of s1] Cons.prems by (meson list.set_intros)
qed simp

text \<open>
  \<open>J\<close> holds before an entry, \<open>I\<close> between its candidates, with the queues served so far, and \<open>K\<close>
  after it; none looks at the caches or the fan-out stamps.
\<close>

lemma dispatch_recipients_inv:
  assumes "dispatch_recipients failed counters e stream h limit books bs ms w = Some w'" "J w"
    and enter: "\<And>w gen stamps. J w \<Longrightarrow> I [] (w\<lparr>wk_scratch := (wk_scratch w)\<lparr>ds_fanout_gen := gen, ds_fanout_stamp := stamps\<rparr>\<rparr>)"
    and one: "\<And>me served w served' w'. I served w \<Longrightarrow>
      dispatch_one failed counters e stream h limit books bs me (served, w) = Some (served', w') \<Longrightarrow> I served' w'"
    and leave: "\<And>served w. I served w \<Longrightarrow> K w"
  shows "K w'"
proof -
  define w1 where "w1 = w\<lparr>wk_scratch := (wk_scratch w)\<lparr>ds_fanout_gen := ds_fanout_gen (wk_scratch w) + 1,
    ds_fanout_stamp := ds_fanout_stamp (wk_scratch w) @ replicate (length bs - length (ds_fanout_stamp (wk_scratch w))) 0\<rparr>\<rparr>"
  have w1: "I [] w1" using enter [OF assms(2)] by (simp add: w1_def)
  show ?thesis
  proof (cases "ms = []")
    case True
    then show ?thesis using assms(1) leave [OF w1] by (simp add: dispatch_recipients_def Let_def w1_def)
  next
    case False
    then obtain served where "ofold (dispatch_one failed counters e stream h limit books bs)
        (rotated (e_seq e mod length ms) ms) ([], w1) = Some (served, w')"
      using assms(1) by (auto simp: dispatch_recipients_def Let_def w1_def)
    then have "(\<lambda>(served, w). I served w) (served, w')"
      by (rule ofold_inv [where I = "\<lambda>(served, w). I served w"]) (use w1 one in auto)
    then show ?thesis using leave by simp
  qed
qed

lemma process_drain_entry_cases:
  assumes "process_drain_entry hash failed counters snap books now age e w = Some w'"
  shows "w' = w \<or> (\<exists>birth mt. route_entry hash failed counters snap books birth mt e w = Some w')"
proof (cases "sh_has_demand counters (e_stream_id e) = Some True")
  case True
  then show ?thesis
    using assms by (cases "vec_or (sn_match_tables snap) (e_stream_id e) None")
      (auto simp: process_drain_entry_def Let_def split: if_split_asm)
next
  case False
  then show ?thesis
    using assms by (cases "sh_has_demand counters (e_stream_id e)")
      (auto simp: process_drain_entry_def Let_def split: if_split_asm)
qed

lemma route_entry_cases:
  assumes "route_entry hash failed counters snap books birth mt e w = Some w'"
  obtains (unmatched) ca where "w' = w\<lparr>wk_scratch := (wk_scratch w)\<lparr>ds_caches := ca\<rparr>\<rparr>"
  | (dispatched) ca limit ms where
      "dispatch_recipients failed counters e (e_stream_id e) (hash (e_subject e)) limit books (sn_bindings snap) ms
        (w\<lparr>wk_scratch := (wk_scratch w)\<lparr>ds_caches := ca\<rparr>\<rparr>) = Some w'"
proof -
  obtain ms ca0 where m: "resolve_matches (e_stream_id e) birth (hash (e_subject e)) (e_subject e) mt (ds_caches (wk_scratch w)) = Some (ms, ca0)"
    using assms by (cases "resolve_matches (e_stream_id e) birth (hash (e_subject e)) (e_subject e) mt (ds_caches (wk_scratch w))")
      (auto simp: route_entry_def Let_def)
  obtain limit ca where l: "(if has_subject_limits mt
      then resolve_limit (e_stream_id e) birth (hash (e_subject e)) (e_subject e) mt ca0 else Some (None, ca0)) = Some (limit, ca)"
    using assms m by (cases "if has_subject_limits mt
      then resolve_limit (e_stream_id e) birth (hash (e_subject e)) (e_subject e) mt ca0 else Some (None, ca0)")
      (auto simp: route_entry_def Let_def)
  show ?thesis
  proof (cases "ms = []")
    case True
    show ?thesis by (rule that(1) [of ca]) (use assms m l True in \<open>simp add: route_entry_def Let_def\<close>)
  next
    case False
    show ?thesis by (rule that(2) [of limit ms ca]) (use assms m l False in \<open>simp add: route_entry_def Let_def\<close>)
  qed
qed

lemma process_drain_entry_inv:
  assumes "process_drain_entry hash failed counters snap books now age e w = Some w'" "J w"
    and enter: "\<And>w gen stamps. J w \<Longrightarrow> I [] (w\<lparr>wk_scratch := (wk_scratch w)\<lparr>ds_fanout_gen := gen, ds_fanout_stamp := stamps\<rparr>\<rparr>)"
    and caches: "\<And>w ca. J w \<Longrightarrow> J (w\<lparr>wk_scratch := (wk_scratch w)\<lparr>ds_caches := ca\<rparr>\<rparr>)"
    and one: "\<And>stream h limit me served w served' w'. I served w \<Longrightarrow>
      dispatch_one failed counters e stream h limit books (sn_bindings snap) me (served, w) = Some (served', w') \<Longrightarrow> I served' w'"
    and leave: "\<And>served w. I served w \<Longrightarrow> K w" and after: "\<And>w. J w \<Longrightarrow> K w"
  shows "K w'"
  using process_drain_entry_cases [OF assms(1)]
proof (elim disjE exE)
  fix birth mt assume "route_entry hash failed counters snap books birth mt e w = Some w'"
  then show ?thesis
  proof (cases rule: route_entry_cases)
    case (unmatched ca)
    then show ?thesis using after [OF caches [OF assms(2)]] by simp
  next
    case (dispatched ca limit ms)
    then show ?thesis
      by (rule dispatch_recipients_inv [where I = I and J = J]) (fact caches [OF assms(2)], fact enter, fact one, fact leave)
  qed
qed (use assms(2) after in simp)

section \<open>The cursor and the frames\<close>

text \<open>
  Between two entries: a held-back entry is always recorded, the lowest one is not above the entry
  the walk is at, and every bucket holds ascending numbers between the start of the window and that
  entry.
\<close>

definition grouped_ok :: "u64 \<Rightarrow> u64 \<Rightarrow> grouping \<Rightarrow> bool" where
  "grouped_ok lo q m \<longleftrightarrow>
     (\<forall>(k, es) \<in> set m. sorted (map rb_seq es) \<and> (\<forall>x \<in> set es. lo \<le> rb_seq x \<and> rb_seq x \<le> q))"

definition walk_ok :: "u64 \<Rightarrow> u64 \<Rightarrow> walk \<Rightarrow> bool" where
  "walk_ok lo q w \<longleftrightarrow> (wk_more_pending w \<longleftrightarrow> wk_lowest_skipped w \<noteq> None) \<and>
     (\<forall>l. wk_lowest_skipped w = Some l \<longrightarrow> lo \<le> l \<and> l \<le> q) \<and>
     (\<exists>m. acc_rep (ds_acc (wk_scratch w)) m \<and> grouped_ok lo q m)"

lemma grouped_ok_mono: "grouped_ok lo q m \<Longrightarrow> q \<le> q' \<Longrightarrow> grouped_ok lo q' m"
  by (fastforce simp: grouped_ok_def)

lemma walk_ok_mono: "walk_ok lo q w \<Longrightarrow> q \<le> q' \<Longrightarrow> walk_ok lo q' w"
  using grouped_ok_mono by (fastforce simp: walk_ok_def)

lemma hm_insert_subset: "set (hm_insert k v m) \<subseteq> insert (k, v) (set m)"
  unfolding hm_insert_def by (induction m) auto

lemma get_or_cases: "get_or m k d = d \<or> (k, get_or m k d) \<in> set m"
  by (auto simp: get_or_def hm_get_def dest: map_of_SomeD split: option.splits)

lemma grouped_ok_put:
  assumes "grouped_ok lo q m" "lo \<le> rb_seq e" "rb_seq e = q"
  shows "grouped_ok lo q (put (k, e) m)"
proof -
  have "sorted (map rb_seq (get_or m k [])) \<and> (\<forall>x \<in> set (get_or m k []). lo \<le> rb_seq x \<and> rb_seq x \<le> q)"
    using get_or_cases [of m k "[]"] assms(1) by (auto simp: grouped_ok_def)
  then have "sorted (map rb_seq (get_or m k [] @ [e])) \<and> (\<forall>x \<in> set (get_or m k [] @ [e]). lo \<le> rb_seq x \<and> rb_seq x \<le> q)"
    using assms(2,3) by (auto simp: sorted_append)
  then show ?thesis
    using hm_insert_subset [of k "get_or m k [] @ [e]" m] assms(1) by (fastforce simp: grouped_ok_def put_def)
qed

lemma walk_ok_skip: "walk_ok lo q w \<Longrightarrow> lo \<le> q \<Longrightarrow> walk_ok lo q (skip_owed q w)"
  by (auto simp: walk_ok_def skip_owed_def track_skipped_def split: option.split)

lemma hand_off_acc:
  assumes "hand_off e stream h collapsed me b s = Some s1" "acc_rep (ds_acc s) m" "grouped_ok lo (e_seq e) m" "lo \<le> e_seq e"
  shows "\<exists>m'. acc_rep (ds_acc s1) m' \<and> grouped_ok lo (e_seq e) m'"
proof -
  obtain acc where acc: "(if collapsed then Some (ds_acc s)
       else acc_push (me_connection_id me) stream False (rb_consumer_id (wire_form e me b)) (rb_seq (wire_form e me b))
         (rb_subject_hash (wire_form e me b)) (rb_subject (wire_form e me b)) (rb_reply_to (wire_form e me b))
         (rb_payload (wire_form e me b)) (ds_acc s)) = Some acc" and s1: "ds_acc s1 = acc"
    using assms(1) by (auto simp: hand_off_eq open_pending_def)
  show ?thesis
  proof (cases collapsed)
    case True
    then show ?thesis using acc s1 assms(2,3) by auto
  next
    case False
    then have "acc_rep acc (put ((me_connection_id me, stream, False), wire_form e me b) m)"
      using acc acc_push_ok [OF assms(2), of "me_connection_id me" stream False "wire_form e me b"] by auto
    then show ?thesis using s1 grouped_ok_put [OF assms(3)] assms(4) by auto
  qed
qed

lemma walk_ok_one:
  assumes "dispatch_one failed counters e stream h limit books bs me (served, w) = Some (served', w')"
    "walk_ok lo (e_seq e) w" "lo \<le> e_seq e"
  shows "walk_ok lo (e_seq e) w'"
  using assms(1)
proof (cases rule: dispatch_one_cases)
  case (handed collapsed s1 stamps)
  obtain m where "acc_rep (ds_acc (wk_scratch w)) m" "grouped_ok lo (e_seq e) m"
    using assms(2) by (auto simp: walk_ok_def)
  then show ?thesis using hand_off_acc [OF handed(2) _ _ assms(3)] assms(2) handed(4) by (auto simp: walk_ok_def)
qed (use assms walk_ok_skip in auto)

lemma walk_ok_entry:
  assumes "process_drain_entry hash failed counters snap books now age e w = Some w'" "walk_ok lo (e_seq e) w" "lo \<le> e_seq e"
  shows "walk_ok lo (e_seq e) w'"
proof (rule process_drain_entry_inv [where J = "walk_ok lo (e_seq e)" and I = "\<lambda>_. walk_ok lo (e_seq e)" and K = "walk_ok lo (e_seq e)", OF assms(1,2)])
  fix stream h limit me served w served' w'
  assume "walk_ok lo (e_seq e) w"
    "dispatch_one failed counters e stream h limit books (sn_bindings snap) me (served, w) = Some (served', w')"
  then show "walk_ok lo (e_seq e) w'" using walk_ok_one assms(3) by blast
qed (simp_all add: walk_ok_def)

lemma walk_ok_window:
  assumes "ofold (\<lambda>e. process_drain_entry hash failed counters snap books now (age e) e) es w = Some w'"
    "walk_ok lo q w" "\<forall>e \<in> set es. lo \<le> e_seq e \<and> q \<le> e_seq e" "sorted_wrt (\<lambda>a b. e_seq a < e_seq b) es"
  shows "walk_ok lo (if es = [] then q else e_seq (last es)) w'"
  using assms
proof (induction es arbitrary: w q)
  case (Cons e es)
  obtain w1 where w1: "process_drain_entry hash failed counters snap books now (age e) e w = Some w1"
      "ofold (\<lambda>e. process_drain_entry hash failed counters snap books now (age e) e) es w1 = Some w'"
    using Cons.prems(1) by (auto split: option.splits)
  have "walk_ok lo (e_seq e) w1"
    using walk_ok_entry [OF w1(1) walk_ok_mono [OF Cons.prems(2)]] Cons.prems(3) by simp
  moreover have "\<forall>x \<in> set es. lo \<le> e_seq x \<and> e_seq e \<le> e_seq x"
    using Cons.prems(3,4) by (simp add: less_imp_le)
  ultimately have "walk_ok lo (if es = [] then e_seq e else e_seq (last es)) w'"
    using Cons.IH [OF w1(2)] Cons.prems(4) by simp
  then show ?case by (cases es) simp_all
qed simp

text \<open>The lowest number held back only goes down.\<close>

definition skipped_to :: "u64 \<Rightarrow> u64 option \<Rightarrow> bool" where
  "skipped_to l lowest \<longleftrightarrow> (\<exists>l' \<le> l. lowest = Some l')"

lemma skipped_to_track [simp]: "skipped_to l lowest \<Longrightarrow> skipped_to l (track_skipped q lowest)"
  by (auto simp: skipped_to_def track_skipped_def min.coboundedI1)

lemma skipped_to_tracked [simp]: "skipped_to q (track_skipped q lowest)"
  by (auto simp: skipped_to_def track_skipped_def split: option.split)

lemma lowest_entry:
  assumes "process_drain_entry hash failed counters snap books now age e w = Some w'" "skipped_to l (wk_lowest_skipped w)"
  shows "skipped_to l (wk_lowest_skipped w')"
proof (rule process_drain_entry_inv [where J = "\<lambda>w. skipped_to l (wk_lowest_skipped w)"
      and I = "\<lambda>_ w. skipped_to l (wk_lowest_skipped w)" and K = "\<lambda>w. skipped_to l (wk_lowest_skipped w)", OF assms(1,2)])
  fix stream h limit me served w served' and w' :: walk
  assume s: "skipped_to l (wk_lowest_skipped (w :: walk))"
  assume "dispatch_one failed counters e stream h limit books (sn_bindings snap) me (served, w) = Some (served', w')"
  then show "skipped_to l (wk_lowest_skipped w')"
    by (cases rule: dispatch_one_cases) (use s in \<open>auto simp: skip_owed_def\<close>)
qed simp_all

lemma lowest_window:
  assumes "ofold (\<lambda>e. process_drain_entry hash failed counters snap books now (age e) e) es w = Some w'"
    "skipped_to l (wk_lowest_skipped w)"
  shows "skipped_to l (wk_lowest_skipped w')"
  by (rule ofold_inv [where I = "\<lambda>w. skipped_to l (wk_lowest_skipped w)", OF assms]) (rule lowest_entry)

text \<open>An outcome that is not a success names the first number of its frame.\<close>

fun unsent :: "flush_outcome \<Rightarrow> u64 option" where
  "unsent FlushOk = None"
| "unsent (Backpressured q) = Some q"
| "unsent (WriterGone q) = Some q"

lemma length_flush_frames [simp]: "length (flush_frames writers net n prev fs) = length fs"
  by (induction fs arbitrary: n prev) (simp_all add: Let_def)

lemma flush_frames_nth:
  assumes "i < length fs"
  shows "fst (flush_frames writers net n prev fs ! i) = fr_connection_id (fs ! i) \<and>
    (snd (flush_frames writers net n prev fs ! i) \<noteq> FlushOk \<longrightarrow>
     unsent (snd (flush_frames writers net n prev fs ! i)) = Some (fr_first_seq (fs ! i)))"
  using assms
proof (induction fs arbitrary: n prev i)
  case (Cons f fs)
  then show ?case
    by (cases i) (auto simp: Let_def split: net_result.splits if_splits)
qed simp

definition note_unsent :: "u64 \<times> flush_outcome \<Rightarrow> drain_read_result \<Rightarrow> drain_read_result" where
  "note_unsent x r = (case unsent (snd x) of None \<Rightarrow> r | Some q \<Rightarrow> result_skipped q r)"

lemma note_outcome_result: "fst (note_outcome stall clock (n, x) st) = note_unsent x (fst st)"
  by (cases x; cases st; cases "snd x") (simp_all add: note_outcome_def note_unsent_def)

lemma note_outcomes_result:
  "fst (fold (note_outcome stall clock) (enumerate n results) st) = fold note_unsent results (fst st)"
  by (induction results arbitrary: n st) (simp_all add: note_outcome_result)

lemma note_unsent_same: "rr_end (fold note_unsent results r) = rr_end r \<and> rr_last_seq (fold note_unsent results r) = rr_last_seq r"
  by (induction results arbitrary: r) (simp_all add: note_unsent_def result_skipped_def split: option.split)

lemma note_unsent_more:
  "(rr_more_pending r \<longleftrightarrow> rr_lowest_skipped r \<noteq> None) \<Longrightarrow>
   rr_more_pending (fold note_unsent results r) \<longleftrightarrow> rr_lowest_skipped (fold note_unsent results r) \<noteq> None"
proof (induction results arbitrary: r)
  case (Cons x results)
  have "rr_more_pending (note_unsent x r) \<longleftrightarrow> rr_lowest_skipped (note_unsent x r) \<noteq> None"
    using Cons.prems by (auto simp: note_unsent_def result_skipped_def track_skipped_def split: option.split)
  then show ?case using Cons.IH by simp
qed simp

lemma note_unsent_lowest:
  "skipped_to l (rr_lowest_skipped r) \<Longrightarrow> skipped_to l (rr_lowest_skipped (fold note_unsent results r))"
  by (induction results arbitrary: r) (simp_all add: note_unsent_def result_skipped_def split: option.split)

lemma note_unsent_covers:
  "(c, oc) \<in> set results \<Longrightarrow> unsent oc = Some q \<Longrightarrow> skipped_to q (rr_lowest_skipped (fold note_unsent results r))"
proof (induction results arbitrary: r)
  case (Cons x results)
  show ?case
  proof (cases "x = (c, oc)")
    case True
    then have "skipped_to q (rr_lowest_skipped (note_unsent x r))"
      using Cons.prems by (simp add: note_unsent_def result_skipped_def)
    then show ?thesis using note_unsent_lowest by simp
  qed (use Cons in auto)
qed simp

text \<open>What \<open>drain_deliver\<close> does to the cursor and the gate.\<close>

lemma drain_deliver_cursor:
  assumes "drain_deliver wire net clock snap stall r d = Some d'" "acc_for_each wire (ds_acc (dr_scratch d)) = Some (frames, acc)"
  defines "r' \<equiv> fold note_unsent (flush (sn_writers snap) net frames) r"
  shows "sh_cursor (dr_counters d') = (case rr_lowest_skipped r' of None \<Rightarrow> rr_end r - 1 | Some ls \<Rightarrow> ls - 1)"
    "dr_gate d' = (rr_more_pending (close_window r') \<or> dr_gate d)"
proof -
  define f where "f = fold (note_outcome stall clock) (enumerate 0 (flush (sn_writers snap) net frames)) (r, (dr_scratch d)\<lparr>ds_acc := acc\<rparr>)"
  have f: "fst f = r'" by (simp add: f_def r'_def note_outcomes_result)
  have e: "rr_end r' = rr_end r" by (simp add: r'_def note_unsent_same)
  have "sh_cursor (dr_counters d') = (case rr_lowest_skipped (fst f) of None \<Rightarrow> rr_end (fst f) - 1 | Some ls \<Rightarrow> ls - 1) \<and>
      dr_gate d' = (rr_more_pending (close_window (fst f)) \<or> dr_gate d)"
    using assms(1,2) unfolding drain_deliver_def f_def [symmetric]
    by (auto simp: Let_def split_beta advance_cursor_def set_cursor_def reopen_if_pending_def f_def [symmetric] split: option.splits if_splits)
  then show "sh_cursor (dr_counters d') = (case rr_lowest_skipped r' of None \<Rightarrow> rr_end r - 1 | Some ls \<Rightarrow> ls - 1)"
    "dr_gate d' = (rr_more_pending (close_window r') \<or> dr_gate d)" unfolding f e by blast+
qed

section \<open>The journal the drain reads\<close>

locale ordered_source =
  fixes ok :: "'s \<Rightarrow> bool" and content :: "'s \<Rightarrow> entry list" and each :: "u64 \<Rightarrow> u64 \<Rightarrow> 's \<Rightarrow> entry list option"
  assumes source_ordered: "ok s \<Longrightarrow> sorted_wrt (\<lambda>a b. e_seq a < e_seq b) (content s)"
    and source_each: "ok s \<Longrightarrow> each a b s = Some (filter (\<lambda>e. a \<le> e_seq e \<and> e_seq e < b) (content s))"
begin

lemma window:
  assumes "ok s" "each a b s = Some es"
  shows "sorted_wrt (\<lambda>a b. e_seq a < e_seq b) es" "\<forall>e \<in> set es. a \<le> e_seq e \<and> e_seq e < b"
  using source_ordered [OF assms(1)] source_each [OF assms(1), of a b] assms(2) by (auto simp: sorted_wrt_filter)

text \<open>What a read that feeds leaves for the delivery.\<close>

lemma read_fed:
  assumes "ok store" "drain_read hash failed info each counters snap store cfg books now changed s = Some (Fed r, s1)"
  obtains es w where "each (sh_cursor counters + 1) (rr_end r) store = Some es"
    "drain_walk hash failed counters snap cfg books now es (scratch_reset changed s) = Some w" "s1 = wk_scratch w"
    "rr_more_pending r = wk_more_pending w" "rr_lowest_skipped r = wk_lowest_skipped w"
    "rr_last_seq r = si_last_seq (info store)" "rr_end r \<le> si_last_seq (info store) + 1" "sh_cursor counters < rr_last_seq r"
  using assms(2) by (auto simp: drain_read_def Let_def split: if_split_asm option.split_asm)

lemma walk_fed:
  assumes "ok store" "each (sh_cursor counters + 1) stop store = Some es"
    "drain_walk hash failed counters snap cfg books now es (scratch_reset changed s) = Some w"
  shows "walk_ok (sh_cursor counters + 1) (if es = [] then sh_cursor counters + 1 else e_seq (last es)) w"
proof (rule walk_ok_window [OF assms(3) [unfolded drain_walk_def]])
  show "walk_ok (sh_cursor counters + 1) (sh_cursor counters + 1)
      \<lparr>wk_scratch = scratch_reset changed s, wk_more_pending = False, wk_lowest_skipped = None\<rparr>"
    using acc_rep_clear by (auto simp: walk_ok_def grouped_ok_def scratch_reset_def intro!: exI [of _ "[]"])
qed (use window [OF assms(1,2)] in auto)

lemma held_beyond_cursor:
  assumes "ok store" "each (sh_cursor counters + 1) stop store = Some (pre @ e # post)"
    "drain_walk hash failed counters snap cfg books now (pre @ e # post) (scratch_reset changed s) = Some w"
    "drain_walk hash failed counters snap cfg books now (pre @ [e]) (scratch_reset changed s) = Some we" "wk_more_pending we"
  shows "skipped_to (e_seq e) (wk_lowest_skipped w)"
proof -
  have win: "sorted_wrt (\<lambda>a b. e_seq a < e_seq b) (pre @ [e])" "\<forall>x \<in> set (pre @ [e]). sh_cursor counters + 1 \<le> e_seq x"
    using window [OF assms(1,2)] by (auto simp: sorted_wrt_append)
  have "walk_ok (sh_cursor counters + 1) (if pre @ [e] = [] then sh_cursor counters + 1 else e_seq (last (pre @ [e]))) we"
    by (rule walk_ok_window [OF assms(4) [unfolded drain_walk_def]])
      (use win acc_rep_clear in \<open>auto simp: walk_ok_def grouped_ok_def scratch_reset_def intro!: exI [of _ "[]"]\<close>)
  then have low: "skipped_to (e_seq e) (wk_lowest_skipped we)"
    using assms(5) by (auto simp: walk_ok_def skipped_to_def)
  have "ofold (\<lambda>e. process_drain_entry hash failed counters snap books now (stream_max_age snap cfg (e_stream_id e)) e) post we = Some w"
    using assms(3,4) by (simp add: drain_walk_def ofold_append split: option.splits)
  then show ?thesis using low by (rule lowest_window)
qed

lemma cursor_below:
  assumes "skipped_to q (rr_lowest_skipped (fold note_unsent (flush (sn_writers snap) net frames) r))" "0 < q"
    "drain_deliver wire net clock snap stall r d = Some d'" "acc_for_each wire (ds_acc (dr_scratch d)) = Some (frames, acc)"
  shows "sh_cursor (dr_counters d') < q"
  using drain_deliver_cursor(1) [OF assms(3,4)] assms(1,2) by (auto simp: skipped_to_def)

lemma frames_fed:
  assumes "walk_ok lo q w" "acc_for_each wire (ds_acc (wk_scratch w)) = Some (frames, acc)" "n < length frames"
  obtains k ents where "frames ! n = frame_of wire (k, ents)" "\<forall>x \<in> set ents. fr_first_seq (frames ! n) \<le> rb_seq x"
    "lo \<le> fr_first_seq (frames ! n)"
proof -
  obtain m where m: "acc_rep (ds_acc (wk_scratch w)) m" "grouped_ok lo q m" using assms(1) by (auto simp: walk_ok_def)
  have fr: "frames = map (frame_of wire) m" using acc_for_each_ok [OF m(1), of wire] assms(2) by auto
  obtain k ents where k: "m ! n = (k, ents)" by (cases "m ! n")
  have mem: "(k, ents) \<in> set m" using assms(3) fr k by (metis length_map nth_mem)
  then have ord: "sorted (map rb_seq ents)" "\<forall>x \<in> set ents. lo \<le> rb_seq x" using m(2) by (auto simp: grouped_ok_def)
  have ne: "ents \<noteq> []"
    using m(1) mem unfolding acc_rep_def by (auto simp: list_all2_conv_all_nth holds_def in_set_conv_nth split_beta)
  have "frames ! n = frame_of wire (k, ents)" using fr k assms(3) by simp
  moreover have "fr_first_seq (frame_of wire (k, ents)) = rb_seq (hd ents)" by (simp add: frame_of_def Let_def split_beta)
  moreover have "\<forall>x \<in> set ents. rb_seq (hd ents) \<le> rb_seq x" using ord(1) by (cases ents) auto
  moreover have "lo \<le> rb_seq (hd ents)" using ord(2) ne by simp
  ultimately show ?thesis using that by metis
qed

lemma unsent_beyond_cursor:
  assumes "walk_ok lo q w" "0 < lo" "drain_deliver wire net clock snap stall r d = Some d'" "dr_scratch d = wk_scratch w"
    "acc_for_each wire (ds_acc (wk_scratch w)) = Some (frames, acc)" "n < length frames"
    "snd (flush (sn_writers snap) net frames ! n) \<noteq> FlushOk"
  shows "\<exists>k ents. frames ! n = frame_of wire (k, ents) \<and> (\<forall>x \<in> set ents. sh_cursor (dr_counters d') < rb_seq x)"
proof -
  obtain k ents where k: "frames ! n = frame_of wire (k, ents)" "\<forall>x \<in> set ents. fr_first_seq (frames ! n) \<le> rb_seq x"
    "lo \<le> fr_first_seq (frames ! n)"
    by (rule frames_fed [OF assms(1,5,6)])
  have "flush (sn_writers snap) net frames ! n \<in> set (flush (sn_writers snap) net frames)"
    using assms(6) by (simp add: flush_def)
  then have "skipped_to (fr_first_seq (frames ! n)) (rr_lowest_skipped (fold note_unsent (flush (sn_writers snap) net frames) r))"
    using flush_frames_nth [OF assms(6)] assms(7) unfolding flush_def by (metis note_unsent_covers prod.collapse)
  then have "sh_cursor (dr_counters d') < fr_first_seq (frames ! n)"
    using k(3) assms(2) by (intro cursor_below [OF _ _ assms(3)]) (auto simp: assms(4,5))
  then show ?thesis using k by (intro exI [of _ k] exI [of _ ents]) auto
qed

lemma drain_safe:
  assumes store: "ok store"
    and read: "drain_read hash failed info each counters snap store cfg books now changed s = Some (Fed r, s1)"
    and deliver: "drain_deliver wire net clock snap stall r d = Some d'" and scratch: "dr_scratch d = s1"
  shows "\<exists>es frames acc. each (sh_cursor counters + 1) (rr_end r) store = Some es \<and>
    acc_for_each wire (ds_acc s1) = Some (frames, acc) \<and>
    (\<forall>pre e post we. es = pre @ e # post \<and>
       drain_walk hash failed counters snap cfg books now (pre @ [e]) (scratch_reset changed s) = Some we \<and> wk_more_pending we \<longrightarrow>
       sh_cursor (dr_counters d') < e_seq e) \<and>
    (\<forall>n < length frames. snd (flush (sn_writers snap) net frames ! n) \<noteq> FlushOk \<longrightarrow>
       (\<exists>k ents. frames ! n = frame_of wire (k, ents) \<and> (\<forall>x \<in> set ents. sh_cursor (dr_counters d') < rb_seq x))) \<and>
    (sh_cursor (dr_counters d') < si_last_seq (info store) \<longrightarrow> dr_gate d')"
proof -
  obtain es w where es: "each (sh_cursor counters + 1) (rr_end r) store = Some es"
    and w: "drain_walk hash failed counters snap cfg books now es (scratch_reset changed s) = Some w" "s1 = wk_scratch w"
    and r: "rr_more_pending r = wk_more_pending w" "rr_lowest_skipped r = wk_lowest_skipped w"
      "rr_last_seq r = si_last_seq (info store)" "rr_end r \<le> si_last_seq (info store) + 1"
    by (rule read_fed [OF store read])
  have ok: "walk_ok (sh_cursor counters + 1) (if es = [] then sh_cursor counters + 1 else e_seq (last es)) w"
    by (rule walk_fed [OF store es w(1)])
  obtain frames acc where fr: "acc_for_each wire (ds_acc s1) = Some (frames, acc)"
    using deliver scratch by (auto simp: drain_deliver_def split: option.splits)
  define r' where "r' = fold note_unsent (flush (sn_writers snap) net frames) r"
  have below: "sh_cursor (dr_counters d') < q" if "skipped_to q (rr_lowest_skipped r')" "0 < q" for q
    by (rule cursor_below [OF that(1) [unfolded r'_def] that(2) deliver]) (use fr scratch in simp)
  have one: "sh_cursor (dr_counters d') < e_seq e" if q: "es = pre @ e # post"
      "drain_walk hash failed counters snap cfg books now (pre @ [e]) (scratch_reset changed s) = Some we" "wk_more_pending we"
    for pre e post we
    using held_beyond_cursor [OF store es [unfolded q(1)] w(1) [unfolded q(1)] q(2,3)] window(2) [OF store es]
    by (intro below) (auto simp: r'_def r(2) q(1) intro: note_unsent_lowest)
  have two: "\<exists>k ents. frames ! n = frame_of wire (k, ents) \<and> (\<forall>x \<in> set ents. sh_cursor (dr_counters d') < rb_seq x)"
    if n: "n < length frames" "snd (flush (sn_writers snap) net frames ! n) \<noteq> FlushOk" for n
    by (rule unsent_beyond_cursor [OF ok _ deliver]) (use fr n w(2) scratch in auto)
  have "rr_end r' = rr_end r" "rr_last_seq r' = rr_last_seq r" by (simp_all add: r'_def note_unsent_same)
  then have "dr_gate d'" if "sh_cursor (dr_counters d') < si_last_seq (info store)"
    using drain_deliver_cursor [OF deliver, of frames acc] fr scratch that r(3)
    by (auto simp: close_window_def r'_def [symmetric] split: option.splits)
  then show ?thesis using es fr one two by blast
qed

end

sublocale journal_contract \<subseteq> source: ordered_source ok content each
  by unfold_locales (simp_all add: ordered each_range)

interpretation md: ordered_source mem_ok journal_of for_each
  by unfold_locales (simp_all add: journal_sorted for_each_range read_range_journal)


text \<open>Two streams whose subscribers share connection 7; each may have \<open>mx\<close> messages in flight.\<close>

definition demo_match :: "u32 \<Rightarrow> match_entry" where
  "demo_match i = \<lparr>me_consumer_id = i + 1, me_queue_id = 0, me_subscription_id = i + 1, me_connection_id = 7, binding_idx = i\<rparr>"

definition demo_binding :: "u32 \<Rightarrow> u32 \<Rightarrow> active_binding" where
  "demo_binding mx i = \<lparr>ab_binding_id = i, ab_connection_id = 7, ab_consumer_id = i + 1, ab_subscription_id = i + 1,
     ab_group_idx = i, ab_external_sub_id = i, ab_stream_id = i, ab_queue_id = 0, ab_max_inflight = mx,
     ab_fire_and_forget = False, ab_ack_wait_ms = 0, ab_deliver_floor = 0\<rparr>"

definition demo_snapshot :: "u32 \<Rightarrow> drain_snapshot" where
  "demo_snapshot mx = \<lparr>sn_bindings = map (demo_binding mx) [0, 1], sn_writers = [7],
     sn_match_tables = map (\<lambda>i. Some (add_catch_all (demo_match i) match_table_new)) [0, 1],
     sn_max_age_ms = [], sn_created_at_seq = []\<rparr>"

definition demo_counters :: shared_counters where
  "demo_counters = \<lparr>sh_consumer = [0, 0, 0], sh_queue = [0], sh_demand = [1, 1], sh_total_demand = 2,
     sh_paused = [False, False, False], sh_cursor = 0, sh_rewind = no_rewind\<rparr>"

definition demo_config :: drain_config where
  "demo_config = \<lparr>dc_max_feed = 10, dc_max_age_ms = 0, dc_stall_evict_ms = 0\<rparr>"

definition demo_drain :: "drain_scratch \<Rightarrow> drain_state" where
  "demo_drain s = \<lparr>dr_counters = demo_counters, dr_books = [], dr_scratch = s, dr_ring = \<lparr>nr_queue = [], nr_dropped = 0\<rparr>,
     dr_gate = False\<rparr>"

definition demo_walk :: "u32 \<Rightarrow> u32 list \<Rightarrow> walk option" where
  "demo_walk mx ids = drain_walk (\<lambda>_. 0) (\<lambda>_ _. False) demo_counters (demo_snapshot mx) demo_config [] 0
     (assigned 7 1 (map demo_ref ids)) (scratch_reset True scratch_new)"

definition demo_result :: "u64 \<Rightarrow> walk \<Rightarrow> drain_read_result" where
  "demo_result n w = \<lparr>rr_start = 1, rr_end = n + 1, rr_more_pending = wk_more_pending w,
     rr_lowest_skipped = wk_lowest_skipped w, rr_last_seq = n\<rparr>"

definition demo_deliver :: "(nat \<Rightarrow> frame \<Rightarrow> net_result) \<Rightarrow> u32 \<Rightarrow> u64 \<Rightarrow> walk \<Rightarrow> drain_state option" where
  "demo_deliver net mx n w =
     drain_deliver (\<lambda>_. None) net (\<lambda>_. 0) (demo_snapshot mx) 0 (demo_result n w) (demo_drain (wk_scratch w))"

lemma demo_read:
  assumes "mem_ok s" "journal_of s = assigned 7 1 (map demo_ref ids)" "next_seq s = 1 + length ids" "0 < length ids" "length ids \<le> 10"
    "demo_walk mx ids = Some w" "\<forall>e \<in> set (journal_of s). 1 \<le> e_seq e \<and> e_seq e < length ids + 1"
  shows "drain_read (\<lambda>_. 0) (\<lambda>_ _. False) mem_info for_each demo_counters (demo_snapshot mx) s demo_config [] 0 True scratch_new =
    Some (Fed (demo_result (length ids) w), wk_scratch w)"
    "for_each 1 (length ids + 1) s = Some (assigned 7 1 (map demo_ref ids))"
proof -
  show each: "for_each 1 (length ids + 1) s = Some (assigned 7 1 (map demo_ref ids))"
    using assms(7) unfolding md.source_each [OF assms(1)] assms(2) [symmetric] by (simp add: filter_id_conv)
  have "min (1 + 10) (length ids + 1) = length ids + 1" using assms(5) by simp
  then show "drain_read (\<lambda>_. 0) (\<lambda>_ _. False) mem_info for_each demo_counters (demo_snapshot mx) s demo_config [] 0 True scratch_new =
    Some (Fed (demo_result (length ids) w), wk_scratch w)"
    using assms(3-6) each
    by (simp add: drain_read_def sh_has_any_demand_def mem_info_def demo_counters_def demo_config_def demo_result_def
      demo_walk_def Let_def)
qed

lemma demo_held:
  "map_option wk_more_pending (demo_walk 1 [0, 0]) = Some True"
  "Option.bind (demo_walk 1 [0, 0]) (demo_deliver (\<lambda>_ _. Accepted) 1 2) \<noteq> None"
  by code_simp+


end
