(* ===== verification/Drain_Limits.thy ===== *)
theory Drain_Limits
  imports Drain_Safety
begin

text \<open>
  Who gets a message: the limits the drain keeps when it chooses recipients, and what it records
  about a frame it did not send.
\<close>

section \<open>Admission of one delivery\<close>

text \<open>The delivery \<open>d\<close> was chosen after the deliveries \<open>pre\<close> of the same cycle.\<close>

definition admitted ::
  "shared_counters \<Rightarrow> subject_books \<Rightarrow> active_binding list \<Rightarrow> pending_notify list \<Rightarrow> pending_notify \<Rightarrow> bool" where
  "admitted counters books bs pre d \<longleftrightarrow> pn_binding_idx d < length bs \<and>
     \<not> ab_fire_and_forget (bs ! pn_binding_idx d) \<and>
     sh_is_paused counters (pn_consumer_id d) = Some False \<and>
     \<not> suppressed_for books (pn_consumer_id d) (pn_seq d) \<and>
     ab_deliver_floor (bs ! pn_binding_idx d) < pn_seq d \<and>
     (\<exists>n. sh_consumer_inflight counters (pn_consumer_id d) = Some n \<and>
       n + length (filter (\<lambda>x. pn_consumer_id x = pn_consumer_id d) pre) < ab_max_inflight (bs ! pn_binding_idx d)) \<and>
     (pn_queue_id d \<noteq> 0 \<longrightarrow> (\<forall>x \<in> set pre. \<not> (pn_seq x = pn_seq d \<and> pn_queue_id x = pn_queue_id d)))"

fun all_admitted ::
  "shared_counters \<Rightarrow> subject_books \<Rightarrow> active_binding list \<Rightarrow> pending_notify list \<Rightarrow> pending_notify list \<Rightarrow> bool" where
  "all_admitted counters books bs pre [] = True"
| "all_admitted counters books bs pre (d # ds) =
    (admitted counters books bs pre d \<and> all_admitted counters books bs (pre @ [d]) ds)"

lemma all_admitted_snoc:
  "all_admitted counters books bs pre (ds @ [d]) \<longleftrightarrow>
     all_admitted counters books bs pre ds \<and> admitted counters books bs (pre @ ds) d"
  by (induction ds arbitrary: pre) auto

lemma all_admitted_split:
  "all_admitted counters books bs pre (xs @ d # ys) \<Longrightarrow> admitted counters books bs (pre @ xs) d"
  by (induction xs arbitrary: pre) fastforce+

lemma local_delta_get_inc:
  "local_delta_get (local_delta_inc c xs) c' = (if c' = c then u32_add (local_delta_get xs c) 1 else local_delta_get xs c')"
  by (induction c xs rule: local_delta_inc.induct) (auto simp: u32_add_def)

text \<open>The local counts are the deliveries of this cycle.\<close>

definition counts_ok :: "drain_scratch \<Rightarrow> bool" where
  "counts_ok s \<longleftrightarrow>
     (\<forall>c. local_delta_get (ds_local_inflight s) c = length (filter (\<lambda>x. pn_consumer_id x = c) (ds_deliveries s)))"

definition limits_ok :: "shared_counters \<Rightarrow> subject_books \<Rightarrow> active_binding list \<Rightarrow> u64 \<Rightarrow> walk \<Rightarrow> bool" where
  "limits_ok counters books bs q w \<longleftrightarrow>
     all_admitted counters books bs [] (ds_deliveries (wk_scratch w)) \<and> counts_ok (wk_scratch w) \<and>
     (\<forall>d \<in> set (ds_deliveries (wk_scratch w)). pn_seq d \<le> q)"

definition served_ok :: "u64 \<Rightarrow> u32 list \<Rightarrow> walk \<Rightarrow> bool" where
  "served_ok q served w \<longleftrightarrow>
     (\<forall>d \<in> set (ds_deliveries (wk_scratch w)). pn_seq d = q \<and> pn_queue_id d \<noteq> 0 \<longrightarrow> pn_queue_id d \<in> set served)"

lemma held_back_False:
  assumes "held_back counters books limit h c b s = Some False" "\<not> ab_fire_and_forget b"
  shows "sh_is_paused counters c = Some False"
    "\<exists>n. sh_consumer_inflight counters c = Some n \<and> n + local_delta_get (ds_local_inflight s) c < ab_max_inflight b"
  using assms by (auto simp: held_back_def Let_def sh_has_capacity_def split: option.splits bool.splits if_splits)

lemma open_pending_limits:
  assumes "limits_ok counters books bs q w" "served_ok q served w"
    and el: "eligible failed counters e h limit books bs me served (wk_scratch w)" "e_seq e = q"
    and ack: "\<not> ab_fire_and_forget (bs ! binding_idx me)" and fits: "ab_max_inflight (bs ! binding_idx me) < 2 ^ 32"
    and s1: "ds_deliveries s1 = ds_deliveries (wk_scratch w) @ [notice e stream h me]"
      "ds_local_inflight s1 = local_delta_inc (me_consumer_id me) (ds_local_inflight (wk_scratch w))"
  shows "limits_ok counters books bs q (w\<lparr>wk_scratch := s1\<rparr>)"
proof -
  let ?c = "me_consumer_id me" and ?ds = "ds_deliveries (wk_scratch w)"
  have cnt: "local_delta_get (ds_local_inflight (wk_scratch w)) c = length (filter (\<lambda>x. pn_consumer_id x = c) ?ds)" for c
    using assms(1) by (simp add: limits_ok_def counts_ok_def)
  obtain n where n: "sh_consumer_inflight counters ?c = Some n"
      "n + length (filter (\<lambda>x. pn_consumer_id x = ?c) ?ds) < ab_max_inflight (bs ! binding_idx me)"
    and p: "sh_is_paused counters ?c = Some False"
    using held_back_False [of counters books limit h ?c "bs ! binding_idx me" "wk_scratch w"] el(1) ack
    by (auto simp: eligible_def cnt)
  have "\<forall>x \<in> set ?ds. \<not> (pn_seq x = e_seq e \<and> pn_queue_id x = me_queue_id me)" if "me_queue_id me \<noteq> 0"
    using assms(2) el that by (auto simp: served_ok_def eligible_def)
  then have "admitted counters books bs ?ds (notice e stream h me)"
    using el(1) ack n p by (auto simp: admitted_def notice_def eligible_def)
  moreover have "counts_ok s1"
    using n(2) fits cnt by (auto simp: counts_ok_def s1 local_delta_get_inc notice_def u32_add_def)
  ultimately show ?thesis
    using assms(1) el(2) by (auto simp: limits_ok_def s1 all_admitted_snoc notice_def)
qed

lemma limits_one:
  assumes step: "dispatch_one failed counters e stream h limit books bs me (served, w) = Some (served', w')"
    and inv: "limits_ok counters books bs (e_seq e) w \<and> served_ok (e_seq e) served w"
    and fits: "\<forall>b \<in> set bs. ab_max_inflight b < 2 ^ 32"
  shows "limits_ok counters books bs (e_seq e) w' \<and> served_ok (e_seq e) served' w'"
  using step
proof (cases rule: dispatch_one_cases)
  case (handed collapsed s1 stamps)
  let ?b = "bs ! binding_idx me"
  have small: "ab_max_inflight ?b < 2 ^ 32" using fits handed(1) by (simp add: eligible_def)
  show ?thesis
  proof (cases "ab_fire_and_forget ?b")
    case True
    then show ?thesis using handed inv
      by (auto simp: hand_off_eq limits_ok_def served_ok_def counts_ok_def)
  next
    case False
    then have s1: "ds_deliveries s1 = ds_deliveries (wk_scratch w) @ [notice e stream h me]"
        "ds_local_inflight s1 = local_delta_inc (me_consumer_id me) (ds_local_inflight (wk_scratch w))"
      using handed(2) by (auto simp: hand_off_eq open_pending_def notice_def)
    have "limits_ok counters books bs (e_seq e) (w\<lparr>wk_scratch := s1\<lparr>ds_fanout_stamp := stamps\<rparr>\<rparr>)"
      by (rule open_pending_limits [OF conjunct1 [OF inv] conjunct2 [OF inv] handed(1) refl False small]) (simp_all add: s1)
    then show ?thesis using handed(3,4) inv s1 by (auto simp: served_ok_def notice_def)
  qed
qed (use inv in \<open>auto simp: limits_ok_def served_ok_def skip_owed_def\<close>)

lemma limits_entry:
  assumes step: "process_drain_entry hash failed counters snap books now age e w = Some w'"
    and inv: "limits_ok counters books (sn_bindings snap) q w" "q < e_seq e"
    and fits: "\<forall>b \<in> set (sn_bindings snap). ab_max_inflight b < 2 ^ 32"
  shows "limits_ok counters books (sn_bindings snap) (e_seq e) w'"
proof (rule process_drain_entry_inv [where J = "limits_ok counters books (sn_bindings snap) q"
      and I = "\<lambda>served w. limits_ok counters books (sn_bindings snap) (e_seq e) w \<and> served_ok (e_seq e) served w"
      and K = "limits_ok counters books (sn_bindings snap) (e_seq e)", OF step inv(1)])
  fix stream h limit me served w served' w'
  assume "limits_ok counters books (sn_bindings snap) (e_seq e) w \<and> served_ok (e_seq e) served w"
    "dispatch_one failed counters e stream h limit books (sn_bindings snap) me (served, w) = Some (served', w')"
  then show "limits_ok counters books (sn_bindings snap) (e_seq e) w' \<and> served_ok (e_seq e) served' w'"
    using limits_one [OF _ _ fits] by blast
qed (use inv(2) in \<open>auto simp: limits_ok_def served_ok_def counts_ok_def\<close>)

lemma limits_window:
  assumes "ofold (\<lambda>e. process_drain_entry hash failed counters snap books now (age e) e) es w = Some w'"
    "limits_ok counters books (sn_bindings snap) q w" "\<forall>e \<in> set es. q < e_seq e" "sorted_wrt (\<lambda>a b. e_seq a < e_seq b) es"
    "\<forall>b \<in> set (sn_bindings snap). ab_max_inflight b < 2 ^ 32"
  shows "\<exists>q'. limits_ok counters books (sn_bindings snap) q' w'"
  using assms
proof (induction es arbitrary: w q)
  case (Cons e es)
  obtain w1 where w1: "process_drain_entry hash failed counters snap books now (age e) e w = Some w1"
      "ofold (\<lambda>e. process_drain_entry hash failed counters snap books now (age e) e) es w1 = Some w'"
    using Cons.prems(1) by (auto split: option.splits)
  have "limits_ok counters books (sn_bindings snap) (e_seq e) w1"
    using limits_entry [OF w1(1) Cons.prems(2) _ Cons.prems(5)] Cons.prems(3) by simp
  then show ?case using Cons.IH [OF w1(2)] Cons.prems(4,5) by auto
qed auto


lemma demo_two: "map_option (\<lambda>w. length (ds_deliveries (wk_scratch w))) (demo_walk 2 [0, 0]) = Some 2"
  by code_simp


section \<open>Frames that were not sent\<close>


end
