(* ===== verification/Drain_Notify.thy ===== *)
theory Drain_Notify
  imports Drain_Cycle
begin

text \<open>
  The report of a cycle to the command thread: the counting sort of \<^verbatim>\<open>notify_delivered_grouped\<close>
  against its meaning, one notification per binding in the order of the bindings.
\<close>

section \<open>The counting sort\<close>

definition group_of :: "nat \<Rightarrow> pending_notify list \<Rightarrow> pending_notify list" where
  "group_of i ds = filter (\<lambda>d. pn_binding_idx d = i) ds"

definition start_of :: "pending_notify list \<Rightarrow> nat \<Rightarrow> nat" where
  "start_of ds i = (\<Sum>j < i. length (group_of j ds))"

lemma start_of_Suc: "start_of ds (Suc i) = start_of ds i + length (group_of i ds)"
  by (simp add: start_of_def)

lemma start_of_mono: "i \<le> j \<Longrightarrow> start_of ds i \<le> start_of ds j"
  unfolding start_of_def by (rule sum_mono2) auto

lemma start_of_end: "\<forall>d \<in> set ds. pn_binding_idx d < k \<Longrightarrow> start_of ds k = length ds"
proof (induction ds)
  case (Cons d ds)
  have "(\<Sum>j < k. length (group_of j (d # ds))) = (\<Sum>j < k. (if j = pn_binding_idx d then 1 else 0) + length (group_of j ds))"
    by (rule sum.cong) (auto simp: group_of_def)
  then show ?case using Cons by (simp add: start_of_def sum.distrib)
qed (simp add: start_of_def group_of_def)

lemma bucket_counts_from:
  assumes "\<forall>d \<in> set ds. pn_binding_idx d + 1 < length cs"
  shows "\<exists>cs'. ofold (\<lambda>d. slot_update Suc (pn_binding_idx d + 1)) ds cs = Some cs' \<and> length cs' = length cs \<and>
    (\<forall>j < length cs. cs' ! j = cs ! j + (case j of 0 \<Rightarrow> 0 | Suc i \<Rightarrow> length (group_of i ds)))"
  using assms
proof (induction ds arbitrary: cs)
  case (Cons d ds)
  let ?cs = "cs[pn_binding_idx d + 1 := Suc (cs ! (pn_binding_idx d + 1))]"
  from Cons.IH [of ?cs] obtain cs' where cs': "ofold (\<lambda>d. slot_update Suc (pn_binding_idx d + 1)) ds ?cs = Some cs'"
    "length cs' = length cs" "\<forall>j < length cs. cs' ! j = ?cs ! j + (case j of 0 \<Rightarrow> 0 | Suc i \<Rightarrow> length (group_of i ds))"
    using Cons.prems by auto
  moreover have "?cs ! j + (case j of 0 \<Rightarrow> 0 | Suc i \<Rightarrow> length (group_of i ds)) =
      cs ! j + (case j of 0 \<Rightarrow> 0 | Suc i \<Rightarrow> length (group_of i (d # ds)))" if "j < length cs" for j
    using that by (cases j) (auto simp: group_of_def nth_list_update)
  moreover have "slot_update Suc (pn_binding_idx d + 1) cs = Some ?cs" using Cons.prems by (simp add: slot_update_def)
  ultimately show ?case by (intro exI [of _ cs']) simp
qed (auto simp: group_of_def split: nat.split)

lemma bucket_counts_ok:
  assumes "\<forall>d \<in> set ds. pn_binding_idx d < k"
  obtains cs where "bucket_counts k ds = Some cs" "length cs = k + 1" "cs ! 0 = 0" "\<forall>i < k. cs ! Suc i = length (group_of i ds)"
proof -
  have "\<forall>d \<in> set ds. pn_binding_idx d + 1 < length (replicate (k + 1) (0 :: nat))" using assms by simp
  from bucket_counts_from [OF this] obtain cs where cs: "bucket_counts k ds = Some cs" "length cs = k + 1"
    "\<forall>j < k + 1. cs ! j = replicate (k + 1) 0 ! j + (case j of 0 \<Rightarrow> 0 | Suc i \<Rightarrow> length (group_of i ds))"
    unfolding bucket_counts_def by auto
  have "cs ! 0 = 0" "\<forall>i < k. cs ! Suc i = length (group_of i ds)" using cs(3) by (auto simp del: replicate.simps)
  then show ?thesis using that cs by blast
qed

lemma prefix_sums_ok:
  assumes "length cs = k + 1" "cs ! 0 = 0" "\<forall>i < k. cs ! Suc i = length (group_of i ds)" "n \<le> k"
  shows "length (prefix_sums n cs) = k + 1 \<and>
    (\<forall>j \<le> k. prefix_sums n cs ! j = (if j \<le> n then start_of ds j else cs ! j))"
  using assms(4)
proof (induction n)
  case 0
  then show ?case using assms(1,2) by (simp add: prefix_sums_def start_of_def)
next
  case (Suc n)
  then have "prefix_sums (Suc n) cs = (prefix_sums n cs)[Suc n := prefix_sums n cs ! Suc n + prefix_sums n cs ! n]"
    by (simp add: prefix_sums_def)
  then show ?case using Suc assms(1,3) by (auto simp: nth_list_update start_of_Suc)
qed

text \<open>After placing \<open>xs\<close>, every group has its first elements in place and its cursor behind them.\<close>

definition placed_ok :: "pending_notify list \<Rightarrow> nat \<Rightarrow> pending_notify list \<Rightarrow> pending_notify list \<times> nat list \<Rightarrow> bool" where
  "placed_ok ds k xs pc \<longleftrightarrow> length (fst pc) = length ds \<and> length (snd pc) = k + 1 \<and>
     (\<forall>i < k. snd pc ! i = start_of ds i + length (group_of i xs)) \<and>
     (\<forall>i < k. \<forall>j < length (group_of i xs). fst pc ! (start_of ds i + j) = group_of i xs ! j)"

lemma place_one_ok:
  assumes "placed_ok ds k xs pc" "ds = xs @ d # ys" "\<forall>d \<in> set ds. pn_binding_idx d < k"
  shows "\<exists>pc'. place_one d pc = Some pc' \<and> placed_ok ds k (xs @ [d]) pc'"
proof -
  obtain placed cursors where pc: "pc = (placed, cursors)" by (cases pc)
  define i where "i = pn_binding_idx d"
  define p where "p = start_of ds i + length (group_of i xs)"
  have i: "i < k" using assms(2,3) by (simp add: i_def)
  have grp: "group_of i ds = group_of i xs @ d # group_of i ys" by (simp add: group_of_def assms(2) i_def)
  have other: "group_of j (xs @ [d]) = (if j = i then group_of i xs @ [d] else group_of j xs)" for j
    by (simp add: group_of_def i_def)
  have room: "p < start_of ds (Suc i)" using grp by (simp add: p_def start_of_Suc)
  then have p: "p < length ds" using start_of_mono [of "Suc i" k ds] start_of_end [OF assms(3)] i by simp
  have apart: "p \<noteq> start_of ds j + n" if "j < k" "j \<noteq> i" "n < length (group_of j xs)" for j n
  proof (cases "j < i")
    case True
    have "start_of ds j + n < start_of ds (Suc j)" using that(3) by (simp add: start_of_Suc group_of_def assms(2))
    then show ?thesis using start_of_mono [of "Suc j" i ds] True by (simp add: p_def)
  next
    case False
    then show ?thesis using start_of_mono [of "Suc i" j ds] that(2) room by simp
  qed
  have "place_one d pc = Some (placed[p := d], cursors[i := p + 1])"
    using assms(1) i p by (simp add: place_one_def pc vec_get_def placed_ok_def i_def p_def)
  moreover have "placed_ok ds k (xs @ [d]) (placed[p := d], cursors[i := p + 1])"
    using assms(1) i p apart [unfolded p_def]
    by (auto simp: placed_ok_def pc other nth_list_update nth_append less_Suc_eq p_def)
  ultimately show ?thesis by blast
qed

lemma place_all_ok:
  assumes "placed_ok ds k xs pc" "ds = xs @ ys" "\<forall>d \<in> set ds. pn_binding_idx d < k"
  shows "\<exists>pc'. ofold place_one ys pc = Some pc' \<and> placed_ok ds k ds pc'"
  using assms(1,2)
proof (induction ys arbitrary: xs pc)
  case (Cons d ys)
  from place_one_ok [OF Cons.prems assms(3)] obtain pc1 where "place_one d pc = Some pc1" "placed_ok ds k (xs @ [d]) pc1" by blast
  then show ?case using Cons.IH [of "xs @ [d]" pc1] Cons.prems(2) by simp
qed simp

lemma counting_sort_ok:
  assumes "\<forall>d \<in> set ds. pn_binding_idx d < k"
  obtains placed starts where "counting_sort k ds = Some (placed, starts)" "length starts = k + 1"
    "\<forall>i \<le> k. starts ! i = start_of ds i"
    "\<forall>i < k. slice placed (start_of ds i) (start_of ds (Suc i)) = Some (group_of i ds)"
proof -
  obtain cs where cs: "bucket_counts k ds = Some cs" "length cs = k + 1" "cs ! 0 = 0" "\<forall>i < k. cs ! Suc i = length (group_of i ds)"
    by (rule bucket_counts_ok [OF assms])
  define starts where "starts = prefix_sums k cs"
  have st: "length starts = k + 1" "\<forall>i \<le> k. starts ! i = start_of ds i"
    using prefix_sums_ok [OF cs(2-4), of k] by (simp_all add: starts_def)
  have "placed_ok ds k [] (replicate (length ds) (hd ds), starts)" using st by (simp add: placed_ok_def group_of_def)
  from place_all_ok [OF this _ assms] obtain placed cursors where
    pl: "ofold place_one ds (replicate (length ds) (hd ds), starts) = Some (placed, cursors)" "placed_ok ds k ds (placed, cursors)"
    by auto
  have "slice placed (start_of ds i) (start_of ds (Suc i)) = Some (group_of i ds)" if "i < k" for i
  proof -
    have "start_of ds (Suc i) \<le> length placed"
      using start_of_mono [of "Suc i" k ds] start_of_end [OF assms] that pl(2) by (simp add: placed_ok_def)
    then show ?thesis
      using pl(2) that by (auto simp: slice_def start_of_Suc placed_ok_def intro: nth_equalityI)
  qed
  moreover have "counting_sort k ds = Some (placed, starts)" using cs(1) pl(1) by (simp add: counting_sort_def starts_def)
  ultimately show ?thesis using that st by blast
qed

section \<open>The notifications\<close>

definition notifications :: "active_binding list \<Rightarrow> pending_notify list \<Rightarrow> drain_notification list" where
  "notifications bs ds =
     map (\<lambda>i. notify_binding (bs ! i) (group_of i ds)) (filter (\<lambda>i. group_of i ds \<noteq> []) [0..<length bs])"

lemma notify_groups_ok:
  assumes "length starts = length bs + 1" "\<forall>i \<le> length bs. starts ! i = start_of ds i"
    "\<forall>i < length bs. slice placed (start_of ds i) (start_of ds (Suc i)) = Some (group_of i ds)"
    "\<forall>i \<in> set is. i < length bs"
  shows "ofold (notify_group bs placed starts) is r =
    Some (fold try_notify (map (\<lambda>i. notify_binding (bs ! i) (group_of i ds)) (filter (\<lambda>i. group_of i ds \<noteq> []) is)) r)"
  using assms(4)
proof (induction "is" arbitrary: r)
  case (Cons i xs)
  have "notify_group bs placed starts i r =
      Some (if group_of i ds = [] then r else try_notify (notify_binding (bs ! i) (group_of i ds)) r)"
    using Cons.prems assms(1-3)
    by (auto simp: notify_group_def vec_get_def start_of_Suc)
  then show ?case using Cons by simp
qed simp

lemma group_of_same:
  "ds \<noteq> [] \<Longrightarrow> \<forall>d \<in> set ds. pn_binding_idx d = k \<Longrightarrow> group_of i ds = (if i = k then ds else [])"
  by (auto simp: group_of_def filter_empty_conv)

lemma filter_upt_single: "k < n \<Longrightarrow> filter (\<lambda>i. i = k) [0..<n] = [k]"
  by (induction n) (auto simp: less_Suc_eq filter_empty_conv)

lemma notifications_same:
  assumes "ds \<noteq> []" "\<forall>d \<in> set ds. pn_binding_idx d = k" "k < length bs"
  shows "notifications bs ds = [notify_binding (bs ! k) ds]"
  using assms(1) filter_upt_single [OF assms(3)] by (simp add: notifications_def group_of_same [OF assms(1,2)] cong: filter_cong)

lemma notify_delivered_grouped_eq:
  assumes "\<forall>d \<in> set deliveries. pn_binding_idx d < length bs"
  shows "notify_delivered_grouped bs deliveries results r =
    Some (fold try_notify (notifications bs (filter (\<lambda>d. frame_ok_for results (pn_conn d)) deliveries)) r)"
proof -
  let ?ok = "\<lambda>d. frame_ok_for results (pn_conn d)"
  let ?ds = "filter ?ok deliveries"
  have idx: "\<forall>d \<in> set ?ds. pn_binding_idx d < length bs" using assms by simp
  show ?thesis
  proof (cases "deliveries \<noteq> [] \<and> list_all (\<lambda>d. pn_binding_idx d = pn_binding_idx (hd deliveries)) deliveries \<and> list_all ?ok deliveries")
    case True
    then have ne: "deliveries \<noteq> []" and l: "list_all ?ok deliveries"
      and l': "list_all (\<lambda>d. pn_binding_idx d = pn_binding_idx (hd deliveries)) deliveries" by blast+
    have all: "?ds = deliveries" using l by (simp add: filter_id_conv list_all_iff)
    have same: "\<forall>d \<in> set deliveries. pn_binding_idx d = pn_binding_idx (hd deliveries)" using l' by (simp only: list_all_iff)
    have k: "pn_binding_idx (hd deliveries) < length bs" using assms hd_in_set [OF ne] by blast
    show ?thesis
      unfolding notify_delivered_grouped_def if_P [OF True] all notifications_same [OF ne same k] by (simp add: vec_get_def k)
  next
    case False
    show ?thesis
    proof (cases "?ds = []")
      case True
      have "notifications bs [] = []" by (simp add: notifications_def group_of_def)
      then show ?thesis
        unfolding notify_delivered_grouped_def if_not_P [OF False] Let_def if_P [OF True] True by simp
    next
      case ne: False
      obtain placed starts where cs: "counting_sort (length bs) ?ds = Some (placed, starts)" "length starts = length bs + 1"
        "\<forall>i \<le> length bs. starts ! i = start_of ?ds i"
        "\<forall>i < length bs. slice placed (start_of ?ds i) (start_of ?ds (Suc i)) = Some (group_of i ?ds)"
        by (rule counting_sort_ok [OF idx])
      show ?thesis
        using notify_groups_ok [OF cs(2-4), of "[0..<length bs]" r]
        unfolding notify_delivered_grouped_def if_not_P [OF False] Let_def if_not_P [OF ne] cs(1) notifications_def by simp
    qed
  qed
qed

text \<open>C15. The report of a cycle is what it should be on both of its paths: the fast path for a
  single binding and the counting sort, with its in-place prefix sums and write cursors, send exactly
  one notification per binding that has deliveries in frames taken for sent, in the order of the
  bindings, with the deliveries of that binding in the order they were made, and never run out of
  bounds.\<close>

theorem notify_grouping_correct:
  assumes "\<forall>d \<in> set deliveries. pn_binding_idx d < length bs"
  shows "notify_delivered_grouped bs deliveries results r =
    Some (fold try_notify (notifications bs (filter (\<lambda>d. frame_ok_for results (pn_conn d)) deliveries)) r)"
  by (rule notify_delivered_grouped_eq [OF assms])

theorem notify_grouping_correct_witness:
  "notify_delivered_grouped
      [\<lparr>ab_binding_id = 40, ab_connection_id = 7, ab_consumer_id = 1, ab_subscription_id = 1, ab_group_idx = 0,
        ab_external_sub_id = 0, ab_stream_id = 0, ab_queue_id = 0, ab_max_inflight = 9, ab_fire_and_forget = False,
        ab_ack_wait_ms = 0, ab_deliver_floor = 0\<rparr>,
       \<lparr>ab_binding_id = 41, ab_connection_id = 8, ab_consumer_id = 2, ab_subscription_id = 2, ab_group_idx = 1,
        ab_external_sub_id = 0, ab_stream_id = 0, ab_queue_id = 0, ab_max_inflight = 9, ab_fire_and_forget = False,
        ab_ack_wait_ms = 0, ab_deliver_floor = 0\<rparr>]
      [\<lparr>pn_conn = 8, pn_stream = 0, pn_binding_idx = 1, pn_seq = 1, pn_subject_hash = 5, pn_consumer_id = 2, pn_queue_id = 0\<rparr>,
       \<lparr>pn_conn = 7, pn_stream = 0, pn_binding_idx = 0, pn_seq = 1, pn_subject_hash = 5, pn_consumer_id = 1, pn_queue_id = 0\<rparr>,
       \<lparr>pn_conn = 8, pn_stream = 0, pn_binding_idx = 1, pn_seq = 2, pn_subject_hash = 5, pn_consumer_id = 2, pn_queue_id = 0\<rparr>]
      [(7, FlushOk), (8, FlushOk)] \<lparr>nr_queue = [], nr_dropped = 0\<rparr> =
    Some \<lparr>nr_queue = [NotifyDelivered 40 1 0 [\<lparr>de_seq = 1, de_subject_hash = 5\<rparr>],
       NotifyDelivered 41 2 0 [\<lparr>de_seq = 1, de_subject_hash = 5\<rparr>, \<lparr>de_seq = 2, de_subject_hash = 5\<rparr>]], nr_dropped = 0\<rparr>"
  by (subst notify_grouping_correct)
    (simp_all add: notifications_def group_of_def notify_binding_def delivered_of_def try_notify_def notify_capacity_def numeral_2_eq_2)

end
