(* ===== verification/Shard_Worker.thy ===== *)
theory Shard_Worker
  imports Eviction Name_Registry Drain_Cycle Hier_Wheel Timing_Wheel Engine_Steps
begin

text \<open>
  The command thread of a shard: \<^verbatim>\<open>CommandWorker\<close> of \<^verbatim>\<open>arbitro-server/src/shard/worker.rs\<close> and its
  handlers in \<^verbatim>\<open>handlers.rs\<close>.  It owns the engine, receives the notifications of the drain, keeps the
  shared counters in step with the engine and sends the drain events and snapshots.

  The two rings are queues; the notifications that a handler sees are those queued when it starts,
  and later ones are left to the next handler.  Replies are returned instead of sent, and \<open>now\<close> is the
  reading of the worker clock.  A handler that indexes a counter out of range panics and gives \<open>None\<close>.
  The sidecar file, the idempotency trackers and the timer that wakes the loop are left out.
\<close>

section \<open>State\<close>

text \<open>A length cast to 32 bits.\<close>

definition as_u32 :: "usize \<Rightarrow> u32" where
  "as_u32 n = n mod 2 ^ 32"

record command_worker =
  cw_engine :: engine_context
  cw_counters :: shared_counters
  cw_snapshot :: drain_snapshot
  cw_gate :: bool
  cw_names :: name_registry
  cw_notify :: "drain_notification list"
  cw_events :: "drain_event list"
  cw_retention :: "(u32, stream_retention) hmap"
  cw_bindings :: "active_binding list"
  cw_wheel :: "wheel_entry hwheel option"
  cw_drops :: nat
  cw_pending_remove :: "u32 list"
  cw_pending_acks :: "drain_event list"
  cw_floors :: ack_floors
  cw_nack_counts :: "(u32 \<times> u64, u32) hmap"

abbreviation gate_release :: "command_worker \<Rightarrow> command_worker" where
  "gate_release w \<equiv> w\<lparr>cw_gate := True\<rparr>"

abbreviation on_counters :: "(shared_counters \<Rightarrow> shared_counters option) \<Rightarrow> command_worker \<Rightarrow> command_worker option" where
  "on_counters f w \<equiv> map_option (\<lambda>s. w\<lparr>cw_counters := s\<rparr>) (f (cw_counters w))"

abbreviation rewind :: "u64 \<Rightarrow> command_worker \<Rightarrow> command_worker" where
  "rewind seq w \<equiv> w\<lparr>cw_counters := rewind_released seq (cw_counters w)\<rparr>"

abbreviation drain_event_cap :: usize where "drain_event_cap \<equiv> 2048"

definition try_send :: "drain_event \<Rightarrow> command_worker \<Rightarrow> command_worker option" where
  "try_send e w =
    (if length (cw_events w) < drain_event_cap then Some (w\<lparr>cw_events := cw_events w @ [e]\<rparr>) else None)"

text \<open>An acknowledgement event that finds the ring full is kept for another attempt; so is the removal of a
  consumer.\<close>

definition send_ack :: "drain_event \<Rightarrow> command_worker \<Rightarrow> command_worker" where
  "send_ack e w =
    (case try_send e w of
       Some w' \<Rightarrow> w'
     | None \<Rightarrow> w\<lparr>cw_drops := cw_drops w + 1, cw_pending_acks := cw_pending_acks w @ [e]\<rparr>)"

definition send_removed :: "u32 \<Rightarrow> command_worker \<Rightarrow> command_worker" where
  "send_removed cid w =
    (case try_send (ConsumerRemoved cid) w of
       Some w' \<Rightarrow> w'
     | None \<Rightarrow> w\<lparr>cw_drops := cw_drops w + 1, cw_pending_remove := cw_pending_remove w @ [cid]\<rparr>)"

section \<open>The snapshot\<close>

text \<open>One dense number per connection and consumer, in the order of the bindings.\<close>

definition group_ids :: "active_binding list \<Rightarrow> u32 list" where
  "group_ids bs =
    rev (snd (fold (\<lambda>b (ids, out).
      let key = (ab_connection_id b, ab_consumer_id b)
      in case hm_get ids key of
           Some g \<Rightarrow> (ids, g # out)
         | None \<Rightarrow> (hm_insert key (length ids) ids, length ids # out)) bs ([], [])))"

definition stamp_bindings :: "active_binding list \<Rightarrow> match_table option list \<Rightarrow> match_table option list" where
  "stamp_bindings bs tables =
     fold (\<lambda>(i, b) ts.
       case vec_get ts (ab_stream_id b) of
         Some (Some mt) \<Rightarrow> ts[ab_stream_id b :=
           Some (set_binding_idx_for (ab_consumer_id b) (ab_connection_id b) (ab_subscription_id b) i mt)]
       | _ \<Rightarrow> ts) (enumerate 0 bs) tables"

definition per_stream :: "(stream_retention \<Rightarrow> u64) \<Rightarrow> (u32, stream_retention) hmap \<Rightarrow> u64 list" where
  "per_stream f m = fold (\<lambda>(sid, r) v. v[sid := f r]) m (replicate (max_stream_idx m + 1) 0)"

definition rebuild_and_swap_snapshot :: "command_worker \<Rightarrow> command_worker" where
  "rebuild_and_swap_snapshot w =
     w\<lparr>cw_snapshot :=
       \<lparr>sn_bindings = map (\<lambda>(b, g). b\<lparr>ab_group_idx := g\<rparr>) (zip (cw_bindings w) (group_ids (cw_bindings w))),
        sn_writers = remdups (map ab_connection_id (cw_bindings w)),
        sn_match_tables = stamp_bindings (cw_bindings w) (match_tables (ec_catalog (cw_engine w))),
        sn_max_age_ms = per_stream max_age_ms (cw_retention w),
        sn_created_at_seq = per_stream created_at_seq (cw_retention w)\<rparr>\<rparr>"

section \<open>Applying the events of the engine\<close>

definition push_release :: "bool \<Rightarrow> u32 \<times> u32 \<times> u64 \<Rightarrow> command_worker \<Rightarrow> command_worker" where
  "push_release releases_are_acks x w =
    (let (cid, h, seq) = x
     in send_ack (DrainAck cid h (floor_of (cw_floors w) cid) seq (if releases_are_acks then Acked else Released)) w)"

definition drop_consumer_state :: "u32 \<Rightarrow> command_worker \<Rightarrow> command_worker" where
  "drop_consumer_state cid w =
     send_removed cid
       (w\<lparr>cw_floors := remove_floor cid (cw_floors w),
          cw_pending_acks := filter (\<lambda>e. case e of DrainAck c _ _ _ _ \<Rightarrow> c \<noteq> cid | _ \<Rightarrow> True) (cw_pending_acks w)\<rparr>)"

definition apply_delta_and_sync :: "delta_events \<Rightarrow> bool \<Rightarrow> command_worker \<Rightarrow> command_worker option" where
  "apply_delta_and_sync delta releases_are_acks w =
    (let w1 = (if demand_became_available delta \<noteq> [] then gate_release w else w);
         w2 = (if subject_hashes_acked delta \<noteq> []
               then gate_release (fold (push_release releases_are_acks) (subject_hashes_acked delta) w1) else w1);
         w3 = (if pending_seqs_released delta \<noteq> []
               then gate_release (rewind (Min (set (pending_seqs_released delta))) w2) else w2)
     in case on_counters (ofold (\<lambda>(c, q, n). dec_inflight_bulk c q n) (inflight_released delta)) w3 of
          None \<Rightarrow> None
        | Some w4 \<Rightarrow>
          let w5 = fold drop_consumer_state (consumers_removed delta) w4;
              w6 = w5\<lparr>cw_bindings := filter (\<lambda>b. ab_binding_id b \<notin> set (bindings_retired delta)) (cw_bindings w5)\<rparr>
          in Some (if bindings_retired delta \<noteq> [] then rebuild_and_swap_snapshot w6 else w6))"

section \<open>Notifications of the drain\<close>

abbreviation wheel_tick_ms :: u64 where "wheel_tick_ms \<equiv> 100"

definition ensure_wheel :: "u64 \<Rightarrow> command_worker \<Rightarrow> command_worker" where
  "ensure_wheel now w =
    (case cw_wheel w of Some _ \<Rightarrow> w | None \<Rightarrow> w\<lparr>cw_wheel := hw_new wheel_tick_ms now\<rparr>)"

definition wheel_add :: "wheel_entry list \<Rightarrow> u64 \<Rightarrow> command_worker \<Rightarrow> command_worker" where
  "wheel_add es deadline w =
     w\<lparr>cw_wheel := map_option (fold (\<lambda>e wh. snd (hw_insert e deadline wh)) es) (cw_wheel w)\<rparr>"

definition wheel_insert_delivered :: "u64 \<Rightarrow> u32 \<Rightarrow> delivered_entry list \<Rightarrow> command_worker \<Rightarrow> command_worker" where
  "wheel_insert_delivered now consumer_id entries w =
    (let ack_wait_ms = (case cat_consumer (ec_catalog (cw_engine w)) consumer_id of
           Some c \<Rightarrow> ci_ack_wait_ms c | None \<Rightarrow> 0)
     in if ack_wait_ms = 0 then w
        else wheel_add (map (\<lambda>e. \<lparr>we_seq = de_seq e, we_consumer_id = consumer_id,
               we_subject_hash = de_subject_hash e, we_kind = AckTimeout\<rparr>) entries)
               (now + ack_wait_ms) (ensure_wheel now w))"

text \<open>The binding died between the flush and its notification: everything the drain recorded is reversed.\<close>

definition reverse_delivery ::
  "u32 \<Rightarrow> u32 \<Rightarrow> delivered_entry list \<Rightarrow> command_worker \<Rightarrow> command_worker option" where
  "reverse_delivery consumer_id queue_id entries w =
    (case on_counters (dec_inflight_bulk consumer_id queue_id (as_u32 (length entries))) w of
       None \<Rightarrow> None
     | Some w1 \<Rightarrow>
       let ack_floor = floor_of (cw_floors w1) consumer_id;
           w2 = fold (\<lambda>e. send_ack (DrainAck consumer_id (de_subject_hash e) ack_floor (de_seq e) Released)) entries w1
       in Some (gate_release (if entries = [] then w2 else rewind (Min (de_seq ` set entries)) w2)))"

definition dup_hashes :: "binding \<Rightarrow> delivered_entry list \<Rightarrow> u32 list" where
  "dup_hashes b entries =
    (if b_fire_and_forget b then []
     else map de_subject_hash (filter (\<lambda>e. hm_contains (b_pending b) (de_seq e)) entries))"

text \<open>The reconciliation events of duplicates are dropped when the ring is full.\<close>

definition reconcile_dups ::
  "u32 \<Rightarrow> u32 \<Rightarrow> u32 list \<Rightarrow> command_worker \<Rightarrow> command_worker option" where
  "reconcile_dups consumer_id queue_id dups w =
    (if dups = [] then Some w
     else case on_counters (dec_inflight_bulk consumer_id queue_id (as_u32 (length dups))) w of
       None \<Rightarrow> None
     | Some w1 \<Rightarrow>
       let ack_floor = floor_of (cw_floors w1) consumer_id
       in Some (gate_release (fold (\<lambda>h w. case try_send (DrainAck consumer_id h ack_floor 0 NoSuppressOp) w of
            Some w' \<Rightarrow> w' | None \<Rightarrow> w\<lparr>cw_drops := cw_drops w + 1\<rparr>) dups w1)))"

definition handle_delivered ::
  "u64 \<Rightarrow> u32 \<Rightarrow> u32 \<Rightarrow> u32 \<Rightarrow> delivered_entry list \<Rightarrow> command_worker \<Rightarrow> command_worker option" where
  "handle_delivered now binding_id consumer_id queue_id entries w =
    (case cat_binding (ec_catalog (cw_engine w)) binding_id of
       None \<Rightarrow> reverse_delivery consumer_id queue_id entries w
     | Some b \<Rightarrow>
       map_option (wheel_insert_delivered now consumer_id entries)
         (reconcile_dups consumer_id queue_id (dup_hashes b entries)
           (w\<lparr>cw_engine := fst (engine_apply (Delivered (b_stream_id b) binding_id entries) (cw_engine w))\<rparr>)))"

fun handle_notification :: "u64 \<Rightarrow> drain_notification \<Rightarrow> command_worker \<Rightarrow> command_worker option" where
  "handle_notification now (NotifyDelivered binding_id consumer_id queue_id entries) w =
    handle_delivered now binding_id consumer_id queue_id entries w"
| "handle_notification now (NotifyDead conn_id) w =
    (let (ctx, delta) = mark_connection_dead conn_id (cw_engine w)
     in apply_delta_and_sync delta False (w\<lparr>cw_engine := ctx\<rparr>))"

fun receive_all :: "u64 \<Rightarrow> drain_notification list \<Rightarrow> command_worker \<Rightarrow> command_worker option" where
  "receive_all now [] w = Some w"
| "receive_all now (n # ns) w =
    (case handle_notification now n (w\<lparr>cw_notify := ns\<rparr>) of
       None \<Rightarrow> None
     | Some w' \<Rightarrow> receive_all now ns w')"

definition drain_notifications :: "u64 \<Rightarrow> command_worker \<Rightarrow> command_worker option" where
  "drain_notifications now w = receive_all now (cw_notify w) w"

section \<open>Acknowledgements\<close>

record ack_cmd =
  ac_consumer_id :: u32
  ac_conn_id :: u64
  ac_entries :: "ack_entry list"

definition holds_entry :: "binding \<Rightarrow> ack_entry \<Rightarrow> bool" where
  "holds_entry b entry \<longleftrightarrow> b_stream_id b = ae_stream_id entry \<and> hm_contains (b_pending b) (ae_seq entry)"

definition record_matched :: "catalog \<Rightarrow> u64 \<Rightarrow> u32 \<Rightarrow> ack_entry \<Rightarrow> ack_floors \<Rightarrow> ack_floors" where
  "record_matched c conn consumer_id entry floors =
    (let hit = (if ae_sub_id entry \<noteq> 0
           then (case binding_for_subscription c conn (ae_sub_id entry) of Some b \<Rightarrow> holds_entry b entry | None \<Rightarrow> False)
           else list_ex (\<lambda>bid. case cat_binding c bid of Some b \<Rightarrow> holds_entry b entry | None \<Rightarrow> False)
             (bindings_for_consumer c consumer_id))
     in if hit then record_acked consumer_id (ae_seq entry) floors else floors)"

definition sync_inflight :: "u32 \<Rightarrow> u32 \<Rightarrow> command_worker \<Rightarrow> command_worker option" where
  "sync_inflight consumer_id matched w =
    (case cat_consumer (ec_catalog (cw_engine w)) consumer_id of
       None \<Rightarrow> Some w
     | Some consumer \<Rightarrow>
       if matched > 0 then on_counters (dec_inflight_bulk consumer_id (ci_queue_id consumer) matched) w else Some w)"

definition persist_cursor :: "u32 \<Rightarrow> ack_entry list \<Rightarrow> name_registry \<Rightarrow> name_registry" where
  "persist_cursor consumer_id entries names =
    (if entries = [] then names
     else let max_seq = Max (ae_seq ` set entries);
              cur = (case consumer_cursor names consumer_id of Some q \<Rightarrow> q | None \<Rightarrow> 0)
          in if max_seq > cur then snd (set_consumer_cursor consumer_id max_seq names) else names)"

text \<open>The body of \<^verbatim>\<open>handle_ack\<close> between the notifications and the reply.\<close>

definition ack_matched :: "ack_cmd \<Rightarrow> command_worker \<Rightarrow> command_worker option" where
  "ack_matched cmd w =
    (let cid = ac_consumer_id cmd;
         w1 = w\<lparr>cw_floors := fold (record_matched (ec_catalog (cw_engine w)) (ac_conn_id cmd) cid) (ac_entries cmd) (cw_floors w)\<rparr>;
         (ctx, delta) = engine_apply (command.Ack (ac_conn_id cmd) cid (ac_entries cmd)) (cw_engine w1);
         w2 = w1\<lparr>cw_nack_counts := fold (\<lambda>e. hm_remove (cid, ae_seq e)) (ac_entries cmd) (cw_nack_counts w1),
                cw_names := persist_cursor cid (ac_entries cmd) (cw_names w1), cw_engine := ctx\<rparr>;
         matched = as_u32 (length (subject_hashes_acked delta))
     in case sync_inflight cid matched w2 of
          None \<Rightarrow> None
        | Some w3 \<Rightarrow> apply_delta_and_sync delta True (if matched > 0 then gate_release w3 else w3))"

definition handle_ack :: "u64 \<Rightarrow> ack_cmd \<Rightarrow> command_worker \<Rightarrow> ((u32 \<times> u32) \<times> command_worker) option" where
  "handle_ack now cmd w =
    (let n = as_u32 (length (ac_entries cmd))
     in if \<not> connection_owns (ec_catalog (cw_engine w)) (ac_conn_id cmd) (ac_consumer_id cmd) (ac_entries cmd)
        then Some ((0, n), w)
        else map_option (\<lambda>w'. ((n, 0), w')) (Option.bind (drain_notifications now w) (ack_matched cmd)))"

text \<open>Counting the nacks of a consumer with a limit.  An entry over the limit starts again at zero and is
  moved behind the others.\<close>

definition count_nack ::
  "u32 \<Rightarrow> u32 \<Rightarrow> ack_entry \<Rightarrow> (u32 \<times> u64, u32) hmap \<times> ack_entry list \<times> ack_entry list \<Rightarrow>
   (u32 \<times> u64, u32) hmap \<times> ack_entry list \<times> ack_entry list" where
  "count_nack consumer_id max_nack entry st =
    (let (counts, dlq, keep) = st;
         key = (consumer_id, ae_seq entry);
         n = u32_add (get_or counts key 0) 1
     in if n > max_nack then (hm_remove key counts, dlq @ [entry], keep)
        else (hm_insert key n counts, dlq, keep @ [entry]))"

definition surviving_nacks :: "ack_cmd \<Rightarrow> command_worker \<Rightarrow> ack_entry list \<times> command_worker" where
  "surviving_nacks cmd w =
    (let max_nack = (case cat_consumer (ec_catalog (cw_engine w)) (ac_consumer_id cmd) of Some c \<Rightarrow> ci_max_nack c | None \<Rightarrow> 0)
     in if max_nack > 0
        then let (counts, dlq, keep) = fold (count_nack (ac_consumer_id cmd) max_nack) (ac_entries cmd) (cw_nack_counts w, [], [])
             in (keep @ dlq, w\<lparr>cw_nack_counts := counts\<rparr>)
        else (ac_entries cmd, w))"

definition delay_nack :: "u64 \<Rightarrow> u32 \<Rightarrow> u32 \<Rightarrow> ack_entry list \<Rightarrow> command_worker \<Rightarrow> command_worker" where
  "delay_nack now delay_ms consumer_id entries w =
     wheel_add (map (\<lambda>e. \<lparr>we_seq = ae_seq e, we_consumer_id = consumer_id, we_subject_hash = 0, we_kind = NackDelay\<rparr>) entries)
       (now + delay_ms) (ensure_wheel now w)"

text \<open>Both arms of \<^verbatim>\<open>handle_nack\<close>, on the entries that survived the counting.\<close>

definition nack_matched :: "u64 \<Rightarrow> u32 \<Rightarrow> u64 \<Rightarrow> u32 \<Rightarrow> ack_entry list \<Rightarrow> command_worker \<Rightarrow> command_worker option" where
  "nack_matched now delay_ms conn consumer_id entries w =
    (let (ctx, delta) = engine_apply (command.Nack conn consumer_id entries) (cw_engine w);
         matched = as_u32 (length (subject_hashes_acked delta))
     in case sync_inflight consumer_id matched (w\<lparr>cw_engine := ctx\<rparr>) of
          None \<Rightarrow> None
        | Some w1 \<Rightarrow> map_option (\<lambda>w2.
            if delay_ms > 0 then delay_nack now delay_ms consumer_id entries w2
            else if entries \<noteq> [] then gate_release (rewind (Min (ae_seq ` set entries)) w2)
            else w2) (apply_delta_and_sync delta False w1))"

definition handle_nack :: "u64 \<Rightarrow> u32 \<Rightarrow> ack_cmd \<Rightarrow> command_worker \<Rightarrow> ((u32 \<times> u32) \<times> command_worker) option" where
  "handle_nack now delay_ms cmd w =
    (let n = as_u32 (length (ac_entries cmd))
     in if \<not> connection_owns (ec_catalog (cw_engine w)) (ac_conn_id cmd) (ac_consumer_id cmd) (ac_entries cmd)
        then Some ((0, n), w)
        else
          let (keep, w1) = surviving_nacks cmd w;
              max_nack = (case cat_consumer (ec_catalog (cw_engine w)) (ac_consumer_id cmd) of Some c \<Rightarrow> ci_max_nack c | None \<Rightarrow> 0)
          in if max_nack > 0 \<and> keep = [] then Some ((0, 0), w1)
             else map_option (\<lambda>w'. ((as_u32 (length keep), 0), w'))
               (Option.bind (drain_notifications now w1)
                 (nack_matched now delay_ms (ac_conn_id cmd) (ac_consumer_id cmd) keep)))"

section \<open>Expired timers\<close>

text \<open>One expired entry: the engine, the shared counters, the collected events, the least number to go back
  to and the number of entries handled.\<close>

definition still_pending :: "catalog \<Rightarrow> u32 \<Rightarrow> u64 \<Rightarrow> bool" where
  "still_pending c consumer_id seq \<longleftrightarrow>
     list_ex (\<lambda>bid. case cat_binding c bid of Some b \<Rightarrow> is_pending b seq | None \<Rightarrow> False) (bindings_for_consumer c consumer_id)"

definition rewind_min :: "u64 \<Rightarrow> u64 option \<Rightarrow> u64 option" where
  "rewind_min seq m = Some (case m of None \<Rightarrow> seq | Some q \<Rightarrow> min q seq)"

definition expire_one ::
  "wheel_entry \<Rightarrow> command_worker \<times> delta_events \<times> u64 option \<Rightarrow> (command_worker \<times> delta_events \<times> u64 option) option" where
  "expire_one entry st =
    (let (w, merged, min_rewind) = st; c = ec_catalog (cw_engine w); cid = we_consumer_id entry in
     if we_kind entry = NackDelay then Some (w, merged, rewind_min (we_seq entry) min_rewind)
     else if \<not> still_pending c cid (we_seq entry) then Some st
     else
       let stream_id = (case cat_consumer c cid of Some ci \<Rightarrow> ci_stream_id ci | None \<Rightarrow> 0);
           (ctx, delta) = engine_apply (command.Nack 0 cid [\<lparr>ae_stream_id = stream_id, ae_seq = we_seq entry, ae_sub_id = 0\<rparr>])
             (cw_engine w);
           w1 = w\<lparr>cw_engine := ctx\<rparr>
       in map_option (\<lambda>w2. (w2, delta_merge merged delta, rewind_min (we_seq entry) min_rewind))
            (case cat_consumer (ec_catalog ctx) cid of
               None \<Rightarrow> Some w1
             | Some ci \<Rightarrow> on_counters (dec_inflight cid (ci_queue_id ci)) w1))"

definition wheel_advance :: "u64 \<Rightarrow> command_worker \<Rightarrow> command_worker option" where
  "wheel_advance now w =
    (case cw_wheel w of
       None \<Rightarrow> Some w
     | Some wheel \<Rightarrow>
       let (wheel', expired) = advance_to now wheel in
       case ofold expire_one expired (w\<lparr>cw_wheel := Some wheel'\<rparr>, delta_default, None) of
         None \<Rightarrow> None
       | Some (w1, merged, min_rewind) \<Rightarrow>
         (case (if delta_is_empty merged then Some w1 else apply_delta_and_sync merged False w1) of
            None \<Rightarrow> None
          | Some w2 \<Rightarrow> Some (case min_rewind of None \<Rightarrow> w2 | Some seq \<Rightarrow> gate_release (rewind seq w2))))"

section \<open>Retirement\<close>

definition dec_demands :: "u32 list \<Rightarrow> command_worker \<Rightarrow> command_worker option" where
  "dec_demands sids = on_counters (ofold (\<lambda>sid s. map_option snd (sh_dec_demand sid s)) sids)"

definition unsubscribe_one :: "u32 \<times> u32 \<Rightarrow> command_worker \<Rightarrow> command_worker option" where
  "unsubscribe_one x w =
    (let (bid, stream_id) = x;
         (ctx, delta) = unsubscribe bid (cw_engine w)
     in Option.bind (dec_demands [stream_id] (w\<lparr>cw_engine := ctx\<rparr>)) (apply_delta_and_sync delta False))"

definition handle_unsubscribe :: "u32 \<Rightarrow> command_worker \<Rightarrow> command_worker option" where
  "handle_unsubscribe subscription_id w =
     map_option rebuild_and_swap_snapshot
       (ofold unsubscribe_one
         (map (\<lambda>b. (ab_binding_id b, ab_stream_id b)) (filter (\<lambda>b. ab_consumer_id b = subscription_id) (cw_bindings w))) w)"

definition handle_delete_stream :: "u32 \<Rightarrow> command_worker \<Rightarrow> command_worker option" where
  "handle_delete_stream stream_id w =
    (case dec_demands (map ab_stream_id (filter (\<lambda>b. ab_stream_id b = stream_id) (cw_bindings w))) w of
       None \<Rightarrow> None
     | Some w1 \<Rightarrow>
       let (ctx, delta) = delete_stream stream_id (cw_engine w1)
       in map_option (\<lambda>w2. rebuild_and_swap_snapshot (w2\<lparr>cw_retention := hm_remove stream_id (cw_retention w2)\<rparr>))
            (apply_delta_and_sync delta False (w1\<lparr>cw_engine := ctx\<rparr>)))"

definition handle_delete_consumer :: "u32 \<Rightarrow> command_worker \<Rightarrow> command_worker option" where
  "handle_delete_consumer consumer_id w =
    (case dec_demands (map ab_stream_id (filter (\<lambda>b. ab_consumer_id b = consumer_id) (cw_bindings w))) w of
       None \<Rightarrow> None
     | Some w1 \<Rightarrow>
       let (ctx, delta) = delete_consumer consumer_id (cw_engine w1)
       in map_option (\<lambda>w2. rebuild_and_swap_snapshot (gate_release (send_removed consumer_id
              (w2\<lparr>cw_nack_counts := filter (\<lambda>x. fst (fst x) \<noteq> consumer_id) (cw_nack_counts w2)\<rparr>))))
            (apply_delta_and_sync delta False (w1\<lparr>cw_engine := ctx\<rparr>)))"

definition handle_drain_connection :: "u64 \<Rightarrow> u64 \<Rightarrow> command_worker \<Rightarrow> command_worker option" where
  "handle_drain_connection now connection_id w =
    (case Option.bind (drain_notifications now w) (\<lambda>w1.
         dec_demands (map ab_stream_id (filter (\<lambda>b. ab_connection_id b = connection_id) (cw_bindings w1))) w1) of
       None \<Rightarrow> None
     | Some w1 \<Rightarrow>
       let (ctx, delta) = mark_connection_dead connection_id (cw_engine w1)
       in map_option rebuild_and_swap_snapshot (apply_delta_and_sync delta False (w1\<lparr>cw_engine := ctx\<rparr>)))"

section \<open>Creation and subscription\<close>

text \<open>\<open>last_seq\<close> is the last number of the journal, and \<open>connected\<close> says which connections have a writer in
  the connection registry.\<close>

definition handle_create_stream :: "u64 \<Rightarrow> bool \<Rightarrow> stream_config \<Rightarrow> u64 \<Rightarrow> command_worker \<Rightarrow> bool \<times> command_worker" where
  "handle_create_stream last_seq replay_mode config max_age w =
    (let (r, ctx) = create_stream config (cw_engine w);
         ok = (\<not> isl r);
         w1 = w\<lparr>cw_engine := ctx\<rparr>
     in (ok, if ok \<and> \<not> hm_contains (cw_retention w1) (sc_id config)
             then rebuild_and_swap_snapshot (w1\<lparr>cw_retention := hm_insert (sc_id config)
               \<lparr>max_age_ms = max_age, created_at_seq = (if replay_mode then 0 else (last_seq + 1) mod 2 ^ 64)\<rparr>
               (cw_retention w1)\<rparr>)
             else w1))"

definition handle_create_consumer ::
  "(bytes \<Rightarrow> u32) \<Rightarrow> u64 \<Rightarrow> consumer_config \<Rightarrow> (bytes \<times> u32) list \<Rightarrow> command_worker \<Rightarrow> (nat \<times> u64) \<times> command_worker" where
  "handle_create_consumer hash last_seq config limits w =
    (let (r, ctx) = create_consumer config (cw_engine w)
     in case r of
          Inr True \<Rightarrow> ((1, last_seq), w\<lparr>cw_engine := fold (\<lambda>(pattern, limit) c.
            snd (engine_set_max_subject_inflight hash (cc_stream_id config) pattern limit c)) limits ctx\<rparr>)
        | Inr False \<Rightarrow> ((0, last_seq), w\<lparr>cw_engine := ctx\<rparr>)
        | Inl _ \<Rightarrow> ((2, last_seq), w\<lparr>cw_engine := ctx\<rparr>))"

definition handle_open_connection :: "u64 \<Rightarrow> u32 \<Rightarrow> command_worker \<Rightarrow> command_worker" where
  "handle_open_connection connection_id node_id w =
     w\<lparr>cw_engine := engine_open_connection connection_id node_id (cw_engine w)\<rparr>"

definition handle_pause_consumer :: "u32 \<Rightarrow> command_worker \<Rightarrow> (bool \<times> command_worker) option" where
  "handle_pause_consumer consumer_id w =
    (let (ok, ctx) = engine_pause_consumer consumer_id (cw_engine w); w1 = w\<lparr>cw_engine := ctx\<rparr>
     in if ok then map_option (Pair ok) (on_counters (sh_set_paused consumer_id True) w1) else Some (ok, w1))"

definition handle_resume_consumer :: "u32 \<Rightarrow> command_worker \<Rightarrow> (bool \<times> command_worker) option" where
  "handle_resume_consumer consumer_id w =
    (let (ok, ctx) = engine_resume_consumer consumer_id (cw_engine w); w1 = w\<lparr>cw_engine := ctx\<rparr>
     in if ok then map_option (\<lambda>w2. (ok, gate_release w2)) (on_counters (sh_set_paused consumer_id False) w1)
        else Some (ok, w1))"

definition deliver_floor_for :: "nat \<Rightarrow> u64 \<Rightarrow> u64" where
  "deliver_floor_for deliver_policy start_seq =
    (if deliver_policy = 1 then start_seq else if deliver_policy = 2 then start_seq - 1 else 0)"

record subscribe_cmd =
  sb_stream_config :: stream_config
  sb_consumer_config :: consumer_config
  sb_subscription_config :: subscription_config
  sb_connection_id :: u64
  sb_deliver_policy :: nat
  sb_start_seq :: u64

text \<open>The new binding is seeded, listed when its connection still has a writer, and counted as demand.\<close>

definition active_binding_for :: "catalog \<Rightarrow> subscribe_cmd \<Rightarrow> u32 \<Rightarrow> active_binding" where
  "active_binding_for c cmd binding_id =
    (let cid = cc_id (sb_consumer_config cmd); consumer = cat_consumer c cid
     in \<lparr>ab_binding_id = binding_id, ab_connection_id = sb_connection_id cmd, ab_consumer_id = cid,
         ab_subscription_id = uc_id (sb_subscription_config cmd), ab_group_idx = 2 ^ 32 - 1,
         ab_external_sub_id = (case cat_binding c binding_id of Some b \<Rightarrow> b_external_sub_id b | None \<Rightarrow> 0),
         ab_stream_id = (case consumer of Some ci \<Rightarrow> ci_stream_id ci | None \<Rightarrow> 0),
         ab_queue_id = (case consumer of Some ci \<Rightarrow> ci_queue_id ci | None \<Rightarrow> 0),
         ab_max_inflight = (case consumer of Some ci \<Rightarrow> ci_max_inflight ci | None \<Rightarrow> 2 ^ 32 - 1),
         ab_fire_and_forget = (case consumer of Some ci \<Rightarrow> ci_ack_policy ci = AckNone | None \<Rightarrow> False),
         ab_ack_wait_ms = (case consumer of Some ci \<Rightarrow> ci_ack_wait_ms ci | None \<Rightarrow> 0),
         ab_deliver_floor = deliver_floor_for (sb_deliver_policy cmd) (sb_start_seq cmd)\<rparr>)"

definition attach_binding :: "(u64 \<Rightarrow> bool) \<Rightarrow> subscribe_cmd \<Rightarrow> u32 \<Rightarrow> command_worker \<Rightarrow> command_worker option" where
  "attach_binding connected cmd binding_id w =
    (let b = active_binding_for (ec_catalog (cw_engine w)) cmd binding_id;
         w1 = (if ab_deliver_floor b > 0 then w\<lparr>cw_floors := seed (ab_consumer_id b) (ab_deliver_floor b) (cw_floors w)\<rparr> else w);
         w2 = (if connected (ab_connection_id b) then w1\<lparr>cw_bindings := cw_bindings w1 @ [b]\<rparr> else w1)
     in on_counters (\<lambda>s. map_option snd (sh_inc_demand (ab_stream_id b) s)) w2)"

definition position_cursor :: "subscribe_cmd \<Rightarrow> command_worker \<Rightarrow> command_worker" where
  "position_cursor cmd w =
    (let bump = (\<lambda>n. min (n + 1) (2 ^ 64 - 1)); policy = sb_deliver_policy cmd in
     if policy = 0 then
       rewind (bump (case consumer_cursor (cw_names w) (cc_id (sb_consumer_config cmd)) of Some q \<Rightarrow> q | None \<Rightarrow> 0)) w
     else if policy = 1 then rewind (bump (sb_start_seq cmd)) w
     else if policy = 2 then rewind (max (sb_start_seq cmd) 1) w
     else rewind 1 w)"

text \<open>The three entities of a subscription and whether each of them is there.\<close>

definition ensure_entities :: "(bytes \<Rightarrow> u32) \<Rightarrow> subscribe_cmd \<Rightarrow> engine_context \<Rightarrow> bool \<times> engine_context" where
  "ensure_entities hash cmd ctx =
    (let (r1, ctx1) = create_stream (sb_stream_config cmd) ctx;
         (r2, ctx2) = create_consumer (sb_consumer_config cmd) ctx1;
         (r3, ctx3) = create_subscription hash (sb_subscription_config cmd) ctx2
     in (\<not> isl r1 \<and> (case r2 of Inr _ \<Rightarrow> True | Inl e \<Rightarrow> engine_error_code e = ConsumerConfigMismatch) \<and> \<not> isl r3, ctx3))"

definition handle_subscribe ::
  "(bytes \<Rightarrow> u32) \<Rightarrow> (u64 \<Rightarrow> bool) \<Rightarrow> subscribe_cmd \<Rightarrow> command_worker \<Rightarrow> (bool \<times> command_worker) option" where
  "handle_subscribe hash connected cmd w =
    (let (ok, ctx) = ensure_entities hash cmd (cw_engine w) in
     if \<not> ok then Some (ok, w\<lparr>cw_engine := ctx\<rparr>)
     else
       let (r, ctx1, events) = engine_subscribe (sb_connection_id cmd) (uc_id (sb_subscription_config cmd)) ctx;
           w1 = w\<lparr>cw_engine := ctx1\<rparr>
       in map_option (\<lambda>w2.
            let w3 = w2\<lparr>cw_bindings := filter (\<lambda>b. ab_binding_id b \<notin> set (bindings_retired events)) (cw_bindings w2)\<rparr>
            in (ok, gate_release (rebuild_and_swap_snapshot (position_cursor cmd w3))))
          (case r of Inl _ \<Rightarrow> Some w1 | Inr binding_id \<Rightarrow> attach_binding connected cmd binding_id w1))"

section \<open>The head of the command loop\<close>

text \<open>Another attempt for the events that found the ring full; \<^verbatim>\<open>swap_remove(0)\<close> moves the last event to
  the front.\<close>

fun retry_acks :: "nat \<Rightarrow> u64 option \<Rightarrow> command_worker \<Rightarrow> u64 option \<times> command_worker" where
  "retry_acks 0 m w = (m, w)"
| "retry_acks (Suc n) m w =
    (case cw_pending_acks w of
       [] \<Rightarrow> (m, w)
     | e # es \<Rightarrow>
       (case try_send e w of
          None \<Rightarrow> (m, w)
        | Some w' \<Rightarrow>
          retry_acks n (case e of DrainAck _ _ _ seq Released \<Rightarrow> rewind_min seq m | _ \<Rightarrow> m)
            (w'\<lparr>cw_pending_acks := (if es = [] then [] else last es # butlast es)\<rparr>)))"

definition retry_pending_acks :: "command_worker \<Rightarrow> command_worker" where
  "retry_pending_acks w =
    (let (m, w1) = retry_acks (length (cw_pending_acks w)) None w;
         w2 = (case m of None \<Rightarrow> w1 | Some seq \<Rightarrow> rewind seq w1)
     in if length (cw_pending_acks w1) < length (cw_pending_acks w) then gate_release w2 else w2)"

fun retry_removes :: "nat \<Rightarrow> nat \<Rightarrow> command_worker \<Rightarrow> command_worker" where
  "retry_removes 0 i w = w"
| "retry_removes (Suc n) i w =
    (if i < length (cw_pending_remove w) then
       (case try_send (ConsumerRemoved (cw_pending_remove w ! i)) w of
          Some w' \<Rightarrow> retry_removes n i
            (w'\<lparr>cw_pending_remove := butlast ((cw_pending_remove w)[i := last (cw_pending_remove w)])\<rparr>)
        | None \<Rightarrow> retry_removes n (i + 1) w)
     else w)"

definition loop_head :: "u64 \<Rightarrow> command_worker \<Rightarrow> command_worker option" where
  "loop_head now w =
     map_option (\<lambda>w1. let w2 = retry_pending_acks w1 in retry_removes (length (cw_pending_remove w2)) 0 w2)
       (drain_notifications now w)"

end
