(* ===== verification/Shard_Sync.thy ===== *)
theory Shard_Sync
  imports Shard_Worker
begin

text \<open>
  The shared counters mirror the engine.  The drain counts a delivery when it flushes it, the engine
  when the notification arrives; so for every consumer and every queue the shared counter is the
  engine's counter plus the deliveries still in the notification ring.  Every handler of the command
  thread keeps this equation, and none of them panics.
\<close>

section \<open>Slots\<close>

abbreviation key_of :: "inflight_scope \<Rightarrow> u32 \<Rightarrow> u32 \<Rightarrow> u32" where
  "key_of sc c q \<equiv> (case sc of Consumer \<Rightarrow> c | Queue \<Rightarrow> q)"

definition shared_get :: "shared_counters \<Rightarrow> inflight_scope \<Rightarrow> u32 \<Rightarrow> u32" where
  "shared_get s sc k = (case sc of Consumer \<Rightarrow> sh_consumer s ! k | Queue \<Rightarrow> sh_queue s ! k)"

definition sized :: "shared_counters \<Rightarrow> bool" where
  "sized s \<longleftrightarrow> length (sh_consumer s) = slots \<and> length (sh_queue s) = slots \<and> length (sh_demand s) = slots \<and>
     length (sh_paused s) = slots"

definition in_slots :: "u32 \<times> u32 \<times> u32 \<Rightarrow> bool" where
  "in_slots x \<longleftrightarrow> fst x < slots \<and> fst (snd x) < slots"

lemma on_inflight_get:
  assumes "sized s" "c < slots" "q < slots"
  shows "\<exists>s'. on_inflight f c q s = Some s' \<and> sized s' \<and>
    (\<forall>sc k. k < slots \<longrightarrow> shared_get s' sc k = (if k = key_of sc c q then f (shared_get s sc k) else shared_get s sc k))"
  using assms by (auto simp: on_inflight_def slot_update_def sized_def shared_get_def nth_list_update split: inflight_scope.split)

lemma dec_bulk_get:
  assumes "sized s" "c < slots" "q < slots"
  shows "\<exists>s'. dec_inflight_bulk c q n s = Some s' \<and> sized s' \<and>
    (\<forall>sc k. k < slots \<longrightarrow> shared_get s' sc k = shared_get s sc k - (if k = key_of sc c q then n else 0))"
proof -
  obtain s' where s: "on_inflight (saturating_dec n) c q s = Some s'" "sized s'" and
    g: "\<And>sc k. k < slots \<Longrightarrow> shared_get s' sc k =
        (if k = key_of sc c q then saturating_dec n (shared_get s sc k) else shared_get s sc k)"
    using on_inflight_get [OF assms, of "saturating_dec n"] by blast
  have "shared_get s' sc k = shared_get s sc k - (if k = key_of sc c q then n else 0)" if "k < slots" for sc k
    using g [OF that, of sc] by (simp add: saturating_dec_def)
  then show ?thesis using s by (auto simp: dec_inflight_bulk_def)
qed

definition released :: "inflight_scope \<Rightarrow> u32 \<Rightarrow> (u32 \<times> u32 \<times> u32) list \<Rightarrow> nat" where
  "released sc k rs = sum_list (map (\<lambda>(c, q, n). if k = key_of sc c q then n else 0) rs)"

lemma released_simps [simp]:
  "released sc k [] = 0"
  "released sc k (x # rs) = (case x of (c, q, n) \<Rightarrow> if k = key_of sc c q then n else 0) + released sc k rs"
  "released sc k (rs @ rs') = released sc k rs + released sc k rs'"
  by (simp_all add: released_def)

lemma dec_all_get:
  assumes "sized s" "list_all in_slots rs"
  shows "\<exists>s'. ofold (\<lambda>(c, q, n). dec_inflight_bulk c q n) rs s = Some s' \<and> sized s' \<and>
    (\<forall>sc k. k < slots \<longrightarrow> shared_get s' sc k = shared_get s sc k - released sc k rs)"
  using assms
proof (induction rs arbitrary: s)
  case (Cons x rs)
  obtain c q n where x: "x = (c, q, n)" by (cases x)
  obtain s1 where s1: "dec_inflight_bulk c q n s = Some s1" "sized s1"
    "\<And>sc k. k < slots \<Longrightarrow> shared_get s1 sc k = shared_get s sc k - (if k = key_of sc c q then n else 0)"
    using dec_bulk_get [of s c q n] Cons.prems by (auto simp: x in_slots_def)
  obtain s2 where "ofold (\<lambda>(c, q, n). dec_inflight_bulk c q n) rs s1 = Some s2" "sized s2"
    "\<And>sc k. k < slots \<Longrightarrow> shared_get s2 sc k = shared_get s1 sc k - released sc k rs"
    using Cons.IH [OF s1(2)] Cons.prems(2) by auto
  then show ?case using s1 by (auto simp: x)
qed simp

section \<open>Steps that leave the counting alone\<close>

definition near :: "command_worker \<Rightarrow> command_worker \<Rightarrow> bool" where
  "near w w' \<longleftrightarrow> cw_engine w' = cw_engine w \<and> cw_notify w' = cw_notify w \<and>
     sh_consumer (cw_counters w') = sh_consumer (cw_counters w) \<and> sh_queue (cw_counters w') = sh_queue (cw_counters w) \<and>
     length (sh_demand (cw_counters w')) = length (sh_demand (cw_counters w)) \<and>
     length (sh_paused (cw_counters w')) = length (sh_paused (cw_counters w)) \<and> set (cw_bindings w') \<subseteq> set (cw_bindings w)"

lemma near_refl [simp]: "near w w"
  by (simp add: near_def)

lemma near_trans: "near a b \<Longrightarrow> near b c \<Longrightarrow> near a c"
  by (auto simp: near_def)

lemma near_fold: "(\<And>x w. near w (f x w)) \<Longrightarrow> near w (fold f xs w)"
  by (induction xs arbitrary: w) (auto intro: near_trans)

lemma near_gate [simp]: "near w (gate_release w') \<longleftrightarrow> near w w'"
  by (simp add: near_def)

lemma near_rewind [simp]: "near w (rewind q w') \<longleftrightarrow> near w w'"
  by (simp add: near_def rewind_released_def signal_rewind_def set_cursor_def)

lemma near_send: "near w (send_ack e w)" "near w (send_removed cid w)"
  by (simp_all add: near_def send_ack_def send_removed_def try_send_def)

lemma near_push_release: "near w (push_release acks x w)"
  by (simp add: push_release_def Let_def case_prod_beta near_send)

lemma near_drop_consumer_state: "near w (drop_consumer_state cid w)"
  unfolding drop_consumer_state_def by (rule near_trans [OF _ near_send(2)]) (simp add: near_def)

lemma near_rebuild: "near w (rebuild_and_swap_snapshot w)"
  by (simp add: near_def rebuild_and_swap_snapshot_def)

lemma near_wheel:
  "near w (wheel_add es d w)" "near w (ensure_wheel now w)" "near w (wheel_insert_delivered now cid ds w)"
  "near w (delay_nack now d cid as w)"
  by (simp_all add: near_def wheel_add_def ensure_wheel_def wheel_insert_delivered_def delay_nack_def Let_def split: option.split)

lemma near_get: "near w w' \<Longrightarrow> shared_get (cw_counters w') = shared_get (cw_counters w)"
  by (simp add: near_def shared_get_def fun_eq_iff split: inflight_scope.split)

lemma near_sized: "near w w' \<Longrightarrow> sized (cw_counters w') = sized (cw_counters w)"
  by (simp add: near_def sized_def)

section \<open>Applying the events\<close>

text \<open>\<open>paid w w' r\<close>: the counters fall by \<open>r\<close>, the engine and the queue stay.\<close>

definition paid :: "(inflight_scope \<Rightarrow> u32 \<Rightarrow> nat) \<Rightarrow> command_worker \<Rightarrow> command_worker \<Rightarrow> bool" where
  "paid r w w' \<longleftrightarrow> cw_engine w' = cw_engine w \<and> cw_notify w' = cw_notify w \<and> set (cw_bindings w') \<subseteq> set (cw_bindings w) \<and>
     sized (cw_counters w') \<and>
     (\<forall>sc k. k < slots \<longrightarrow> shared_get (cw_counters w') sc k = shared_get (cw_counters w) sc k - r sc k)"

lemma near_paid: "near a b \<Longrightarrow> paid r b c \<Longrightarrow> paid r a c"
  using near_get [of a b] by (auto simp: paid_def near_def)

lemma paid_near: "paid r a b \<Longrightarrow> near b c \<Longrightarrow> paid r a c"
  using near_get [of b c] near_sized [of b c] by (auto simp: paid_def near_def)

lemma paid_dec:
  assumes "sized (cw_counters w)" "c < slots" "q < slots"
  shows "\<exists>w'. on_counters (dec_inflight_bulk c q n) w = Some w' \<and> paid (\<lambda>sc k. if k = key_of sc c q then n else 0) w w'"
  using dec_bulk_get [OF assms, of n] by (auto simp: paid_def)

lemma apply_delta_paid:
  assumes "sized (cw_counters w)" "list_all in_slots (inflight_released delta)"
  shows "\<exists>w'. apply_delta_and_sync delta acks w = Some w' \<and> paid (\<lambda>sc k. released sc k (inflight_released delta)) w w'"
proof -
  define w1 where "w1 = (if demand_became_available delta \<noteq> [] then gate_release w else w)"
  define w2 where "w2 = (if subject_hashes_acked delta \<noteq> []
    then gate_release (fold (push_release acks) (subject_hashes_acked delta) w1) else w1)"
  define w3 where "w3 = (if pending_seqs_released delta \<noteq> []
    then gate_release (rewind (Min (set (pending_seqs_released delta))) w2) else w2)"
  have n1: "near w w1" by (simp add: w1_def)
  have n2: "near w1 w2" by (simp add: w2_def near_fold near_push_release)
  have n3: "near w2 w3" by (simp add: w3_def)
  have n: "near w w3" using n1 n2 n3 near_trans by blast
  obtain s where s: "ofold (\<lambda>(c, q, n). dec_inflight_bulk c q n) (inflight_released delta) (cw_counters w3) = Some s"
    "sized s" "\<And>sc k. k < slots \<Longrightarrow> shared_get s sc k = shared_get (cw_counters w3) sc k - released sc k (inflight_released delta)"
    using dec_all_get [OF _ assms(2), of "cw_counters w3"] near_sized [OF n] assms(1) by auto
  let ?w4 = "w3\<lparr>cw_counters := s\<rparr>"
  define w5 where "w5 = fold drop_consumer_state (consumers_removed delta) ?w4"
  define w6 where "w6 = w5\<lparr>cw_bindings := filter (\<lambda>b. ab_binding_id b \<notin> set (bindings_retired delta)) (cw_bindings w5)\<rparr>"
  have "paid (\<lambda>sc k. released sc k (inflight_released delta)) w3 ?w4" using s by (simp add: paid_def)
  moreover have "near ?w4 w5" by (simp add: w5_def near_fold near_drop_consumer_state)
  moreover have "near w5 w6" by (auto simp: w6_def near_def)
  ultimately have p: "paid (\<lambda>sc k. released sc k (inflight_released delta)) w w6"
    using near_paid [OF n] paid_near near_trans by blast
  have "apply_delta_and_sync delta acks w =
      Some (if bindings_retired delta \<noteq> [] then rebuild_and_swap_snapshot w6 else w6)"
    unfolding apply_delta_and_sync_def Let_def w1_def [symmetric]
    unfolding w2_def [symmetric] unfolding w3_def [symmetric]
    by (simp add: s(1) w5_def w6_def)
  then show ?thesis using p paid_near [OF p near_rebuild] by simp
qed

section \<open>Catalogues that only lose\<close>

definition shrinks :: "catalog \<Rightarrow> catalog \<Rightarrow> bool" where
  "shrinks c c' \<longleftrightarrow> next_binding_id c' = next_binding_id c \<and>
    (\<forall>cid ci. slot_get (consumers c') cid = Some ci \<longrightarrow> slot_get (consumers c) cid = Some ci) \<and>
    (\<forall>k bid. hm_get (by_conn_subscription c') k = Some bid \<longrightarrow> hm_get (by_conn_subscription c) k = Some bid) \<and>
    (\<forall>i b'. live c' i = Some b' \<longrightarrow> (\<exists>b. live c i = Some b \<and> same_keys b b'))"

lemma shrinks_refl [simp]: "shrinks c c"
  using same_keys_refl by (auto simp: shrinks_def)

lemma shrinks_trans: "shrinks a b \<Longrightarrow> shrinks b c \<Longrightarrow> shrinks a c"
  unfolding shrinks_def by (elim conjE, intro conjI) (simp, blast+, meson same_keys_trans)

lemma shrinks_shape:
  "same_shape c c' \<Longrightarrow> next_binding_id c' = next_binding_id c \<Longrightarrow> consumers c' = consumers c \<Longrightarrow> shrinks c c'"
  by (simp add: same_shape_def shrinks_def)

lemma shrinks_retired: "shrinks c (retired bid c ev)"
proof (cases "live c bid")
  case None
  then show ?thesis by (simp add: retired_def retire_None)
next
  case (Some b)
  then show ?thesis
    by (auto simp: shrinks_def live_retired retire_Some(7,9,12) hm_get_remove split: if_splits)
qed

lemma shrinks_same:
  assumes "bindings c' = bindings c" "by_conn_subscription c' = by_conn_subscription c" "next_binding_id c' = next_binding_id c"
    "\<And>cid ci. slot_get (consumers c') cid = Some ci \<Longrightarrow> slot_get (consumers c) cid = Some ci"
  shows "shrinks c c'"
  using assms same_keys_refl by (auto simp: shrinks_def live_def)

lemma live_shrinks:
  assumes "shrinks c c'" "live c' i = Some b'"
  obtains b where "live c i = Some b" "b_consumer_id b' = b_consumer_id b" "b_queue_id b' = b_queue_id b"
    "b_fire_and_forget b' = b_fire_and_forget b"
proof -
  obtain b where b: "live c i = Some b" "same_keys b b'" using assms unfolding shrinks_def by blast
  show ?thesis by (rule that [OF b(1)]) (rule same_keysD [OF b(2)])+
qed

lemma shrinks_next: "shrinks c c' \<Longrightarrow> next_binding_id c' = next_binding_id c"
  by (simp add: shrinks_def)

lemma owned_shrinks: "shrinks c c' \<Longrightarrow> owned cid c bid \<Longrightarrow> owned cid c' bid"
  by (auto simp: owned_def elim: live_shrinks)

lemma mine_shrinks: "shrinks c c' \<Longrightarrow> mine conn cid c ack \<Longrightarrow> mine conn cid c' ack"
  unfolding mine_def using owned_shrinks by (auto simp: shrinks_def)

text \<open>The numbers of every live binding are in range, and a queued notification for a live binding carries
  its numbers.\<close>

definition ids_ok :: "catalog \<Rightarrow> bool" where
  "ids_ok c \<longleftrightarrow> (\<forall>bid b. live c bid = Some b \<longrightarrow> b_consumer_id b < slots \<and> b_queue_id b < slots)"

text \<open>The numbers of the consumers are in range.\<close>

definition cons_ok :: "catalog \<Rightarrow> bool" where
  "cons_ok c \<longleftrightarrow> (\<forall>cid ci. slot_get (consumers c) cid = Some ci \<longrightarrow>
     cid < slots \<and> ci_queue_id ci < slots \<and> ci_stream_id ci < slots)"

lemma cons_ok_ids:
  assumes "ent_inv hash F c" "cons_ok c"
  shows "ids_ok c"
  unfolding ids_ok_def
proof (intro allI impI)
  fix bid b
  assume b: "live c bid = Some b"
  obtain u where u: "hm_get (subscriptions c) (b_subscription_id b) = Some u" "ui_consumer_id u = b_consumer_id b"
    "queue_of c (b_consumer_id b) = b_queue_id b"
    using ent_invD(5) [OF assms(1) b] by auto
  obtain ci where "slot_get (consumers c) (b_consumer_id b) = Some ci" using ent_invD(3) [OF assms(1) u(1)] u(2) by auto
  then show "b_consumer_id b < slots \<and> b_queue_id b < slots"
    using assms(2) u(3) by (fastforce simp: cons_ok_def queue_of_def)
qed

lemma cons_ok_shrinks: "shrinks c c' \<Longrightarrow> cons_ok c \<Longrightarrow> cons_ok c'"
  unfolding shrinks_def cons_ok_def by blast

definition note_ok :: "catalog \<Rightarrow> drain_notification \<Rightarrow> bool" where
  "note_ok c n \<longleftrightarrow> (case n of
     NotifyDead _ \<Rightarrow> True
   | NotifyDelivered bid cid q es \<Rightarrow> bid < next_binding_id c \<and> cid < slots \<and> q < slots \<and> distinct (map de_seq es) \<and>
       (\<forall>b. live c bid = Some b \<longrightarrow> b_consumer_id b = cid \<and> b_queue_id b = q \<and> \<not> b_fire_and_forget b))"

lemma ids_ok_shrinks: "shrinks c c' \<Longrightarrow> ids_ok c \<Longrightarrow> ids_ok c'"
  unfolding ids_ok_def by (metis live_shrinks)

lemma note_ok_shrinks: "shrinks c c' \<Longrightarrow> note_ok c n \<Longrightarrow> note_ok c' n"
  unfolding note_ok_def by (cases n) (auto dest: shrinks_next elim: live_shrinks)

section \<open>The invariant\<close>

definition undelivered :: "inflight_scope \<Rightarrow> u32 \<Rightarrow> drain_notification list \<Rightarrow> nat" where
  "undelivered sc k ns = sum_list (map (\<lambda>n. case n of
     NotifyDead _ \<Rightarrow> 0 | NotifyDelivered bid c q es \<Rightarrow> if k = key_of sc c q then length es else 0) ns)"

lemma undelivered_simps [simp]:
  "undelivered sc k [] = 0"
  "undelivered sc k (NotifyDead c # ns) = undelivered sc k ns"
  "undelivered sc k (NotifyDelivered bid c q es # ns) = (if k = key_of sc c q then length es else 0) + undelivered sc k ns"
  by (simp_all add: undelivered_def)

definition in_sync :: "engine_context \<Rightarrow> shared_counters \<Rightarrow> drain_notification list \<Rightarrow> bool" where
  "in_sync ctx s ns \<longleftrightarrow> (\<forall>sc k. k < slots \<longrightarrow>
     shared_get s sc k = inflight_get (ec_inflight ctx) sc k + undelivered sc k ns \<and>
     inflight_get (ec_inflight ctx) sc k + undelivered sc k ns < 2 ^ 32)"

definition worker_ok :: "(bytes \<Rightarrow> u32) \<Rightarrow> bytes set \<Rightarrow> slack \<Rightarrow> command_worker \<Rightarrow> bool" where
  "worker_ok hash F L w \<longleftrightarrow> eng_inv hash F L (cw_engine w) \<and> sized (cw_counters w) \<and>
     in_sync (cw_engine w) (cw_counters w) (cw_notify w) \<and> cons_ok (ec_catalog (cw_engine w)) \<and>
     list_all (note_ok (ec_catalog (cw_engine w))) (cw_notify w) \<and> list_all (\<lambda>b. ab_stream_id b < slots) (cw_bindings w)"

lemma worker_near: "worker_ok hash F L w \<Longrightarrow> near w w' \<Longrightarrow> worker_ok hash F L w'"
  using near_get [of w w'] near_sized [of w w'] by (auto simp: worker_ok_def in_sync_def near_def list_all_iff)

text \<open>The engine moves to \<open>ctx\<close> and the queue to \<open>ns\<close>; then the counters fall by \<open>r\<close>.\<close>

lemma worker_paid:
  assumes "worker_ok hash F L w" "paid r (w\<lparr>cw_engine := ctx, cw_notify := ns\<rparr>) w'" "eng_inv hash F L ctx"
    "shrinks (ec_catalog (cw_engine w)) (ec_catalog ctx)" "set ns \<subseteq> set (cw_notify w)"
    and r: "\<And>sc k. k < slots \<Longrightarrow> inflight_get (ec_inflight ctx) sc k + undelivered sc k ns + r sc k =
      inflight_get (ec_inflight (cw_engine w)) sc k + undelivered sc k (cw_notify w)"
  shows "worker_ok hash F L w'"
proof -
  have "in_sync ctx (cw_counters w') ns"
    unfolding in_sync_def
  proof (intro allI impI)
    fix sc k
    assume k: "k < slots"
    have "shared_get (cw_counters w') sc k = shared_get (cw_counters w) sc k - r sc k"
      using assms(2) k by (simp add: paid_def)
    moreover have "shared_get (cw_counters w) sc k = inflight_get (ec_inflight (cw_engine w)) sc k + undelivered sc k (cw_notify w)"
      "inflight_get (ec_inflight (cw_engine w)) sc k + undelivered sc k (cw_notify w) < 2 ^ 32"
      using assms(1) k by (simp_all add: worker_ok_def in_sync_def)
    ultimately show "shared_get (cw_counters w') sc k = inflight_get (ec_inflight ctx) sc k + undelivered sc k ns \<and>
        inflight_get (ec_inflight ctx) sc k + undelivered sc k ns < 2 ^ 32"
      using r [OF k, of sc] by linarith
  qed
  moreover have "list_all (note_ok (ec_catalog ctx)) ns"
    using assms(1,5) note_ok_shrinks [OF assms(4)] by (auto simp: worker_ok_def list_all_iff)
  moreover have "cons_ok (ec_catalog ctx)"
    using assms(1) cons_ok_shrinks [OF assms(4)] by (simp add: worker_ok_def)
  ultimately show ?thesis
    using assms(1,2,3) by (auto simp: worker_ok_def paid_def list_all_iff)
qed

section \<open>Retiring bindings\<close>

text \<open>While bindings are retired, what the engine's counters lose is what the events report.\<close>

definition retire_ok ::
  "(bytes \<Rightarrow> u32) \<Rightarrow> bytes set \<Rightarrow> slack \<Rightarrow> engine_context \<Rightarrow> engine_context \<times> delta_events \<Rightarrow> bool" where
  "retire_ok hash F L ctx st \<longleftrightarrow> eng_inv hash F L (fst st) \<and> shrinks (ec_catalog ctx) (ec_catalog (fst st)) \<and>
     list_all in_slots (inflight_released (snd st)) \<and>
     (\<forall>sc k. k < slots \<longrightarrow> inflight_get (ec_inflight (fst st)) sc k + released sc k (inflight_released (snd st)) =
        inflight_get (ec_inflight ctx) sc k)"

definition bounded :: "engine_context \<Rightarrow> bool" where
  "bounded ctx \<longleftrightarrow> ids_ok (ec_catalog ctx) \<and> (\<forall>sc k. k < slots \<longrightarrow> inflight_get (ec_inflight ctx) sc k < 2 ^ 32)"

lemma worker_bounded:
  assumes "worker_ok hash F L w"
  shows "bounded (cw_engine w)"
proof -
  have "ids_ok (ec_catalog (cw_engine w))"
    by (rule cons_ok_ids) (use assms in \<open>auto simp: worker_ok_def eng_inv_def cat_inv_def\<close>)
  then show ?thesis using assms unfolding worker_ok_def bounded_def in_sync_def by (meson add_lessD1)
qed

lemma retire_ok_start: "eng_inv hash F L ctx \<Longrightarrow> retire_ok hash F L ctx (ctx, delta_default)"
  by (simp add: retire_ok_def delta_default_def)

lemma fold_release_released:
  "inflight_released (snd (fold (release_pending c q) ps st)) = inflight_released (snd st)"
  by (induction ps arbitrary: st) (simp_all add: release_pending_def)

lemma cat_retire_released: "inflight_released (snd (snd (cat_retire_binding bid c ev))) = inflight_released ev"
  by (auto simp: cat_retire_binding_def dec_demand_def Let_def case_prod_beta split: option.split)

lemma retire_binding_released:
  assumes "live (ec_catalog (fst st)) bid = Some b"
  shows "inflight_released (snd (retire_binding bid st)) = inflight_released (snd st) @
    (if length (b_pending b) mod 2 ^ 32 > 0 then [(b_consumer_id b, b_queue_id b, length (b_pending b) mod 2 ^ 32)] else [])"
proof -
  obtain cat ev where r: "cat_retire_binding bid (ec_catalog (fst st)) (snd st) = (Some b, cat, ev)"
    using retire_Some(1) [OF assms, of "snd st"] by (cases "cat_retire_binding bid (ec_catalog (fst st)) (snd st)") auto
  have "inflight_released ev = inflight_released (snd st)"
    using cat_retire_released [of bid "ec_catalog (fst st)" "snd st"] by (simp add: r)
  then show ?thesis
    by (simp add: retire_binding_def r Let_def case_prod_beta fold_release_released)
qed

lemma retire_ok_binding:
  assumes ok: "retire_ok hash F L ctx st" and bd: "bounded ctx"
  shows "retire_ok hash F L ctx (retire_binding bid st)"
proof (cases "live (ec_catalog (fst st)) bid")
  case None
  then show ?thesis using ok by (simp add: retire_binding_None)
next
  case (Some b)
  let ?st = "retire_binding bid st"
  have inv: "eng_inv hash F L (fst st)" and sh: "shrinks (ec_catalog ctx) (ec_catalog (fst st))"
    using ok by (simp_all add: retire_ok_def)
  have ids: "b_consumer_id b < slots" "b_queue_id b < slots"
  proof -
    have "ids_ok (ec_catalog (fst st))" using ids_ok_shrinks [OF sh] bd by (simp add: bounded_def)
    then show "b_consumer_id b < slots" "b_queue_id b < slots" using Some by (auto simp: ids_ok_def)
  qed
  have le: "length (b_pending b) \<le> inflight_get (ec_inflight (fst st)) sc (skey sc b)" for sc
    using load_del [OF Some live_finite, of sc "skey sc b"] inv by (simp add: eng_inv_def credit_def)
  have key: "key_of sc (b_consumer_id b) (b_queue_id b) = skey sc b" for sc by (simp add: skey_def)
  have bal: "inflight_get (ec_inflight (fst st)) sc k + released sc k (inflight_released (snd st)) =
      inflight_get (ec_inflight ctx) sc k" if "k < slots" for sc k
    using ok that by (simp add: retire_ok_def)
  have "inflight_get (ec_inflight ctx) Consumer (b_consumer_id b) < 2 ^ 32"
    using bd ids(1) unfolding bounded_def by blast
  moreover have "length (b_pending b) \<le> inflight_get (ec_inflight (fst st)) Consumer (b_consumer_id b)"
    using le [of Consumer] by (simp add: skey_def)
  ultimately have "length (b_pending b) < 2 ^ 32"
    using bal [OF ids(1), of Consumer] by linarith
  then have lt: "length (b_pending b) mod 2 ^ 32 = length (b_pending b)" by (rule mod_less)
  have rel: "released sc k (inflight_released (snd ?st)) =
      released sc k (inflight_released (snd st)) + (if k = skey sc b then length (b_pending b) else 0)" for sc k
    unfolding retire_binding_released [OF Some] lt by (simp add: key)
  have get: "inflight_get (ec_inflight (fst ?st)) sc k =
      inflight_get (ec_inflight (fst st)) sc k - (if k = skey sc b then length (b_pending b) else 0)" for sc k
    unfolding retire_binding_Some(2) [OF Some] infl.get_dec2_n key ..
  have "inflight_get (ec_inflight (fst ?st)) sc k + released sc k (inflight_released (snd ?st)) =
      inflight_get (ec_inflight ctx) sc k" if "k < slots" for sc k
    unfolding rel get using bal [OF that, of sc] le [of sc] by (cases "k = skey sc b") simp_all
  moreover have "list_all in_slots (inflight_released (snd ?st))"
    using ok ids by (simp add: retire_ok_def retire_binding_released [OF Some] in_slots_def)
  moreover have "shrinks (ec_catalog ctx) (ec_catalog (fst ?st))"
    using shrinks_trans [OF sh shrinks_retired] by (simp add: retire_binding_catalog)
  ultimately show ?thesis using eng_inv_retire [OF inv] by (simp add: retire_ok_def)
qed

lemma retire_ok_fold:
  "retire_ok hash F L ctx st \<Longrightarrow> bounded ctx \<Longrightarrow> retire_ok hash F L ctx (fold retire_binding bids st)"
  by (induction bids arbitrary: st) (simp_all add: retire_ok_binding)

text \<open>Operations on the entities of the catalogue, which leave the bindings and the counters.\<close>

lemma retire_ok_catalog:
  assumes "retire_ok hash F L ctx st" "eng_inv hash F L ctx'" "ec_inflight ctx' = ec_inflight (fst st)"
    "bindings (ec_catalog ctx') = bindings (ec_catalog (fst st))"
    "by_conn_subscription (ec_catalog ctx') = by_conn_subscription (ec_catalog (fst st))"
    "next_binding_id (ec_catalog ctx') = next_binding_id (ec_catalog (fst st))"
    "\<And>cid ci. slot_get (consumers (ec_catalog ctx')) cid = Some ci \<Longrightarrow> slot_get (consumers (ec_catalog (fst st))) cid = Some ci"
    "inflight_released ev = inflight_released (snd st)"
  shows "retire_ok hash F L ctx (ctx', ev)"
  using assms shrinks_trans [OF _ shrinks_same] by (auto simp: retire_ok_def)

lemma entity_by_conn_subscription:
  "by_conn_subscription (snd (remove_subscription_entity sid c)) = by_conn_subscription c"
  "by_conn_subscription (snd (remove_consumer_entity cid c)) = by_conn_subscription c"
  "by_conn_subscription (snd (remove_stream_entity eid c)) = by_conn_subscription c"
  "next_binding_id (snd (remove_subscription_entity sid c)) = next_binding_id c"
  "next_binding_id (snd (remove_consumer_entity cid c)) = next_binding_id c"
  "next_binding_id (snd (remove_stream_entity eid c)) = next_binding_id c"
  by (auto simp: remove_subscription_entity_def match_table_mut_def remove_consumer_entity_def remove_stream_entity_def
      Let_def split: option.split)

lemma removed_subs_by_conn:
  "by_conn_subscription (ec_catalog (removed_subs sids ctx)) = by_conn_subscription (ec_catalog ctx)"
  "next_binding_id (ec_catalog (removed_subs sids ctx)) = next_binding_id (ec_catalog ctx)"
  by (induction sids arbitrary: ctx) (simp_all add: removed_subs_def on_catalog_def entity_by_conn_subscription)

lemma stripped_sel:
  "ec_inflight (stripped cid st) = ec_inflight (fst (retire_bindings_for_consumer cid st))"
  "bindings (ec_catalog (stripped cid st)) = bindings (ec_catalog (fst (retire_bindings_for_consumer cid st)))"
  "by_conn_subscription (ec_catalog (stripped cid st)) =
    by_conn_subscription (ec_catalog (fst (retire_bindings_for_consumer cid st)))"
  "next_binding_id (ec_catalog (stripped cid st)) = next_binding_id (ec_catalog (fst (retire_bindings_for_consumer cid st)))"
  "consumers (ec_catalog (stripped cid st)) = consumers (ec_catalog (fst (retire_bindings_for_consumer cid st)))"
  by (simp_all add: stripped_alt removed_subs_sel removed_subs_by_conn)

lemma drop_consumer_snd: "snd (drop_consumer cid st) = snd (retire_bindings_for_consumer cid st)"
  by (simp add: drop_consumer_def Let_def case_prod_beta)

lemma retire_ok_drop_consumer:
  assumes "retire_ok hash F L ctx st" "bounded ctx"
  shows "retire_ok hash F L ctx (drop_consumer cid st)"
proof -
  have inv: "eng_inv hash F L (fst st)" using assms(1) by (simp add: retire_ok_def)
  have "retire_ok hash F L ctx (retire_bindings_for_consumer cid st)"
    unfolding retire_bindings_for_consumer_def by (rule retire_ok_fold [OF assms])
  then have "retire_ok hash F L ctx (fst (drop_consumer cid st), snd (drop_consumer cid st))"
    by (rule retire_ok_catalog [OF _ drop_consumer(1) [OF inv]])
      (simp_all add: drop_consumer_fst drop_consumer_snd on_catalog_def stripped_sel remove_consumer_sel
        entity_by_conn_subscription split: if_splits)
  then show ?thesis by simp
qed

lemma retire_ok_drop_consumers:
  "retire_ok hash F L ctx st \<Longrightarrow> bounded ctx \<Longrightarrow> retire_ok hash F L ctx (fold drop_consumer cids st)"
  by (induction cids arbitrary: st) (simp_all add: retire_ok_drop_consumer)

lemma retire_ok_events:
  "retire_ok hash F L ctx st \<Longrightarrow> inflight_released ev = inflight_released (snd st) \<Longrightarrow> retire_ok hash F L ctx (fst st, ev)"
  by (simp add: retire_ok_def)

lemma retire_ok_unsubscribe:
  "eng_inv hash F L ctx \<Longrightarrow> bounded ctx \<Longrightarrow> retire_ok hash F L ctx (unsubscribe bid ctx)"
  unfolding unsubscribe_def by (intro retire_ok_binding retire_ok_start)

lemma retire_ok_mark_dead:
  assumes "eng_inv hash F L ctx" "bounded ctx"
  shows "retire_ok hash F L ctx (mark_connection_dead conn ctx)"
proof -
  let ?st = "retire_bindings_for_connection conn (ctx, delta_default)"
  have "retire_ok hash F L ctx ?st"
    unfolding retire_bindings_for_connection_def by (intro retire_ok_fold retire_ok_start assms)
  then have "retire_ok hash F L ctx (fst (mark_connection_dead conn ctx), snd (mark_connection_dead conn ctx))"
    by (rule retire_ok_catalog [OF _ mark_connection_dead(1) [OF assms(1)]])
      (simp_all add: mark_connection_dead_def Let_def case_prod_beta on_catalog_def remove_connection_entity_def)
  then show ?thesis by simp
qed

lemma retire_ok_delete_consumer:
  assumes "eng_inv hash F L ctx" "bounded ctx"
  shows "retire_ok hash F L ctx (delete_consumer cid ctx)"
proof -
  have "retire_ok hash F L ctx (drop_consumer cid (ctx, delta_default))"
    by (intro retire_ok_drop_consumer retire_ok_start assms)
  then have "retire_ok hash F L ctx (fst (drop_consumer cid (ctx, delta_default)), snd (delete_consumer cid ctx))"
    by (rule retire_ok_events)
      (simp add: delete_consumer_def drop_consumer_snd Let_def case_prod_beta split: sum.split)
  then show ?thesis by (simp add: delete_consumer_drop [symmetric])
qed

lemma retire_ok_delete_stream:
  assumes "eng_inv hash F L ctx" "bounded ctx"
  shows "retire_ok hash F L ctx (delete_stream eid ctx)"
proof -
  let ?cids = "consumers_for_stream (ec_catalog ctx) eid"
  let ?st = "fold drop_consumer ?cids (ctx, delta_default)"
  let ?ev = "(snd ?st)\<lparr>consumers_removed := consumers_removed (snd ?st) @ ?cids\<rparr>"
  have "retire_ok hash F L ctx ?st" by (intro retire_ok_drop_consumers retire_ok_start assms)
  then have "retire_ok hash F L ctx (fst ?st, ?ev)" by (rule retire_ok_events) simp
  then have "retire_ok hash F L ctx (retire_bindings_for_stream eid (fst ?st, ?ev))"
    unfolding retire_bindings_for_stream_def by (rule retire_ok_fold [OF _ assms(2)])
  then have "retire_ok hash F L ctx (fst (delete_stream eid ctx), snd (delete_stream eid ctx))"
    by (rule retire_ok_catalog [OF _ delete_stream(1) [OF assms(1)]])
      (simp_all add: delete_stream_def Let_def case_prod_beta on_catalog_def remove_stream_sel entity_by_conn_subscription)
  then show ?thesis by simp
qed

text \<open>Applying the events of a retirement.\<close>

lemma worker_settle:
  assumes "worker_ok hash F L w" "retire_ok hash F L (cw_engine w) (ctx, delta)"
  shows "\<exists>w'. apply_delta_and_sync delta acks (w\<lparr>cw_engine := ctx\<rparr>) = Some w' \<and> worker_ok hash F L w' \<and>
    cw_engine w' = ctx \<and> cw_notify w' = cw_notify w"
proof -
  let ?r = "\<lambda>sc k. released sc k (inflight_released delta)"
  obtain w' where w': "apply_delta_and_sync delta acks (w\<lparr>cw_engine := ctx\<rparr>) = Some w'"
    "paid ?r (w\<lparr>cw_engine := ctx\<rparr>) w'"
    using apply_delta_paid [of "w\<lparr>cw_engine := ctx\<rparr>" delta acks] assms by (auto simp: worker_ok_def retire_ok_def)
  have "worker_ok hash F L w'"
    by (rule worker_paid [where r = ?r and ctx = ctx and ns = "cw_notify w", OF assms(1)])
      (use w'(2) assms(2) in \<open>simp_all add: retire_ok_def\<close>)
  then show ?thesis using w' by (auto simp: paid_def)
qed

section \<open>Releasing acknowledged entries\<close>

text \<open>Both counters of the consumer fall by the number of the matched entries.\<close>

definition acked_ok ::
  "(bytes \<Rightarrow> u32) \<Rightarrow> bytes set \<Rightarrow> slack \<Rightarrow> engine_context \<Rightarrow> u32 \<Rightarrow> engine_context \<Rightarrow> delta_events \<Rightarrow> bool" where
  "acked_ok hash F L ctx cid ctx' ev \<longleftrightarrow> eng_inv hash F L ctx' \<and> same_shape (ec_catalog ctx) (ec_catalog ctx') \<and>
     consumers (ec_catalog ctx') = consumers (ec_catalog ctx) \<and>
     next_binding_id (ec_catalog ctx') = next_binding_id (ec_catalog ctx) \<and> inflight_released ev = [] \<and>
     (\<forall>sc k. inflight_get (ec_inflight ctx') sc k +
        (if k = key_of sc cid (queue_of (ec_catalog ctx) cid) then length (subject_hashes_acked ev) else 0) =
        inflight_get (ec_inflight ctx) sc k) \<and>
     (subject_hashes_acked ev \<noteq> [] \<longrightarrow>
        (\<exists>bid b. live (ec_catalog ctx) bid = Some b \<and> b_consumer_id b = cid))"

lemma acked_ok_try:
  assumes ok: "acked_ok hash F L ctx cid (as_ctx st) (as_events st)" and own: "owned cid (ec_catalog ctx) bid"
    and r: "try_release cid ack bid st = Some st'"
  shows "acked_ok hash F L ctx cid (as_ctx st') (as_events st')"
proof -
  let ?c = "ec_catalog ctx" and ?c1 = "ec_catalog (as_ctx st)"
  have ao: "ack_ok hash F L ?c st" using ok by (simp add: acked_ok_def ack_ok_def)
  have ao': "ack_ok hash F L ?c st'" by (rule ack_ok_try [OF ao r own])
  obtain b p where b: "live ?c1 bid = Some b" "hm_get (b_pending b) (ae_seq ack) = Some p"
    "as_ctx st' = (as_ctx st)\<lparr>ec_catalog := pending_mut bid (hm_remove (ae_seq ack)) ?c1,
       ec_inflight := dec_pending cid (b_queue_id b) (ec_inflight (as_ctx st))\<rparr>"
    "subject_hashes_acked (as_events st') = subject_hashes_acked (as_events st) @ [(cid, p_subject_hash p, p_seq p)]"
    using r by (rule try_release_Some)
  have ev: "inflight_released (as_events st') = inflight_released (as_events st)"
    using r by (auto simp: try_release_def split: option.splits if_splits)
  have inv: "eng_inv hash F L (as_ctx st)" using ok by (simp add: acked_ok_def)
  have cid: "b_consumer_id b = cid"
    using owned_shape [OF _ own, of ?c1] ok b(1) by (simp add: acked_ok_def owned_def)
  obtain b0 where b0: "live ?c bid = Some b0" "same_keys b0 b"
    using ok b(1) unfolding acked_ok_def same_shape_def by blast
  have "ent_inv hash F ?c1" using inv by (simp add: eng_inv_def cat_inv_def)
  then have "queue_of ?c1 (b_consumer_id b) = b_queue_id b" using ent_invD(5) b(1) by blast
  then have q: "b_queue_id b = queue_of ?c cid" using ok cid by (simp add: acked_ok_def queue_of_def)
  have "0 < length (b_pending b)" using b(2) by (cases "b_pending b") auto
  then have pos: "0 < inflight_get (ec_inflight (as_ctx st)) sc (skey sc b)" for sc
    using load_del [OF b(1) live_finite, of sc "skey sc b"] inv by (simp add: eng_inv_def credit_def)
  have key: "key_of sc cid (queue_of ?c cid) = skey sc b" for sc by (simp add: skey_def cid q split: inflight_scope.split)
  have "inflight_get (ec_inflight (as_ctx st')) sc k + (if k = skey sc b then length (subject_hashes_acked (as_events st')) else 0) =
      inflight_get (ec_inflight ctx) sc k" for sc k
  proof -
    have bal: "inflight_get (ec_inflight (as_ctx st)) sc k +
        (if k = skey sc b then length (subject_hashes_acked (as_events st)) else 0) = inflight_get (ec_inflight ctx) sc k"
      using ok by (simp add: acked_ok_def key)
    show ?thesis using bal pos [of sc] by (cases "k = skey sc b") (simp_all add: b(3,4) q infl.get_dec2 key)
  qed
  moreover have "\<exists>bid b. live ?c bid = Some b \<and> b_consumer_id b = cid"
    using b0(1) same_keysD(1) [OF b0(2)] cid by auto
  moreover have "consumers (ec_catalog (as_ctx st')) = consumers ?c" "next_binding_id (ec_catalog (as_ctx st')) = next_binding_id ?c"
    "inflight_released (as_events st') = []"
    using ok by (simp_all add: acked_ok_def b(3) ev)
  ultimately show ?thesis using ao' unfolding acked_ok_def key ack_ok_def by blast
qed

lemma acked_ok_release:
  assumes inv: "eng_inv hash F L ctx" and mine: "list_all (mine conn cid (ec_catalog ctx)) acks"
  shows "acked_ok hash F L ctx cid (as_ctx (release_entries conn cid acks ctx)) (as_events (release_entries conn cid acks ctx))"
  unfolding release_entries_def Let_def
proof (rule release_fold_induct [where T = "owned cid (ec_catalog ctx)"
      and Q = "\<lambda>st. acked_ok hash F L ctx cid (as_ctx st) (as_events st)"])
  have i: "idx_inv (ec_catalog ctx)" using inv by (simp add: eng_inv_def cat_inv_def)
  then show "list_all (owned cid (ec_catalog ctx)) (bindings_for_consumer (ec_catalog ctx) cid)"
    by (rule owned_bindings_for_consumer)
  show "owned cid (ec_catalog ctx) bid"
    if "acked_ok hash F L ctx cid (as_ctx st) (as_events st)" "ack \<in> set acks" "ae_sub_id ack \<noteq> 0"
      "binding_id_for_subscription (ec_catalog (as_ctx st)) conn (ae_sub_id ack) = Some bid" for st ack bid
    using that mine by (auto simp: acked_ok_def same_shape_def list_all_iff mine_def binding_id_for_subscription_def)
qed (use inv acked_ok_try in \<open>simp_all add: acked_ok_def [of _ _ _ _ _ ctx] delta_default_def\<close>)

lemma acked_ok_metrics:
  "acked_ok hash F L (on_metrics f ctx) cid ctx' ev = acked_ok hash F L ctx cid ctx' ev"
  "acked_ok hash F L ctx cid (on_metrics f ctx') ev = acked_ok hash F L ctx cid ctx' ev"
proof -
  have e: "ec_catalog (on_metrics f ctx) = ec_catalog ctx" "ec_inflight (on_metrics f ctx) = ec_inflight ctx" for ctx
    by (simp_all add: on_metrics_def)
  show "acked_ok hash F L (on_metrics f ctx) cid ctx' ev = acked_ok hash F L ctx cid ctx' ev"
    "acked_ok hash F L ctx cid (on_metrics f ctx') ev = acked_ok hash F L ctx cid ctx' ev"
    unfolding acked_ok_def eng_inv_metrics e by (rule refl)+
qed

lemma acked_ok_apply:
  assumes "eng_inv hash F L ctx" "list_all (mine conn cid (ec_catalog ctx)) acks"
  shows "acked_ok hash F L ctx cid (fst (engine_apply (command.Ack conn cid acks) ctx))
      (snd (engine_apply (command.Ack conn cid acks) ctx))"
    and "acked_ok hash F L ctx cid (fst (engine_apply (command.Nack conn cid acks) ctx))
      (snd (engine_apply (command.Nack conn cid acks) ctx))"
proof -
  have "acked_ok hash F L ctx cid (as_ctx (release_entries conn cid acks (on_metrics f ctx)))
      (as_events (release_entries conn cid acks (on_metrics f ctx)))" for f
    using acked_ok_release [of hash F L "on_metrics f ctx" conn cid acks] assms
    by (simp add: acked_ok_metrics) (simp add: on_metrics_def)
  then show "acked_ok hash F L ctx cid (fst (engine_apply (command.Ack conn cid acks) ctx))
      (snd (engine_apply (command.Ack conn cid acks) ctx))"
    "acked_ok hash F L ctx cid (fst (engine_apply (command.Nack conn cid acks) ctx))
      (snd (engine_apply (command.Nack conn cid acks) ctx))"
    by (simp_all add: engine_apply_def Let_def acked_ok_metrics)
qed

lemma worker_apply_quiet:
  assumes "worker_ok hash F L w" "inflight_released delta = []"
  shows "\<exists>w'. apply_delta_and_sync delta acks w = Some w' \<and> worker_ok hash F L w' \<and>
    cw_engine w' = cw_engine w \<and> cw_notify w' = cw_notify w"
proof -
  have "retire_ok hash F L (cw_engine w) (cw_engine w, delta)"
    using assms by (simp add: retire_ok_def worker_ok_def)
  from worker_settle [OF assms(1) this, of acks] show ?thesis by simp
qed

lemma worker_sync_inflight:
  assumes ok: "worker_ok hash F L w" and a: "acked_ok hash F L (cw_engine w) cid ctx delta"
  shows "\<exists>w'. sync_inflight cid (as_u32 (length (subject_hashes_acked delta))) (w\<lparr>cw_engine := ctx\<rparr>) = Some w' \<and>
    worker_ok hash F L w' \<and> cw_engine w' = ctx \<and> cw_notify w' = cw_notify w"
proof -
  let ?c = "ec_catalog (cw_engine w)" and ?w = "w\<lparr>cw_engine := ctx\<rparr>"
  define n where "n = length (subject_hashes_acked delta)"
  let ?r = "\<lambda>sc k. if k = key_of sc cid (queue_of ?c cid) then n else 0"
  have inv: "eng_inv hash F L (cw_engine w)" and bd: "bounded (cw_engine w)"
    using ok worker_bounded by (auto simp: worker_ok_def)
  have bal: "inflight_get (ec_inflight ctx) sc k + ?r sc k = inflight_get (ec_inflight (cw_engine w)) sc k" for sc k
    using a unfolding acked_ok_def n_def by blast
  have fin: "worker_ok hash F L w'" if "paid ?r ?w w'" for w'
    by (rule worker_paid [where r = ?r and ctx = ctx and ns = "cw_notify w", OF ok])
      (use that a bal shrinks_shape in \<open>auto simp: acked_ok_def\<close>)
  show ?thesis
  proof (cases "n = 0")
    case True
    then have "paid ?r ?w ?w" using ok by (simp add: paid_def worker_ok_def)
    from fin [OF this] show ?thesis
      using True by (auto simp: sync_inflight_def n_def as_u32_def split: option.split)
  next
    case False
    then obtain bid b where b: "live ?c bid = Some b" "b_consumer_id b = cid"
      using a by (auto simp: acked_ok_def n_def)
    have e: "ent_inv hash F ?c" using inv by (simp add: eng_inv_def cat_inv_def)
    obtain u where u: "hm_get (subscriptions ?c) (b_subscription_id b) = Some u" "ui_consumer_id u = cid"
      "queue_of ?c cid = b_queue_id b"
      using ent_invD(5) [OF e b(1)] b(2) by auto
    obtain ci where ci: "slot_get (consumers ?c) cid = Some ci" using ent_invD(3) [OF e u(1)] u(2) by auto
    have lt: "cid < slots" "queue_of ?c cid < slots" using bd b u(3) by (auto simp: bounded_def ids_ok_def)
    have "n \<le> inflight_get (ec_inflight (cw_engine w)) Consumer cid" using bal [of Consumer cid] by simp
    moreover have "inflight_get (ec_inflight (cw_engine w)) Consumer cid < 2 ^ 32" using bd lt(1) unfolding bounded_def by blast
    ultimately have "n < 2 ^ 32" by (rule le_less_trans)
    then have nm: "as_u32 n = n" by (simp add: as_u32_def)
    have "slot_get (consumers (ec_catalog ctx)) cid = Some ci" using ci a by (simp add: acked_ok_def)
    moreover have "ci_queue_id ci = queue_of ?c cid" using ci by (simp add: queue_of_def)
    ultimately have "sync_inflight cid n ?w = on_counters (dec_inflight_bulk cid (queue_of ?c cid) n) ?w"
      using False by (simp add: sync_inflight_def cat_consumer_def)
    moreover have "sized (cw_counters ?w)" using ok by (simp add: worker_ok_def)
    ultimately obtain w' where w': "sync_inflight cid n ?w = Some w'" "paid ?r ?w w'"
      using paid_dec [OF _ lt, of ?w n] by auto
    then have "cw_engine w' = ctx" "cw_notify w' = cw_notify w" by (simp_all add: paid_def)
    then show ?thesis using w' fin [OF w'(2)] by (simp add: nm n_def [symmetric])
  qed
qed

lemma ack_matched_ok:
  assumes ok: "worker_ok hash F L w"
    and mine: "list_all (mine (ac_conn_id cmd) (ac_consumer_id cmd) (ec_catalog (cw_engine w))) (ac_entries cmd)"
  shows "\<exists>w'. ack_matched cmd w = Some w' \<and> worker_ok hash F L w'"
proof -
  let ?cid = "ac_consumer_id cmd" and ?es = "ac_entries cmd"
  define w1 where "w1 = w\<lparr>cw_floors := fold (record_matched (ec_catalog (cw_engine w)) (ac_conn_id cmd) ?cid) ?es (cw_floors w),
    cw_nack_counts := fold (\<lambda>e. hm_remove (?cid, ae_seq e)) ?es (cw_nack_counts w),
    cw_names := persist_cursor ?cid ?es (cw_names w)\<rparr>"
  obtain ctx delta where e: "engine_apply (command.Ack (ac_conn_id cmd) ?cid ?es) (cw_engine w) = (ctx, delta)" by fastforce
  let ?m = "as_u32 (length (subject_hashes_acked delta))"
  have ok1: "worker_ok hash F L w1" by (rule worker_near [OF ok]) (simp add: near_def w1_def)
  have "eng_inv hash F L (cw_engine w)" using ok by (simp add: worker_ok_def)
  from acked_ok_apply(1) [OF this mine] have a: "acked_ok hash F L (cw_engine w1) ?cid ctx delta"
    by (simp add: e w1_def)
  obtain w2 where w2: "sync_inflight ?cid ?m (w1\<lparr>cw_engine := ctx\<rparr>) = Some w2" "worker_ok hash F L w2"
    using worker_sync_inflight [OF ok1 a] by blast
  let ?w3 = "if ?m > 0 then gate_release w2 else w2"
  have ok3: "worker_ok hash F L ?w3" by (rule worker_near [OF w2(2)]) simp
  have "inflight_released delta = []" using a by (simp add: acked_ok_def)
  from worker_apply_quiet [OF ok3 this, of True]
  obtain w4 where "apply_delta_and_sync delta True ?w3 = Some w4" "worker_ok hash F L w4" by blast
  moreover have "ack_matched cmd w = (case sync_inflight ?cid ?m (w1\<lparr>cw_engine := ctx\<rparr>) of
      None \<Rightarrow> None | Some w3 \<Rightarrow> apply_delta_and_sync delta True (if ?m > 0 then gate_release w3 else w3))"
    by (simp add: ack_matched_def e w1_def Let_def)
  ultimately show ?thesis by (simp add: w2(1))
qed

lemma nack_matched_ok:
  assumes ok: "worker_ok hash F L w" and mine: "list_all (mine conn cid (ec_catalog (cw_engine w))) es"
  shows "\<exists>w'. nack_matched now d conn cid es w = Some w' \<and> worker_ok hash F L w'"
proof -
  obtain ctx delta where e: "engine_apply (command.Nack conn cid es) (cw_engine w) = (ctx, delta)" by fastforce
  let ?m = "as_u32 (length (subject_hashes_acked delta))"
  have "eng_inv hash F L (cw_engine w)" using ok by (simp add: worker_ok_def)
  from acked_ok_apply(2) [OF this mine] have a: "acked_ok hash F L (cw_engine w) cid ctx delta" by (simp add: e)
  obtain w1 where w1: "sync_inflight cid ?m (w\<lparr>cw_engine := ctx\<rparr>) = Some w1" "worker_ok hash F L w1"
    using worker_sync_inflight [OF ok a] by blast
  have "inflight_released delta = []" using a by (simp add: acked_ok_def)
  from worker_apply_quiet [OF w1(2) this, of False]
  obtain w2 where w2: "apply_delta_and_sync delta False w1 = Some w2" "worker_ok hash F L w2" by blast
  let ?w3 = "if d > 0 then delay_nack now d cid es w2
    else if es \<noteq> [] then gate_release (rewind (Min (ae_seq ` set es)) w2) else w2"
  have "near w2 ?w3" by (simp add: near_wheel)
  then have "worker_ok hash F L ?w3" by (rule worker_near [OF w2(2)])
  moreover have "nack_matched now d conn cid es w = Some ?w3" by (simp add: nack_matched_def e w1(1) w2(1))
  ultimately show ?thesis by blast
qed

section \<open>Deliveries\<close>

definition fresh :: "binding \<Rightarrow> delivered_entry list \<Rightarrow> delivered_entry list" where
  "fresh b es = filter (\<lambda>e. \<not> hm_contains (b_pending b) (de_seq e)) es"

lemma dups_fresh: "\<not> b_fire_and_forget b \<Longrightarrow> length (dup_hashes b es) + length (fresh b es) = length es"
  by (simp add: dup_hashes_def fresh_def sum_length_filter_compl)

lemma deliver_fold_count:
  assumes "live (ec_catalog ctx) bid = Some b" "distinct (map de_seq es)"
    "\<And>sc. inflight_get (ec_inflight ctx) sc (skey sc b) + length es < 2 ^ 32"
  shows "shrinks (ec_catalog ctx) (ec_catalog (fold (deliver_entry bid (b_consumer_id b) (b_queue_id b)) es ctx)) \<and>
    (\<forall>sc k. inflight_get (ec_inflight (fold (deliver_entry bid (b_consumer_id b) (b_queue_id b)) es ctx)) sc k =
      inflight_get (ec_inflight ctx) sc k + (if k = skey sc b then length (fresh b es) else 0))"
  using assms
proof (induction es arbitrary: ctx b)
  case (Cons e es)
  let ?d = "deliver_entry bid (b_consumer_id b) (b_queue_id b)"
  have key: "key_of sc (b_consumer_id b) (b_queue_id b) = skey sc b" for sc by (simp add: skey_def)
  show ?case
  proof (cases "hm_contains (b_pending b) (de_seq e)")
    case True
    then have d: "?d e ctx = ctx" using deliver_entry_dup [OF Cons.prems(1)] by (simp add: hm_contains_get)
    have "inflight_get (ec_inflight ctx) sc (skey sc b) + length es < 2 ^ 32" for sc
      using Cons.prems(3) [of sc] by simp
    from Cons.IH [OF Cons.prems(1) _ this] show ?thesis using Cons.prems(2) True by (simp add: d fresh_def)
  next
    case False
    let ?p = "\<lparr>p_seq = de_seq e, p_subject_hash = de_subject_hash e, p_deliveries = 1\<rparr>"
    let ?b = "b\<lparr>b_pending := hm_insert (de_seq e) ?p (b_pending b)\<rparr>"
    have d: "?d e ctx = ctx\<lparr>ec_catalog := pending_mut bid (hm_insert (de_seq e) ?p) (ec_catalog ctx),
        ec_inflight := inc_pending (b_consumer_id b) (b_queue_id b) (ec_inflight ctx)\<rparr>"
      using deliver_entry_new [OF Cons.prems(1), of e "b_consumer_id b" "b_queue_id b"] False by (simp add: hm_contains_get)
    have l: "live (ec_catalog (?d e ctx)) bid = Some ?b" using Cons.prems(1) by (simp add: d live_pending_mut)
    have g: "inflight_get (ec_inflight (?d e ctx)) sc k = inflight_get (ec_inflight ctx) sc k + (if k = skey sc b then 1 else 0)"
      for sc k
      using Cons.prems(3) [of sc] by (simp add: d infl.get_inc2 key u32_add_def)
    have f: "fresh ?b es = fresh b es" using Cons.prems(2)
      by (auto simp: fresh_def hm_contains_get hm_get_insert intro!: filter_cong) (metis image_eqI)
    have room: "inflight_get (ec_inflight (?d e ctx)) sc (skey sc ?b) + length es < 2 ^ 32" for sc
      using Cons.prems(3) [of sc] by (simp add: g)
    have "shrinks (ec_catalog ctx) (ec_catalog (?d e ctx))" by (simp add: d same_shape_mut shrinks_shape)
    moreover have ih: "shrinks (ec_catalog (?d e ctx)) (ec_catalog (fold ?d es (?d e ctx))) \<and>
        (\<forall>sc k. inflight_get (ec_inflight (fold ?d es (?d e ctx))) sc k =
          inflight_get (ec_inflight (?d e ctx)) sc k + (if k = skey sc b then length (fresh b es) else 0))"
      using Cons.IH [OF l _ room] Cons.prems(2) by (simp add: f [simplified])
    moreover have "length (fresh b (e # es)) = Suc (length (fresh b es))" using False by (simp add: fresh_def)
    ultimately show ?thesis by (auto simp: g intro: shrinks_trans)
  qed
qed (simp add: fresh_def)

lemma apply_delivered_count:
  fixes sid
  assumes b: "live (ec_catalog ctx) bid = Some b" "\<not> b_fire_and_forget b" and "distinct (map de_seq es)"
    and room: "\<And>sc. inflight_get (ec_inflight ctx) sc (skey sc b) + length es < 2 ^ 32"
  defines "ctx' \<equiv> fst (engine_apply (Delivered sid bid es) ctx)"
  shows "eng_inv hash F L ctx \<Longrightarrow> eng_inv hash F L ctx'" "shrinks (ec_catalog ctx) (ec_catalog ctx')"
    "inflight_get (ec_inflight ctx') sc k =
      inflight_get (ec_inflight ctx) sc k + (if k = skey sc b then length (fresh b es) else 0)"
proof -
  have "deliver_room ctx bid (length es)"
    using b room [of Consumer] room [of Queue] by (simp add: deliver_room_def cat_binding_def live_def skey_def)
  then show "eng_inv hash F L ctx \<Longrightarrow> eng_inv hash F L ctx'"
    unfolding ctx'_def by (intro eng_inv_apply_delivered_cmd)
  let ?m = "on_metrics (\<lambda>m. m\<lparr>claim_entries_delivered := claim_entries_delivered m + length es\<rparr>) ctx"
  have m: "ec_catalog ?m = ec_catalog ctx" "ec_inflight ?m = ec_inflight ctx" by (simp_all add: on_metrics_def)
  have "ctx' = fold (deliver_entry bid (b_consumer_id b) (b_queue_id b)) es ?m"
    using b by (simp add: ctx'_def engine_apply_def apply_delivered_def cat_binding_def m live_def)
  then show "shrinks (ec_catalog ctx) (ec_catalog ctx')"
    "inflight_get (ec_inflight ctx') sc k =
      inflight_get (ec_inflight ctx) sc k + (if k = skey sc b then length (fresh b es) else 0)"
    using deliver_fold_count [of ?m bid b es] assms(3) b room by (simp_all add: m)
qed

section \<open>Notifications\<close>

lemma reverse_delivery_paid:
  assumes "sized (cw_counters w)" "cid < slots" "q < slots" "length es < 2 ^ 32"
  shows "\<exists>w'. reverse_delivery cid q es w = Some w' \<and> paid (\<lambda>sc k. if k = key_of sc cid q then length es else 0) w w'"
proof -
  have u: "as_u32 (length es) = length es" using assms(4) by (simp add: as_u32_def)
  obtain w1 where w1: "on_counters (dec_inflight_bulk cid q (length es)) w = Some w1"
    "paid (\<lambda>sc k. if k = key_of sc cid q then length es else 0) w w1"
    using paid_dec [OF assms(1-3)] by blast
  let ?w2 = "fold (\<lambda>e. send_ack (DrainAck cid (de_subject_hash e) (floor_of (cw_floors w1) cid) (de_seq e) Released)) es w1"
  let ?w3 = "gate_release (if es = [] then ?w2 else rewind (Min (de_seq ` set es)) ?w2)"
  have "near w1 ?w3" by (simp add: near_fold near_send)
  moreover have "reverse_delivery cid q es w = Some ?w3"
    unfolding reverse_delivery_def u w1(1) by (simp add: Let_def)
  ultimately show ?thesis using paid_near [OF w1(2)] by blast
qed

lemma reconcile_dups_paid:
  assumes "sized (cw_counters w)" "cid < slots" "q < slots" "length dups < 2 ^ 32"
  shows "\<exists>w'. reconcile_dups cid q dups w = Some w' \<and> paid (\<lambda>sc k. if k = key_of sc cid q then length dups else 0) w w'"
proof (cases "dups = []")
  case True
  then show ?thesis using assms(1) by (simp add: reconcile_dups_def paid_def)
next
  case False
  have u: "as_u32 (length dups) = length dups" using assms(4) by (simp add: as_u32_def)
  obtain w1 where w1: "on_counters (dec_inflight_bulk cid q (length dups)) w = Some w1"
    "paid (\<lambda>sc k. if k = key_of sc cid q then length dups else 0) w w1"
    using paid_dec [OF assms(1-3)] by blast
  let ?f = "\<lambda>h w. case try_send (DrainAck cid h (floor_of (cw_floors w1) cid) 0 NoSuppressOp) w of
    Some w' \<Rightarrow> w' | None \<Rightarrow> w\<lparr>cw_drops := cw_drops w + 1\<rparr>"
  have "near w (?f h w)" for h w by (simp add: try_send_def near_def)
  then have "near w1 (gate_release (fold ?f dups w1))" by (simp add: near_fold)
  moreover have "reconcile_dups cid q dups w = Some (gate_release (fold ?f dups w1))"
    using False unfolding reconcile_dups_def u w1(1) by simp
  ultimately show ?thesis using paid_near [OF w1(2)] by blast
qed

definition handled :: "(bytes \<Rightarrow> u32) \<Rightarrow> bytes set \<Rightarrow> slack \<Rightarrow> command_worker \<Rightarrow> drain_notification list \<Rightarrow> command_worker option \<Rightarrow> bool" where
  "handled hash F L w ns r \<longleftrightarrow> (\<exists>w'. r = Some w' \<and> worker_ok hash F L w' \<and> cw_notify w' = ns \<and>
     shrinks (ec_catalog (cw_engine w)) (ec_catalog (cw_engine w')))"

lemma handle_delivered_ok:
  assumes ok: "worker_ok hash F L w" and q: "cw_notify w = NotifyDelivered bid cid q es # ns"
  shows "handled hash F L w ns (handle_delivered now bid cid q es (w\<lparr>cw_notify := ns\<rparr>))"
proof -
  let ?w = "w\<lparr>cw_notify := ns\<rparr>" and ?c = "ec_catalog (cw_engine w)"
  have sz: "sized (cw_counters w)" and n: "note_ok ?c (NotifyDelivered bid cid q es)" and inv: "eng_inv hash F L (cw_engine w)"
    using ok by (simp_all add: worker_ok_def q)
  have lt: "cid < slots" "q < slots" and dist: "distinct (map de_seq es)" using n by (simp_all add: note_ok_def)
  have und: "undelivered sc k (cw_notify w) = (if k = key_of sc cid q then length es else 0) + undelivered sc k ns" for sc k
    by (simp add: q)
  have room: "inflight_get (ec_inflight (cw_engine w)) sc (key_of sc cid q) + length es < 2 ^ 32" for sc
  proof -
    have "key_of sc cid q < slots" using lt by (cases sc) simp_all
    then have "inflight_get (ec_inflight (cw_engine w)) sc (key_of sc cid q) + undelivered sc (key_of sc cid q) (cw_notify w) < 2 ^ 32"
      using ok unfolding worker_ok_def in_sync_def by blast
    then show ?thesis by (simp add: und)
  qed
  then have len: "length es < 2 ^ 32" using add_lessD1 [of "length es"] by (metis add.commute)
  show ?thesis
  proof (cases "live ?c bid")
    case None
    let ?r = "\<lambda>sc k. if k = key_of sc cid q then length es else 0"
    obtain w' where w': "reverse_delivery cid q es ?w = Some w'" "paid ?r ?w w'"
      using reverse_delivery_paid [of ?w cid q es] sz lt len by auto
    have "worker_ok hash F L w'"
      by (rule worker_paid [where r = ?r and ctx = "cw_engine w" and ns = ns, OF ok])
        (use w'(2) inv und q in auto)
    then show ?thesis using w' None by (auto simp: handled_def handle_delivered_def cat_binding_def live_def paid_def)
  next
    case (Some b)
    have b: "b_consumer_id b = cid" "b_queue_id b = q" "\<not> b_fire_and_forget b" using n Some by (simp_all add: note_ok_def)
    have key: "skey sc b = key_of sc cid q" for sc by (simp add: skey_def b split: inflight_scope.split)
    define ctx where "ctx = fst (engine_apply (Delivered (b_stream_id b) bid es) (cw_engine w))"
    note d = apply_delivered_count [OF Some b(3) dist room [folded key], where sid = "b_stream_id b", folded ctx_def]
    let ?dups = "dup_hashes b es"
    let ?r = "\<lambda>sc k. if k = key_of sc cid q then length ?dups else 0"
    have df: "length ?dups + length (fresh b es) = length es" by (rule dups_fresh [OF b(3)])
    obtain w1 where w1: "reconcile_dups cid q ?dups (?w\<lparr>cw_engine := ctx\<rparr>) = Some w1" "paid ?r (?w\<lparr>cw_engine := ctx\<rparr>) w1"
      using reconcile_dups_paid [of "?w\<lparr>cw_engine := ctx\<rparr>" cid q ?dups] sz lt len df by auto
    have comm: "?w\<lparr>cw_engine := ctx\<rparr> = w\<lparr>cw_engine := ctx, cw_notify := ns\<rparr>" by simp
    have bal: "inflight_get (ec_inflight ctx) sc k + undelivered sc k ns + ?r sc k =
        inflight_get (ec_inflight (cw_engine w)) sc k + undelivered sc k (cw_notify w)" for sc k
      unfolding d(3) und key using df by simp
    have ok1: "worker_ok hash F L w1"
      by (rule worker_paid [where r = ?r and ctx = ctx and ns = ns, OF ok])
        (use w1(2) d(1) [OF inv] d(2) bal in \<open>auto simp: comm q\<close>)
    let ?w2 = "wheel_insert_delivered now cid es w1"
    have nr: "near w1 ?w2" by (rule near_wheel)
    have "handle_delivered now bid cid q es ?w = Some ?w2"
      using w1(1) Some by (simp add: handle_delivered_def cat_binding_def live_def ctx_def)
    moreover have "cw_engine ?w2 = ctx" "cw_notify ?w2 = ns" using nr w1(2) by (simp_all add: near_def paid_def)
    ultimately show ?thesis using worker_near [OF ok1 nr] d(2) by (simp add: handled_def)
  qed
qed

lemma handle_notification_ok:
  assumes ok: "worker_ok hash F L w" and q: "cw_notify w = n # ns"
  shows "handled hash F L w ns (handle_notification now n (w\<lparr>cw_notify := ns\<rparr>))"
proof (cases n)
  case (NotifyDelivered bid cid qu es)
  then show ?thesis using handle_delivered_ok [OF ok] q by simp
next
  case (NotifyDead conn)
  let ?w = "w\<lparr>cw_notify := ns\<rparr>"
  have okn: "worker_ok hash F L ?w" using ok q NotifyDead by (simp add: worker_ok_def in_sync_def)
  obtain ctx delta where e: "mark_connection_dead conn (cw_engine w) = (ctx, delta)" by fastforce
  have "eng_inv hash F L (cw_engine w)" using ok by (simp add: worker_ok_def)
  from retire_ok_mark_dead [OF this worker_bounded [OF ok], of conn]
  have r: "retire_ok hash F L (cw_engine ?w) (ctx, delta)" by (simp add: e)
  from worker_settle [OF okn r, of False] show ?thesis
    using r by (auto simp: handled_def NotifyDead e retire_ok_def)
qed

lemma receive_all_ok:
  "worker_ok hash F L w \<Longrightarrow> handled hash F L w [] (receive_all now (cw_notify w) w)"
proof (induction "cw_notify w" arbitrary: w)
  case Nil
  then show ?case by (simp add: handled_def)
next
  case (Cons n ns)
  obtain w1 where w1: "handle_notification now n (w\<lparr>cw_notify := ns\<rparr>) = Some w1" "worker_ok hash F L w1" "cw_notify w1 = ns"
    "shrinks (ec_catalog (cw_engine w)) (ec_catalog (cw_engine w1))"
    using handle_notification_ok [OF Cons.prems Cons.hyps(2) [symmetric], of now] by (auto simp: handled_def)
  have "handled hash F L w1 [] (receive_all now ns w1)" using Cons.hyps(1) [of w1] w1(2,3) by simp
  then show ?case
    using w1 shrinks_trans by (auto simp: handled_def Cons.hyps(2) [symmetric])
qed

lemma drain_notifications_ok:
  "worker_ok hash F L w \<Longrightarrow> handled hash F L w [] (drain_notifications now w)"
  unfolding drain_notifications_def by (rule receive_all_ok)

section \<open>The handlers\<close>

lemma handle_ack_ok:
  assumes ok: "worker_ok hash F L w"
  shows "\<exists>r w'. handle_ack now cmd w = Some (r, w') \<and> worker_ok hash F L w'"
proof (cases "connection_owns (ec_catalog (cw_engine w)) (ac_conn_id cmd) (ac_consumer_id cmd) (ac_entries cmd)")
  case False
  then show ?thesis using ok by (simp add: handle_ack_def)
next
  case True
  obtain w1 where w1: "drain_notifications now w = Some w1" "worker_ok hash F L w1"
    "shrinks (ec_catalog (cw_engine w)) (ec_catalog (cw_engine w1))"
    using drain_notifications_ok [OF ok, of now] by (auto simp: handled_def)
  have "list_all (mine (ac_conn_id cmd) (ac_consumer_id cmd) (ec_catalog (cw_engine w1))) (ac_entries cmd)"
    using connection_owns_mine [OF True] mine_shrinks [OF w1(3)] by (auto simp: list_all_iff)
  from ack_matched_ok [OF w1(2) this] show ?thesis using True w1(1) by (auto simp: handle_ack_def)
qed

lemma count_nack_entries:
  assumes "fold (count_nack cid mx) es (counts, dlq, keep) = (counts', dlq', keep')"
  shows "set (keep' @ dlq') = set (keep @ dlq) \<union> set es"
  using assms by (induction es arbitrary: counts dlq keep) (auto simp: count_nack_def Let_def split: if_splits)

lemma surviving_nacks_ok:
  assumes "surviving_nacks cmd w = (keep, w')"
  shows "near w w'" "set keep = set (ac_entries cmd)"
  using assms count_nack_entries [of "ac_consumer_id cmd" _ "ac_entries cmd" "cw_nack_counts w" "[]" "[]"]
  by (auto simp: surviving_nacks_def near_def Let_def split: if_splits prod.splits)

lemma handle_nack_ok:
  assumes ok: "worker_ok hash F L w"
  shows "\<exists>r w'. handle_nack now d cmd w = Some (r, w') \<and> worker_ok hash F L w'"
proof (cases "connection_owns (ec_catalog (cw_engine w)) (ac_conn_id cmd) (ac_consumer_id cmd) (ac_entries cmd)")
  case False
  then show ?thesis using ok by (simp add: handle_nack_def)
next
  case True
  obtain keep w1 where k: "surviving_nacks cmd w = (keep, w1)" by fastforce
  have ok1: "worker_ok hash F L w1" by (rule worker_near [OF ok surviving_nacks_ok(1) [OF k]])
  obtain w2 where w2: "drain_notifications now w1 = Some w2" "worker_ok hash F L w2"
    "shrinks (ec_catalog (cw_engine w1)) (ec_catalog (cw_engine w2))"
    using drain_notifications_ok [OF ok1, of now] by (auto simp: handled_def)
  have "cw_engine w1 = cw_engine w" using surviving_nacks_ok(1) [OF k] by (simp add: near_def)
  then have "list_all (mine (ac_conn_id cmd) (ac_consumer_id cmd) (ec_catalog (cw_engine w2))) keep"
    using connection_owns_mine [OF True] mine_shrinks [OF w2(3)] surviving_nacks_ok(2) [OF k] by (auto simp: list_all_iff)
  from nack_matched_ok [OF w2(2) this, of now d] obtain w3 where
    "nack_matched now d (ac_conn_id cmd) (ac_consumer_id cmd) keep w2 = Some w3" "worker_ok hash F L w3" by blast
  then show ?thesis using True w2(1) ok1 by (auto simp: handle_nack_def k Let_def)
qed

lemma dec_demands_ok:
  assumes "worker_ok hash F L w" "\<forall>sid \<in> set sids. sid < slots"
  shows "\<exists>w'. dec_demands sids w = Some w' \<and> near w w'"
proof -
  have "\<exists>s'. ofold (\<lambda>sid s. map_option snd (sh_dec_demand sid s)) sids s = Some s' \<and>
      sh_consumer s' = sh_consumer s \<and> sh_queue s' = sh_queue s \<and> length (sh_demand s') = length (sh_demand s) \<and>
      sh_paused s' = sh_paused s"
    if "length (sh_demand s) = slots" for s
    using assms(2) that
  proof (induction sids arbitrary: s)
    case (Cons sid sids)
    let ?s = "s\<lparr>sh_demand := (sh_demand s)[sid := u32_sub (sh_demand s ! sid) 1], sh_total_demand := u32_sub (sh_total_demand s) 1\<rparr>"
    have "map_option snd (sh_dec_demand sid s) = Some ?s"
      using Cons.prems by (simp add: sh_dec_demand_def slot_update_def)
    then show ?case using Cons.IH [of ?s] Cons.prems by auto
  qed simp
  moreover have "length (sh_demand (cw_counters w)) = slots" using assms(1) by (simp add: worker_ok_def sized_def)
  ultimately obtain s' where "ofold (\<lambda>sid s. map_option snd (sh_dec_demand sid s)) sids (cw_counters w) = Some s'"
    "sh_consumer s' = sh_consumer (cw_counters w)" "sh_queue s' = sh_queue (cw_counters w)"
    "length (sh_demand s') = length (sh_demand (cw_counters w))" "sh_paused s' = sh_paused (cw_counters w)" by blast
  then show ?thesis by (simp add: dec_demands_def near_def)
qed

text \<open>The pattern of the retirement handlers: demand, engine, events.\<close>

lemma retire_handler:
  assumes ok: "worker_ok hash F L w" and sids: "\<forall>sid \<in> set sids. sid < slots"
    and r: "retire_ok hash F L (cw_engine w) (ctx, delta)"
  shows "\<exists>w1 w2. dec_demands sids w = Some w1 \<and> cw_engine w1 = cw_engine w \<and>
    apply_delta_and_sync delta False (w1\<lparr>cw_engine := ctx\<rparr>) = Some w2 \<and> worker_ok hash F L w2"
proof -
  obtain w1 where w1: "dec_demands sids w = Some w1" "near w w1" using dec_demands_ok [OF ok sids] by blast
  have "cw_engine w1 = cw_engine w" using w1(2) by (simp add: near_def)
  then show ?thesis using worker_settle [OF worker_near [OF ok w1(2)], of ctx delta False] r w1(1) by auto
qed

lemma binding_streams: "worker_ok hash F L w \<Longrightarrow> \<forall>sid \<in> set (map ab_stream_id (filter P (cw_bindings w))). sid < slots"
  by (auto simp: worker_ok_def list_all_iff)

lemma worker_engine: "worker_ok hash F L w \<Longrightarrow> eng_inv hash F L (cw_engine w)"
  by (simp add: worker_ok_def)

lemma handle_delete_stream_ok:
  assumes ok: "worker_ok hash F L w"
  shows "\<exists>w'. handle_delete_stream sid w = Some w' \<and> worker_ok hash F L w'"
proof -
  obtain ctx delta where e: "delete_stream sid (cw_engine w) = (ctx, delta)" by fastforce
  have "retire_ok hash F L (cw_engine w) (ctx, delta)"
    using retire_ok_delete_stream [OF worker_engine [OF ok] worker_bounded [OF ok], of sid] by (simp add: e)
  from retire_handler [OF ok binding_streams [OF ok] this, of "\<lambda>b. ab_stream_id b = sid"]
  obtain w1 w2 where w: "dec_demands (map ab_stream_id (filter (\<lambda>b. ab_stream_id b = sid) (cw_bindings w))) w = Some w1"
    "cw_engine w1 = cw_engine w" "apply_delta_and_sync delta False (w1\<lparr>cw_engine := ctx\<rparr>) = Some w2" "worker_ok hash F L w2" by blast
  let ?w3 = "w2\<lparr>cw_retention := hm_remove sid (cw_retention w2)\<rparr>"
  have "near w2 ?w3" by (simp add: near_def)
  from worker_near [OF w(4) near_trans [OF this near_rebuild]] show ?thesis
    by (simp add: handle_delete_stream_def w(1-3) e)
qed

lemma handle_delete_consumer_ok:
  assumes ok: "worker_ok hash F L w"
  shows "\<exists>w'. handle_delete_consumer cid w = Some w' \<and> worker_ok hash F L w'"
proof -
  obtain ctx delta where e: "delete_consumer cid (cw_engine w) = (ctx, delta)" by fastforce
  have "retire_ok hash F L (cw_engine w) (ctx, delta)"
    using retire_ok_delete_consumer [OF worker_engine [OF ok] worker_bounded [OF ok], of cid] by (simp add: e)
  from retire_handler [OF ok binding_streams [OF ok] this, of "\<lambda>b. ab_consumer_id b = cid"]
  obtain w1 w2 where w: "dec_demands (map ab_stream_id (filter (\<lambda>b. ab_consumer_id b = cid) (cw_bindings w))) w = Some w1"
    "cw_engine w1 = cw_engine w" "apply_delta_and_sync delta False (w1\<lparr>cw_engine := ctx\<rparr>) = Some w2" "worker_ok hash F L w2" by blast
  let ?w3 = "w2\<lparr>cw_nack_counts := filter (\<lambda>x. fst (fst x) \<noteq> cid) (cw_nack_counts w2)\<rparr>"
  have "near w2 ?w3" by (simp add: near_def)
  then have "near w2 (gate_release (send_removed cid ?w3))" using near_trans [OF _ near_send(2)] by simp
  from worker_near [OF w(4) near_trans [OF this near_rebuild]] show ?thesis
    by (simp add: handle_delete_consumer_def w(1-3) e)
qed

lemma handle_drain_connection_ok:
  assumes ok: "worker_ok hash F L w"
  shows "\<exists>w'. handle_drain_connection now conn w = Some w' \<and> worker_ok hash F L w'"
proof -
  obtain w0 where w0: "drain_notifications now w = Some w0" and ok: "worker_ok hash F L w0"
    using drain_notifications_ok [OF ok, of now] by (auto simp: handled_def)
  obtain ctx delta where e: "mark_connection_dead conn (cw_engine w0) = (ctx, delta)" by fastforce
  have "retire_ok hash F L (cw_engine w0) (ctx, delta)"
    using retire_ok_mark_dead [OF worker_engine [OF ok] worker_bounded [OF ok], of conn] by (simp add: e)
  from retire_handler [OF ok binding_streams [OF ok] this, of "\<lambda>b. ab_connection_id b = conn"]
  obtain w1 w2 where w: "dec_demands (map ab_stream_id (filter (\<lambda>b. ab_connection_id b = conn) (cw_bindings w0))) w0 = Some w1"
    "cw_engine w1 = cw_engine w0" "apply_delta_and_sync delta False (w1\<lparr>cw_engine := ctx\<rparr>) = Some w2" "worker_ok hash F L w2" by blast
  from worker_near [OF w(4) near_rebuild] show ?thesis
    by (simp add: handle_drain_connection_def w0 w(1-3) e)
qed

lemma unsubscribe_one_ok:
  assumes ok: "worker_ok hash F L w" and "sid < slots"
  shows "\<exists>w'. unsubscribe_one (bid, sid) w = Some w' \<and> worker_ok hash F L w'"
proof -
  obtain ctx delta where e: "unsubscribe bid (cw_engine w) = (ctx, delta)" by fastforce
  have "retire_ok hash F L (cw_engine w) (ctx, delta)"
    using retire_ok_unsubscribe [OF worker_engine [OF ok] worker_bounded [OF ok], of bid] by (simp add: e)
  from retire_handler [OF ok _ this, of "[sid]"] assms(2)
  obtain w1 w2 where w: "dec_demands [sid] w = Some w1" "apply_delta_and_sync delta False (w1\<lparr>cw_engine := ctx\<rparr>) = Some w2"
    "worker_ok hash F L w2" by auto
  have "dec_demands [sid] (w\<lparr>cw_engine := ctx\<rparr>) = map_option (\<lambda>w. w\<lparr>cw_engine := ctx\<rparr>) (dec_demands [sid] w)"
    by (cases "sh_dec_demand sid (cw_counters w)") (simp_all add: dec_demands_def)
  then show ?thesis using w by (simp add: unsubscribe_one_def e)
qed

lemma handle_unsubscribe_ok:
  assumes ok: "worker_ok hash F L w"
  shows "\<exists>w'. handle_unsubscribe sub w = Some w' \<and> worker_ok hash F L w'"
proof -
  have "\<exists>w'. ofold unsubscribe_one xs w = Some w' \<and> worker_ok hash F L w'"
    if "worker_ok hash F L w" "\<forall>x \<in> set xs. snd x < slots" for xs w
    using that
  proof (induction xs arbitrary: w)
    case (Cons x xs)
    obtain w1 where "unsubscribe_one x w = Some w1" "worker_ok hash F L w1"
      using unsubscribe_one_ok [OF Cons.prems(1), of "snd x" "fst x"] Cons.prems(2) by auto
    then show ?case using Cons.IH [of w1] Cons.prems(2) by simp
  qed simp
  from this [OF ok, of "map (\<lambda>b. (ab_binding_id b, ab_stream_id b)) (filter (\<lambda>b. ab_consumer_id b = sub) (cw_bindings w))"]
  obtain w1 where "ofold unsubscribe_one (map (\<lambda>b. (ab_binding_id b, ab_stream_id b)) (filter (\<lambda>b. ab_consumer_id b = sub) (cw_bindings w))) w = Some w1"
    "worker_ok hash F L w1" using binding_streams [OF ok, of "\<lambda>b. ab_consumer_id b = sub"] by auto
  then show ?thesis using worker_near [OF _ near_rebuild] by (simp add: handle_unsubscribe_def)
qed

section \<open>Expired timers\<close>

lemma release_first_hit:
  assumes "bid \<in> set bids" "try_release cid ack bid st \<noteq> None"
  shows "\<exists>bid' st'. bid' \<in> set bids \<and> try_release cid ack bid' st = Some st' \<and> release_first cid ack bids st = st'"
  using assms by (induction bids) (auto split: option.split)

lemma still_pending_binding:
  assumes inv: "eng_inv hash F L ctx" and p: "still_pending (ec_catalog ctx) cid seq"
  obtains bid b ci where "bid \<in> set (bindings_for_consumer (ec_catalog ctx) cid)" "live (ec_catalog ctx) bid = Some b"
    "hm_get (b_pending b) seq \<noteq> None" "cat_consumer (ec_catalog ctx) cid = Some ci" "b_stream_id b = ci_stream_id ci"
proof -
  let ?c = "ec_catalog ctx"
  obtain bid b where b: "bid \<in> set (bindings_for_consumer ?c cid)" "live ?c bid = Some b" "hm_get (b_pending b) seq \<noteq> None"
    using p by (auto simp: still_pending_def list_ex_iff cat_binding_def live_def is_pending_def hm_contains_get split: option.splits)
  have i: "idx_inv ?c" "ent_inv hash F ?c" using inv by (simp_all add: eng_inv_def cat_inv_def)
  have "b_consumer_id b = cid" using b(1,2) by (auto simp: set_bindings_for [OF i(1)] holders_def)
  then obtain u where u: "hm_get (subscriptions ?c) (b_subscription_id b) = Some u" "ui_consumer_id u = cid" "ui_stream_id u = b_stream_id b"
    using ent_invD(5) [OF i(2) b(2)] by auto
  obtain ci where "slot_get (consumers ?c) cid = Some ci" "ci_stream_id ci = b_stream_id b"
    using ent_invD(3) [OF i(2) u(1)] u(2,3) by auto
  then show ?thesis using that [OF b] by (simp add: cat_consumer_def)
qed

lemma auto_nack_matches:
  assumes inv: "eng_inv hash F L ctx" and p: "still_pending (ec_catalog ctx) cid seq"
    and ci: "cat_consumer (ec_catalog ctx) cid = Some ci"
  shows "length (subject_hashes_acked (snd (engine_apply
    (command.Nack 0 cid [\<lparr>ae_stream_id = ci_stream_id ci, ae_seq = seq, ae_sub_id = 0\<rparr>]) ctx))) = 1"
proof -
  let ?c = "ec_catalog ctx" and ?ack = "\<lparr>ae_stream_id = ci_stream_id ci, ae_seq = seq, ae_sub_id = 0\<rparr>"
  define m where "m = on_metrics (\<lambda>m. m\<lparr>nack_accepted := nack_accepted m + 1\<rparr>) ctx"
  let ?st = "\<lparr>as_ctx = m, as_events = delta_default, as_matched = 0\<rparr>"
  have m: "ec_catalog m = ?c" by (simp add: m_def on_metrics_def)
  obtain bid b where b: "bid \<in> set (bindings_for_consumer ?c cid)" "live ?c bid = Some b" "hm_get (b_pending b) seq \<noteq> None"
    "b_stream_id b = ci_stream_id ci"
    using still_pending_binding [OF inv p] ci by (metis option.inject)
  then have "try_release cid ?ack bid ?st \<noteq> None"
    by (auto simp: try_release_def cat_binding_def m live_def)
  from release_first_hit [OF b(1) this] obtain bid' st' where
    st: "try_release cid ?ack bid' ?st = Some st'" "release_first cid ?ack (bindings_for_consumer ?c cid) ?st = st'" by blast
  have "length (subject_hashes_acked (as_events st')) = 1"
    using st(1) by (rule try_release_Some) (simp add: delta_default_def)
  moreover have "release_entries 0 cid [?ack] m = st'" using st(2) by (simp add: release_entries_def release_entry_def m)
  ultimately show ?thesis by (simp add: engine_apply_def Let_def m_def)
qed

lemma delta_merge_released: "inflight_released (delta_merge a b) = inflight_released a @ inflight_released b"
  by (simp add: delta_merge_def)

lemma expire_one_ok:
  assumes ok: "worker_ok hash F L w" and m: "inflight_released merged = []"
  shows "\<exists>w' merged' r'. expire_one entry (w, merged, r) = Some (w', merged', r') \<and> worker_ok hash F L w' \<and>
    inflight_released merged' = []"
proof (cases "we_kind entry = NackDelay \<or> \<not> still_pending (ec_catalog (cw_engine w)) (we_consumer_id entry) (we_seq entry)")
  case True
  then show ?thesis using ok m by (cases "we_kind entry = NackDelay") (simp_all add: expire_one_def Let_def)
next
  case False
  let ?c = "ec_catalog (cw_engine w)" and ?cid = "we_consumer_id entry"
  have inv: "eng_inv hash F L (cw_engine w)" by (rule worker_engine [OF ok])
  have p: "still_pending ?c ?cid (we_seq entry)" using False by simp
  obtain ci where ci: "cat_consumer ?c ?cid = Some ci" using still_pending_binding [OF inv p] by blast
  let ?acks = "[\<lparr>ae_stream_id = ci_stream_id ci, ae_seq = we_seq entry, ae_sub_id = 0\<rparr>]"
  obtain ctx delta where e: "engine_apply (command.Nack 0 ?cid ?acks) (cw_engine w) = (ctx, delta)" by fastforce
  have "list_all (mine 0 ?cid ?c) ?acks" by (simp add: mine_def)
  from acked_ok_apply(2) [OF inv this] have a: "acked_ok hash F L (cw_engine w) ?cid ctx delta" by (simp add: e)
  have one: "length (subject_hashes_acked delta) = 1" using auto_nack_matches [OF inv p ci] by (simp add: e)
  have ci': "cat_consumer (ec_catalog ctx) ?cid = Some ci" using a ci by (simp add: acked_ok_def cat_consumer_def)
  obtain w' where w': "sync_inflight ?cid (as_u32 (length (subject_hashes_acked delta))) (w\<lparr>cw_engine := ctx\<rparr>) = Some w'"
    "worker_ok hash F L w'" using worker_sync_inflight [OF ok a] by blast
  have s: "on_counters (dec_inflight ?cid (ci_queue_id ci)) (w\<lparr>cw_engine := ctx\<rparr>) = Some w'"
    using w'(1) by (simp add: one as_u32_def sync_inflight_def ci' dec_inflight_def dec_inflight_bulk_def)
  have "expire_one entry (w, merged, r) = Some (w', delta_merge merged delta, rewind_min (we_seq entry) r)"
    using False s by (simp add: expire_one_def ci e ci' Let_def)
  then show ?thesis using w'(2) a m by (simp add: delta_merge_released acked_ok_def)
qed

lemma wheel_advance_ok:
  assumes ok: "worker_ok hash F L w"
  shows "\<exists>w'. wheel_advance now w = Some w' \<and> worker_ok hash F L w'"
proof (cases "cw_wheel w")
  case None
  then show ?thesis using ok by (simp add: wheel_advance_def)
next
  case (Some wheel)
  obtain wheel' expired where e: "advance_to now wheel = (wheel', expired)" by fastforce
  have x: "\<exists>w' merged' r'. ofold expire_one es (w, merged, r) = Some (w', merged', r') \<and> worker_ok hash F L w' \<and>
      inflight_released merged' = []" if "worker_ok hash F L w" "inflight_released merged = []" for es w merged r
    using that
  proof (induction es arbitrary: w merged r)
    case (Cons entry es)
    obtain w1 m1 r1 where "expire_one entry (w, merged, r) = Some (w1, m1, r1)" "worker_ok hash F L w1"
      "inflight_released m1 = []"
      using expire_one_ok [OF Cons.prems, of entry r] by blast
    then show ?case using Cons.IH by simp
  qed simp
  have "near w (w\<lparr>cw_wheel := Some wheel'\<rparr>)" by (simp add: near_def)
  from worker_near [OF ok this]
  obtain w1 merged r where w1: "ofold expire_one expired (w\<lparr>cw_wheel := Some wheel'\<rparr>, delta_default, None) = Some (w1, merged, r)"
    "worker_ok hash F L w1" "inflight_released merged = []"
    using x [of "w\<lparr>cw_wheel := Some wheel'\<rparr>" delta_default expired None] by (auto simp: delta_default_def)
  obtain w2 where w2: "(if delta_is_empty merged then Some w1 else apply_delta_and_sync merged False w1) = Some w2"
    "worker_ok hash F L w2"
    using worker_apply_quiet [OF w1(2,3), of False] w1(2) by (cases "delta_is_empty merged") auto
  let ?w3 = "case r of None \<Rightarrow> w2 | Some seq \<Rightarrow> gate_release (rewind seq w2)"
  have "near w2 ?w3" by (simp split: option.split)
  then show ?thesis
    using worker_near [OF w2(2)] w1(1) w2(1) by (simp add: wheel_advance_def Some e)
qed

end
