(* ===== verification/Shard_Run.thy ===== *)
theory Shard_Run
  imports Shard_Sync Drain_Notify
begin

text \<open>
  Both threads of a shard together: the handlers that create entities and subscribe, the deliveries of
  the drain, and the runs that interleave them.
\<close>

section \<open>Catalogues that only gain\<close>

text \<open>Below the numbers already given out, no binding appears or changes.\<close>

definition grows :: "catalog \<Rightarrow> catalog \<Rightarrow> bool" where
  "grows c c' \<longleftrightarrow> next_binding_id c \<le> next_binding_id c' \<and>
     (\<forall>bid b. bid < next_binding_id c \<longrightarrow> live c' bid = Some b \<longrightarrow> live c bid = Some b)"

lemma grows_refl [simp]: "grows c c"
  by (simp add: grows_def)

lemma grows_trans:
  assumes "grows a b" "grows b c"
  shows "grows a c"
  unfolding grows_def
proof (intro conjI allI impI)
  show "next_binding_id a \<le> next_binding_id c" using assms by (simp add: grows_def)
  fix bid x
  assume "bid < next_binding_id a" "live c bid = Some x"
  moreover from this have "bid < next_binding_id b" using assms(1) by (simp add: grows_def)
  ultimately show "live a bid = Some x" using assms unfolding grows_def by blast
qed

lemma grows_same: "bindings c' = bindings c \<Longrightarrow> next_binding_id c' = next_binding_id c \<Longrightarrow> grows c c'"
  by (simp add: grows_def live_def)

lemma growsD:
  assumes "grows c c'"
  shows "next_binding_id c \<le> next_binding_id c'"
    and "bid < next_binding_id c \<Longrightarrow> live c' bid = Some b \<Longrightarrow> live c bid = Some b"
  using assms unfolding grows_def by blast+

lemma note_ok_grows:
  assumes "grows c c'" "note_ok c n"
  shows "note_ok c' n"
proof (cases n)
  case (NotifyDelivered bid cid q es)
  have n: "bid < next_binding_id c" "cid < slots" "q < slots" "distinct (map de_seq es)"
    and b: "\<And>b. live c bid = Some b \<Longrightarrow> b_consumer_id b = cid \<and> b_queue_id b = q \<and> \<not> b_fire_and_forget b"
    using assms(2) unfolding note_ok_def NotifyDelivered drain_notification.case by blast+
  have "b_consumer_id b = cid \<and> b_queue_id b = q \<and> \<not> b_fire_and_forget b" if "live c' bid = Some b" for b
    by (rule b [OF growsD(2) [OF assms(1) n(1) that]])
  moreover have "bid < next_binding_id c'" using n(1) growsD(1) [OF assms(1)] by (rule less_le_trans)
  ultimately show ?thesis unfolding note_ok_def NotifyDelivered drain_notification.case using n(2-4) by blast
qed (simp add: note_ok_def)

definition grown :: "(bytes \<Rightarrow> u32) \<Rightarrow> bytes set \<Rightarrow> slack \<Rightarrow> engine_context \<Rightarrow> engine_context \<Rightarrow> bool" where
  "grown hash F L ctx ctx' \<longleftrightarrow> eng_inv hash F L ctx' \<and> ec_inflight ctx' = ec_inflight ctx \<and>
     grows (ec_catalog ctx) (ec_catalog ctx') \<and> cons_ok (ec_catalog ctx')"

lemma grown_trans: "grown hash F L a b \<Longrightarrow> grown hash F L' b c \<Longrightarrow> grown hash F L' a c"
  by (auto simp: grown_def intro: grows_trans)

lemma worker_grown:
  assumes "worker_ok hash F L w" "grown hash F L' (cw_engine w) ctx"
  shows "worker_ok hash F L' (w\<lparr>cw_engine := ctx\<rparr>)"
proof -
  have "list_all (note_ok (ec_catalog ctx)) (cw_notify w)"
    using assms note_ok_grows unfolding worker_ok_def grown_def list_all_iff by blast
  then show ?thesis using assms by (simp add: worker_ok_def grown_def in_sync_def)
qed

lemma cat_op_next:
  "next_binding_id (snd (ensure_stream cfg c)) = next_binding_id c"
  "next_binding_id (snd (ensure_consumer ccfg c)) = next_binding_id c"
  "next_binding_id (snd (ensure_subscription hash scfg c)) = next_binding_id c"
  "next_binding_id (snd (set_paused p cid c)) = next_binding_id c"
  "next_binding_id (snd (set_max_subject_inflight hash s pat n c)) = next_binding_id c"
  "next_binding_id (open_connection conn node c) = next_binding_id c"
  by (auto simp: ensure_stream_def ensure_stream_slot_def ensure_consumer_def ensure_consumer_slot_def
      ensure_subscription_def set_paused_def set_max_subject_inflight_def open_connection_def match_table_or_new_def
      ensure_match_table_slot_def Let_def split: option.split sum.split)

lemma cat_op_consumers:
  "consumers (snd (ensure_stream cfg c)) = consumers c"
  "consumers (snd (ensure_subscription hash scfg c)) = consumers c"
  "consumers (snd (set_max_subject_inflight hash s pat n c)) = consumers c"
  "consumers (open_connection conn node c) = consumers c"
  by (auto simp: ensure_stream_def ensure_stream_slot_def
      ensure_subscription_def set_max_subject_inflight_def open_connection_def match_table_or_new_def
      ensure_match_table_slot_def Let_def split: option.split sum.split)

definition config_ok :: "consumer_config \<Rightarrow> bool" where
  "config_ok cfg \<longleftrightarrow> cc_id cfg < slots \<and> cc_queue_id cfg < slots \<and> cc_stream_id cfg < slots"

lemma cons_ok_ensure:
  assumes "cons_ok c" "config_ok cfg"
  shows "cons_ok (snd (ensure_consumer cfg c))"
  using assms unfolding cons_ok_def config_ok_def
  by (auto simp: ensure_consumer_def ensure_consumer_slot_def slot_get_grow_update Let_def split: option.splits if_splits)

lemma cons_ok_paused: "cons_ok c \<Longrightarrow> cons_ok (snd (set_paused p cid c))"
  unfolding cons_ok_def by (auto simp: set_paused_def slot_get_update split: option.splits if_splits)

lemma grown_ops:
  assumes inv: "eng_inv hash F L ctx" and c: "cons_ok (ec_catalog ctx)"
  shows "grown hash F L ctx (snd (create_stream cfg ctx))"
    and "config_ok ccfg \<Longrightarrow> grown hash F L ctx (snd (create_consumer ccfg ctx))"
    and "sub_ok F scfg (ec_catalog ctx) \<Longrightarrow> grown hash F L ctx (snd (create_subscription hash scfg ctx))"
    and "grown hash F L ctx (snd (engine_set_max_subject_inflight hash sid pat n ctx))"
    and "grown hash F L ctx (snd (engine_pause_consumer cid ctx))"
    and "grown hash F L ctx (snd (engine_resume_consumer cid ctx))"
    and "grown hash F L ctx (engine_open_connection conn node ctx)"
proof -
  have g: "grown hash F L ctx ctx'" if "estep hash F ctx no_slack ctx'" "ec_inflight ctx' = ec_inflight ctx"
    "bindings (ec_catalog ctx') = bindings (ec_catalog ctx)" "next_binding_id (ec_catalog ctx') = next_binding_id (ec_catalog ctx)"
    "cons_ok (ec_catalog ctx')" for ctx'
    using estep_inv [OF that(1) inv] that grows_same by (simp add: grown_def)
  note sel = create_stream_def create_consumer_def create_subscription_def engine_set_max_subject_inflight_def
    engine_pause_consumer_def engine_resume_consumer_def pause_consumer_def resume_consumer_def engine_open_connection_def
    on_catalog_def Let_def case_prod_beta cat_op_bindings cat_op_next
  have same: "consumers c' = consumers (ec_catalog ctx) \<Longrightarrow> cons_ok c'" for c' using c by (simp add: cons_ok_def)
  show "grown hash F L ctx (snd (create_stream cfg ctx))"
    by (rule g [OF step_create_stream]) (simp_all add: sel same cat_op_consumers)
  show "grown hash F L ctx (snd (create_consumer ccfg ctx))" if "config_ok ccfg"
    by (rule g [OF step_create_consumer]) (simp_all add: sel cons_ok_ensure [OF c that])
  show "grown hash F L ctx (snd (create_subscription hash scfg ctx))" if "sub_ok F scfg (ec_catalog ctx)"
    by (rule g [OF step_create_subscription [OF that]]) (simp_all add: sel same cat_op_consumers)
  show "grown hash F L ctx (snd (engine_set_max_subject_inflight hash sid pat n ctx))"
    by (rule g [OF step_limit]) (simp_all add: sel same cat_op_consumers)
  show "grown hash F L ctx (snd (engine_pause_consumer cid ctx))"
    by (rule g [OF step_pause]) (simp_all add: sel cons_ok_paused [OF c])
  show "grown hash F L ctx (snd (engine_resume_consumer cid ctx))"
    by (rule g [OF step_resume]) (simp_all add: sel cons_ok_paused [OF c])
  show "grown hash F L ctx (engine_open_connection conn node ctx)"
    by (rule g [OF step_open_connection]) (simp_all add: sel same cat_op_consumers)
qed

lemma grown_subscribe:
  assumes inv: "eng_inv hash F L ctx" and c: "cons_ok (ec_catalog ctx)" and lt: "next_binding_id (ec_catalog ctx) + 1 < 2 ^ 32"
  shows "\<exists>L'. grown hash F L' ctx (fst (snd (engine_subscribe conn sid ctx)))"
proof (cases "can_subscribe sid (ec_catalog ctx)")
  case False
  then show ?thesis using inv c by (auto simp: engine_subscribe_sel subscribed_noop grown_def)
next
  case True
  let ?c = "ec_catalog ctx" and ?c' = "subscribed conn sid (ec_catalog ctx) delta_default"
  have i: "idx_inv ?c" using inv by (simp add: eng_inv_def cat_inv_def)
  obtain u ci where u: "hm_get (subscriptions ?c) sid = Some u" "slot_get (consumers ?c) (ui_consumer_id u) = Some ci"
    using True by (auto simp: can_subscribe_def)
  have "live ?c' bid = Some b \<Longrightarrow> bid < next_binding_id ?c \<Longrightarrow> live ?c bid = Some b" for bid b
    using live_subscribed [OF u i, of conn delta_default]
    by (auto simp: displaced_def live_retired split: option.splits if_splits)
  moreover have "next_binding_id ?c' = next_binding_id ?c + 1"
    using lt by (simp add: subscribe_Some(9) [OF u] displaced_sel(1) [OF i] u32_add_def)
  ultimately have "grows ?c ?c'" by (simp add: grows_def)
  moreover have "consumers ?c' = consumers ?c" by (simp add: subscribe_Some(12) [OF u] displaced_sel(3) [OF i])
  ultimately show ?thesis
    using eng_inv_subscribe [OF inv lt, of sid conn] True c by (auto simp: grown_def engine_subscribe_sel cons_ok_def)
qed

section \<open>Creating and subscribing\<close>

lemma worker_cons: "worker_ok hash F L w \<Longrightarrow> cons_ok (ec_catalog (cw_engine w))"
  by (simp add: worker_ok_def)

lemma handle_create_stream_ok:
  assumes "worker_ok hash F L w"
  shows "worker_ok hash F L (snd (handle_create_stream last_seq replaying cfg age w))"
proof -
  obtain r ctx where e: "create_stream cfg (cw_engine w) = (r, ctx)" by fastforce
  have "grown hash F L (cw_engine w) ctx"
    using grown_ops(1) [OF worker_engine [OF assms] worker_cons [OF assms], of cfg] by (simp add: e)
  from worker_grown [OF assms this] have ok: "worker_ok hash F L (w\<lparr>cw_engine := ctx\<rparr>)" .
  have "near (w\<lparr>cw_engine := ctx\<rparr>) (snd (handle_create_stream last_seq replaying cfg age w))"
    by (simp add: handle_create_stream_def e Let_def near_def rebuild_and_swap_snapshot_def)
  then show ?thesis by (rule worker_near [OF ok])
qed

lemma grown_limits:
  assumes "eng_inv hash F L ctx" "cons_ok (ec_catalog ctx)"
  shows "grown hash F L ctx (fold (\<lambda>(pat, n) c. snd (engine_set_max_subject_inflight hash sid pat n c)) limits ctx)"
  using assms
proof (induction limits arbitrary: ctx)
  case (Cons x limits)
  obtain pat n where x: "x = (pat, n)" by (cases x)
  have g: "grown hash F L ctx (snd (engine_set_max_subject_inflight hash sid pat n ctx))" by (rule grown_ops(4) [OF Cons.prems])
  then show ?case using grown_trans [OF g Cons.IH] by (simp add: x grown_def)
qed (simp add: grown_def)

lemma handle_create_consumer_ok:
  assumes ok: "worker_ok hash F L w" and cfg: "config_ok cfg"
  shows "worker_ok hash F L (snd (handle_create_consumer hash last_seq cfg limits w))"
proof -
  obtain r ctx where e: "create_consumer cfg (cw_engine w) = (r, ctx)" by fastforce
  have g: "grown hash F L (cw_engine w) ctx"
    using grown_ops(2) [OF worker_engine [OF ok] worker_cons [OF ok] cfg] by (simp add: e)
  then have "grown hash F L ctx (fold (\<lambda>(pat, n) c. snd (engine_set_max_subject_inflight hash (cc_stream_id cfg) pat n c)) limits ctx)"
    by (intro grown_limits) (simp_all add: grown_def)
  from worker_grown [OF ok g] worker_grown [OF ok grown_trans [OF g this]] show ?thesis
    by (auto simp: handle_create_consumer_def e split: sum.split bool.split)
qed

lemma set_paused_near:
  assumes "worker_ok hash F L w" "cid < slots"
  shows "\<exists>w'. on_counters (sh_set_paused cid v) w = Some w' \<and> near w w'"
  using assms by (simp add: worker_ok_def sized_def sh_set_paused_def slot_update_def near_def)

lemma paused_lt: "cons_ok c \<Longrightarrow> fst (set_paused p cid c) \<Longrightarrow> cid < slots"
  by (auto simp: set_paused_def cons_ok_def split: option.splits)

lemma handle_pause_ok:
  assumes ok: "worker_ok hash F L w"
  shows "\<exists>r w'. handle_pause_consumer cid w = Some (r, w') \<and> worker_ok hash F L w'"
proof -
  obtain r ctx where e: "engine_pause_consumer cid (cw_engine w) = (r, ctx)" by fastforce
  have ok1: "worker_ok hash F L (w\<lparr>cw_engine := ctx\<rparr>)"
    using worker_grown [OF ok grown_ops(5) [OF worker_engine [OF ok] worker_cons [OF ok], of cid]] by (simp add: e)
  show ?thesis
  proof (cases r)
    case True
    then have "cid < slots" using paused_lt [OF worker_cons [OF ok], of True cid] e
      by (simp add: engine_pause_consumer_def pause_consumer_def case_prod_beta)
    from set_paused_near [OF ok1 this, of True] obtain w' where
      w': "on_counters (sh_set_paused cid True) (w\<lparr>cw_engine := ctx\<rparr>) = Some w'" "near (w\<lparr>cw_engine := ctx\<rparr>) w'" by blast
    have "handle_pause_consumer cid w = Some (True, w')"
      unfolding handle_pause_consumer_def e Let_def prod.case w'(1) using True by simp
    then show ?thesis using worker_near [OF ok1 w'(2)] by blast
  next
    case False
    then show ?thesis using ok1 by (auto simp: handle_pause_consumer_def e)
  qed
qed

lemma handle_resume_ok:
  assumes ok: "worker_ok hash F L w"
  shows "\<exists>r w'. handle_resume_consumer cid w = Some (r, w') \<and> worker_ok hash F L w'"
proof -
  obtain r ctx where e: "engine_resume_consumer cid (cw_engine w) = (r, ctx)" by fastforce
  have ok1: "worker_ok hash F L (w\<lparr>cw_engine := ctx\<rparr>)"
    using worker_grown [OF ok grown_ops(6) [OF worker_engine [OF ok] worker_cons [OF ok], of cid]] by (simp add: e)
  show ?thesis
  proof (cases r)
    case True
    then have "cid < slots" using paused_lt [OF worker_cons [OF ok], of False cid] e
      by (simp add: engine_resume_consumer_def resume_consumer_def case_prod_beta)
    from set_paused_near [OF ok1 this, of False] obtain w' where
      w': "on_counters (sh_set_paused cid False) (w\<lparr>cw_engine := ctx\<rparr>) = Some w'" "near (w\<lparr>cw_engine := ctx\<rparr>) (gate_release w')" by auto
    have "handle_resume_consumer cid w = Some (True, gate_release w')"
      unfolding handle_resume_consumer_def e Let_def prod.case w'(1) using True by simp
    then show ?thesis using worker_near [OF ok1 w'(2)] by blast
  next
    case False
    then show ?thesis using ok1 by (auto simp: handle_resume_consumer_def e)
  qed
qed

lemma handle_open_connection_ok:
  "worker_ok hash F L w \<Longrightarrow> worker_ok hash F L (handle_open_connection conn node w)"
  unfolding handle_open_connection_def by (rule worker_grown [OF _ grown_ops(7)]) (auto intro: worker_engine worker_cons)

lemma attach_binding_ok:
  assumes ok: "worker_ok hash F L w"
  shows "\<exists>w'. attach_binding connected cmd bid w = Some w' \<and> worker_ok hash F L w'"
proof -
  define b where "b = active_binding_for (ec_catalog (cw_engine w)) cmd bid"
  define w1 where "w1 = (if ab_deliver_floor b > 0 then w\<lparr>cw_floors := seed (ab_consumer_id b) (ab_deliver_floor b) (cw_floors w)\<rparr> else w)"
  define w2 where "w2 = (if connected (ab_connection_id b) then w1\<lparr>cw_bindings := cw_bindings w1 @ [b]\<rparr> else w1)"
  have "0 < slots" by (simp add: slots_def)
  then have lt: "ab_stream_id b < slots"
    using worker_cons [OF ok] by (auto simp: b_def active_binding_for_def Let_def cons_ok_def cat_consumer_def split: option.split)
  have "near w w1" by (simp add: w1_def near_def)
  from worker_near [OF ok this] have ok2: "worker_ok hash F L w2" using lt by (simp add: w2_def worker_ok_def)
  then have "\<exists>w'. on_counters (\<lambda>s. map_option snd (sh_inc_demand (ab_stream_id b) s)) w2 = Some w' \<and> near w2 w'"
    using lt by (simp add: worker_ok_def sized_def sh_inc_demand_def slot_update_def near_def)
  then obtain w' where w': "on_counters (\<lambda>s. map_option snd (sh_inc_demand (ab_stream_id b) s)) w2 = Some w'" "near w2 w'" by blast
  have "attach_binding connected cmd bid w = Some w'"
    unfolding attach_binding_def Let_def b_def [symmetric] unfolding w1_def [symmetric] unfolding w2_def [symmetric] by (rule w'(1))
  then show ?thesis using worker_near [OF ok2 w'(2)] by blast
qed

definition subscribe_ok :: "bytes set \<Rightarrow> subscribe_cmd \<Rightarrow> engine_context \<Rightarrow> bool" where
  "subscribe_ok F cmd ctx \<longleftrightarrow> config_ok (sb_consumer_config cmd) \<and> next_binding_id (ec_catalog ctx) + 1 < 2 ^ 32 \<and>
     sub_ok F (sb_subscription_config cmd)
       (ec_catalog (snd (create_consumer (sb_consumer_config cmd) (snd (create_stream (sb_stream_config cmd) ctx)))))"

lemma ensure_entities_grown:
  assumes inv: "eng_inv hash F L ctx" and c: "cons_ok (ec_catalog ctx)" and ok: "subscribe_ok F cmd ctx"
  shows "grown hash F L ctx (snd (ensure_entities hash cmd ctx))"
    and "next_binding_id (ec_catalog (snd (ensure_entities hash cmd ctx))) = next_binding_id (ec_catalog ctx)"
proof -
  let ?ctx1 = "snd (create_stream (sb_stream_config cmd) ctx)"
  let ?ctx2 = "snd (create_consumer (sb_consumer_config cmd) ?ctx1)"
  have g1: "grown hash F L ctx ?ctx1" by (rule grown_ops(1) [OF inv c])
  have g2: "grown hash F L ?ctx1 ?ctx2"
    by (rule grown_ops(2)) (use g1 ok in \<open>simp_all add: grown_def subscribe_ok_def\<close>)
  have "grown hash F L ?ctx2 (snd (create_subscription hash (sb_subscription_config cmd) ?ctx2))"
    by (rule grown_ops(3)) (use g2 ok in \<open>simp_all add: grown_def subscribe_ok_def\<close>)
  from grown_trans [OF g1 grown_trans [OF g2 this]] show "grown hash F L ctx (snd (ensure_entities hash cmd ctx))"
    by (simp add: ensure_entities_def case_prod_beta Let_def)
  show "next_binding_id (ec_catalog (snd (ensure_entities hash cmd ctx))) = next_binding_id (ec_catalog ctx)"
    by (simp add: ensure_entities_def create_stream_def create_consumer_def create_subscription_def case_prod_beta Let_def cat_op_next)
qed

lemma position_cursor_near: "near w (position_cursor cmd w)"
  by (simp add: position_cursor_def Let_def)

lemma handle_subscribe_ok:
  assumes ok: "worker_ok hash F L w" and cmd: "subscribe_ok F cmd (cw_engine w)"
  shows "\<exists>L' r w'. handle_subscribe hash connected cmd w = Some (r, w') \<and> worker_ok hash F L' w'"
proof -
  obtain r ctx where e: "ensure_entities hash cmd (cw_engine w) = (r, ctx)" by fastforce
  note g = ensure_entities_grown [OF worker_engine [OF ok] worker_cons [OF ok] cmd, unfolded e snd_conv]
  have ok1: "worker_ok hash F L (w\<lparr>cw_engine := ctx\<rparr>)" by (rule worker_grown [OF ok g(1)])
  show ?thesis
  proof (cases r)
    case False
    then show ?thesis using ok1 by (auto simp: handle_subscribe_def e)
  next
    case True
    obtain res ctx1 events where e1: "engine_subscribe (sb_connection_id cmd) (uc_id (sb_subscription_config cmd)) ctx = (res, ctx1, events)"
      by (rule prod_cases3)
    have "next_binding_id (ec_catalog ctx) + 1 < 2 ^ 32" using cmd g(2) by (simp add: subscribe_ok_def)
    then obtain L' where "grown hash F L' ctx ctx1"
      using grown_subscribe [of hash F L ctx "sb_connection_id cmd" "uc_id (sb_subscription_config cmd)"] g(1) by (auto simp: grown_def e1)
    from worker_grown [OF ok grown_trans [OF g(1) this]] have ok2: "worker_ok hash F L' (w\<lparr>cw_engine := ctx1\<rparr>)" .
    obtain w2 where w2: "(case res of Inl _ \<Rightarrow> Some (w\<lparr>cw_engine := ctx1\<rparr>) | Inr bid \<Rightarrow> attach_binding connected cmd bid (w\<lparr>cw_engine := ctx1\<rparr>)) = Some w2"
      "worker_ok hash F L' w2"
      using attach_binding_ok [OF ok2, of connected cmd] ok2 by (cases res) auto
    let ?w3 = "w2\<lparr>cw_bindings := filter (\<lambda>b. ab_binding_id b \<notin> set (bindings_retired events)) (cw_bindings w2)\<rparr>"
    let ?w4 = "gate_release (rebuild_and_swap_snapshot (position_cursor cmd ?w3))"
    have "near w2 ?w3" by (auto simp: near_def)
    then have "near w2 ?w4"
      using near_trans [OF _ near_trans [OF position_cursor_near near_rebuild]] by simp
    moreover have "handle_subscribe hash connected cmd w = Some (True, ?w4)"
      unfolding handle_subscribe_def e Let_def prod.case e1 w2(1) using True by simp
    ultimately show ?thesis using worker_near [OF w2(2)] by blast
  qed
qed

section \<open>The deliveries of a drain cycle\<close>

lemma inc_inflight_get:
  assumes "sized s" "c < slots" "q < slots" "\<And>sc. shared_get s sc (key_of sc c q) + 1 < 2 ^ 32"
  shows "\<exists>s'. inc_inflight c q s = Some s' \<and> sized s' \<and>
    (\<forall>sc k. k < slots \<longrightarrow> shared_get s' sc k = shared_get s sc k + (if k = key_of sc c q then 1 else 0))"
proof -
  obtain s' where s': "on_inflight (\<lambda>n. u32_add n 1) c q s = Some s'" "sized s'" and
    g: "\<And>sc k. k < slots \<Longrightarrow> shared_get s' sc k = (if k = key_of sc c q then u32_add (shared_get s sc k) 1 else shared_get s sc k)"
    using on_inflight_get [OF assms(1-3), of "\<lambda>n. u32_add n 1"] by blast
  have "shared_get s' sc k = shared_get s sc k + (if k = key_of sc c q then 1 else 0)" if "k < slots" for sc k
    using g [OF that, of sc] assms(4) [of sc] by (auto simp: u32_add_def)
  then show ?thesis using s' by (auto simp: inc_inflight_def)
qed

abbreviation sent :: "(u64 \<times> flush_outcome) list \<Rightarrow> pending_notify list \<Rightarrow> pending_notify list" where
  "sent results ds \<equiv> filter (\<lambda>d. frame_ok_for results (pn_conn d)) ds"

definition counted :: "inflight_scope \<Rightarrow> u32 \<Rightarrow> pending_notify list \<Rightarrow> nat" where
  "counted sc k ds = length (filter (\<lambda>d. key_of sc (pn_consumer_id d) (pn_queue_id d) = k) ds)"

lemma record_deliveries_get:
  assumes "sized s" "\<forall>d \<in> set ds. pn_consumer_id d < slots \<and> pn_queue_id d < slots"
    "\<And>sc k. k < slots \<Longrightarrow> shared_get s sc k + length ds < 2 ^ 32"
  shows "\<exists>s' books'. record_deliveries ds results (s, books) = Some (s', books') \<and> sized s' \<and>
    (\<forall>sc k. k < slots \<longrightarrow> shared_get s' sc k = shared_get s sc k + counted sc k (sent results ds))"
  using assms
proof (induction ds arbitrary: s books)
  case Nil
  then show ?case by (simp add: record_deliveries_def counted_def)
next
  case (Cons d ds)
  show ?case
  proof (cases "frame_ok_for results (pn_conn d)")
    case False
    have "shared_get s sc k + length ds < 2 ^ 32" if "k < slots" for sc k using Cons.prems(3) [OF that, of sc] by simp
    from Cons.IH [OF Cons.prems(1) _ this, of books] show ?thesis
      using Cons.prems(2) False by (simp add: record_deliveries_def record_delivery_def)
  next
    case True
    have lt: "pn_consumer_id d < slots" "pn_queue_id d < slots" using Cons.prems(2) by simp_all
    have "shared_get s sc (key_of sc (pn_consumer_id d) (pn_queue_id d)) + 1 < 2 ^ 32" for sc
    proof -
      have "key_of sc (pn_consumer_id d) (pn_queue_id d) < slots" using lt by (cases sc) simp_all
      from Cons.prems(3) [OF this, of sc] show ?thesis by simp
    qed
    from inc_inflight_get [OF Cons.prems(1) lt this] obtain s1 where
      s1: "inc_inflight (pn_consumer_id d) (pn_queue_id d) s = Some s1" "sized s1"
      "\<And>sc k. k < slots \<Longrightarrow> shared_get s1 sc k = shared_get s sc k + (if k = key_of sc (pn_consumer_id d) (pn_queue_id d) then 1 else 0)"
      by blast
    have "shared_get s1 sc k + length ds < 2 ^ 32" if "k < slots" for sc k
      using Cons.prems(3) [OF that, of sc] s1(3) [OF that, of sc] by (auto split: if_splits)
    from Cons.IH [OF s1(2) _ this, of "deliver_book (pn_consumer_id d) (pn_subject_hash d) (pn_seq d) books"]
    obtain s2 books2 where "record_deliveries ds results (s1, deliver_book (pn_consumer_id d) (pn_subject_hash d) (pn_seq d) books) = Some (s2, books2)"
      "sized s2" "\<And>sc k. k < slots \<Longrightarrow> shared_get s2 sc k = shared_get s1 sc k + counted sc k (sent results ds)"
      using Cons.prems(2) by auto
    then show ?thesis using True s1 by (auto simp: record_deliveries_def record_delivery_def counted_def)
  qed
qed

text \<open>The deliveries of a walk carry the numbers of their binding, and a group of them makes a sound
  notification.\<close>

definition listed :: "active_binding list \<Rightarrow> pending_notify \<Rightarrow> bool" where
  "listed bs d \<longleftrightarrow> pn_binding_idx d < length bs \<and> pn_consumer_id d = ab_consumer_id (bs ! pn_binding_idx d) \<and>
     pn_queue_id d = ab_queue_id (bs ! pn_binding_idx d) \<and> pn_consumer_id d < slots \<and> pn_queue_id d < slots"

definition deliverable :: "catalog \<Rightarrow> active_binding list \<Rightarrow> pending_notify list \<Rightarrow> bool" where
  "deliverable c bs ds \<longleftrightarrow> list_all (listed bs) ds \<and>
    (\<forall>i < length bs. group_of i ds \<noteq> [] \<longrightarrow> note_ok c (notify_binding (bs ! i) (group_of i ds)))"

lemma group_of_filter: "group_of i (filter P ds) = filter P (group_of i ds)"
  by (simp add: group_of_def conj_commute)

lemma note_ok_filter: "note_ok c (notify_binding b ds) \<Longrightarrow> note_ok c (notify_binding b (filter P ds))"
  by (simp add: note_ok_def notify_binding_def comp_def delivered_of_def distinct_map_filter)

lemma notifications_ok:
  assumes "deliverable c bs ds"
  shows "list_all (note_ok c) (notifications bs (filter P ds))"
proof -
  have "note_ok c (notify_binding (bs ! i) (group_of i (filter P ds)))" if "i < length bs" "group_of i (filter P ds) \<noteq> []" for i
  proof -
    have "group_of i ds \<noteq> []" using that(2) by (auto simp: group_of_filter)
    then have "note_ok c (notify_binding (bs ! i) (group_of i ds))" using assms that(1) unfolding deliverable_def by blast
    then show ?thesis unfolding group_of_filter by (rule note_ok_filter)
  qed
  then show ?thesis by (auto simp: notifications_def list_all_iff)
qed

lemma undelivered_sum: "undelivered sc k (map f xs) = (\<Sum>x \<leftarrow> xs. undelivered sc k [f x])"
  by (induction xs) (simp_all add: undelivered_def)

lemma undelivered_append: "undelivered sc k (ns @ ns') = undelivered sc k ns + undelivered sc k ns'"
  by (simp add: undelivered_def)

lemma undelivered_binding:
  "undelivered sc k [notify_binding b ds] = (if k = key_of sc (ab_consumer_id b) (ab_queue_id b) then length ds else 0)"
  by (simp add: notify_binding_def)

lemma sum_groups:
  assumes "list_all (listed bs) ds"
  shows "(\<Sum>i < length bs. if k = key_of sc (ab_consumer_id (bs ! i)) (ab_queue_id (bs ! i)) then length (group_of i ds) else 0) =
    counted sc k ds"
  using assms
proof (induction ds)
  case (Cons d ds)
  let ?key = "\<lambda>i. key_of sc (ab_consumer_id (bs ! i)) (ab_queue_id (bs ! i))"
  have d: "pn_binding_idx d < length bs" "?key (pn_binding_idx d) = key_of sc (pn_consumer_id d) (pn_queue_id d)"
    using Cons.prems by (auto simp: listed_def split: inflight_scope.split)
  have "(if k = ?key i then length (group_of i (d # ds)) else 0) =
      (if i = pn_binding_idx d then if k = ?key (pn_binding_idx d) then 1 else 0 else 0) + (if k = ?key i then length (group_of i ds) else 0)" for i
    by (auto simp: group_of_def)
  then have "(\<Sum>i < length bs. if k = ?key i then length (group_of i (d # ds)) else 0) =
      (\<Sum>i < length bs. if i = pn_binding_idx d then if k = ?key (pn_binding_idx d) then 1 else 0 else 0) + counted sc k ds"
    using Cons by (simp add: sum.distrib)
  also have "(\<Sum>i < length bs. if i = pn_binding_idx d then if k = ?key (pn_binding_idx d) then 1 else 0 else (0 :: nat)) =
      (if k = ?key (pn_binding_idx d) then 1 else 0)"
    using d(1) by (subst sum.delta) simp_all
  finally show ?case unfolding d(2) by (auto simp: counted_def)
qed (simp add: counted_def group_of_def)

lemma undelivered_notifications:
  assumes "list_all (listed bs) ds"
  shows "undelivered sc k (notifications bs ds) = counted sc k ds"
proof -
  let ?f = "\<lambda>i. if k = key_of sc (ab_consumer_id (bs ! i)) (ab_queue_id (bs ! i)) then length (group_of i ds) else 0"
  have skip: "(\<Sum>i \<leftarrow> filter (\<lambda>i. group_of i ds \<noteq> []) xs. ?f i) = (\<Sum>i \<leftarrow> xs. ?f i)" for xs
    by (induction xs) auto
  have "undelivered sc k (notifications bs ds) = (\<Sum>i \<leftarrow> filter (\<lambda>i. group_of i ds \<noteq> []) [0..<length bs]. ?f i)"
    unfolding notifications_def undelivered_sum undelivered_binding ..
  also have "\<dots> = (\<Sum>i < length bs. ?f i)"
    unfolding skip by (simp add: interv_sum_list_conv_sum_set_nat atLeast0LessThan)
  finally show ?thesis unfolding sum_groups [OF assms] .
qed

lemma try_notify_all:
  "nr_dropped r \<le> nr_dropped (fold try_notify ns r) \<and>
    (nr_dropped (fold try_notify ns r) = nr_dropped r \<longrightarrow> nr_queue (fold try_notify ns r) = nr_queue r @ ns)"
proof (induction ns arbitrary: r)
  case (Cons n ns)
  show ?case using Cons.IH [of "try_notify n r"] by (auto simp: try_notify_def)
qed simp

lemma note_outcome_deliveries:
  "ds_deliveries (snd (fold (note_outcome stall clock) xs st)) = ds_deliveries (snd st)"
proof (induction xs arbitrary: st)
  case (Cons x xs)
  have "ds_deliveries (snd (note_outcome stall clock x st)) = ds_deliveries (snd st)"
    by (auto simp: note_outcome_def note_stall_def Let_def case_prod_beta split: flush_outcome.split option.split)
  then show ?case using Cons.IH by simp
qed simp

text \<open>The parts of a delivery that the other thread sees.\<close>

lemma drain_deliver_parts:
  assumes "drain_deliver wire net clock snap stall result d = Some d'"
    "\<forall>x \<in> set (ds_deliveries (dr_scratch d)). pn_binding_idx x < length (sn_bindings snap)"
  obtains results s' books' dead r where
    "record_deliveries (ds_deliveries (dr_scratch d)) results (dr_counters d, dr_books d) = Some (s', books')"
    "dr_counters d' = advance_cursor r s'"
    "dr_ring d' = fold try_notify (notifications (sn_bindings snap) (sent results (ds_deliveries (dr_scratch d))) @ map NotifyDead dead) (dr_ring d)"
proof -
  let ?ds = "ds_deliveries (dr_scratch d)" and ?bs = "sn_bindings snap"
  obtain frames acc where f: "acc_for_each wire (ds_acc (dr_scratch d)) = Some (frames, acc)"
    using assms(1) by (auto simp: drain_deliver_def split: option.splits)
  define results where "results = flush (sn_writers snap) net frames"
  obtain r s where rs: "fold (note_outcome stall clock) (enumerate 0 results) (result, (dr_scratch d)\<lparr>ds_acc := acc\<rparr>) = (r, s)" by fastforce
  have ds: "ds_deliveries s = ?ds"
    using note_outcome_deliveries [of stall clock "enumerate 0 results" "(result, (dr_scratch d)\<lparr>ds_acc := acc\<rparr>)"] by (simp add: rs)
  have ds': "ds_deliveries (s\<lparr>ds_stalled := filter (keep_stalled results) (ds_stalled s)\<rparr>) = ?ds" by (simp add: ds)
  obtain s' books' where rec: "record_deliveries ?ds results (dr_counters d, dr_books d) = Some (s', books')"
    using assms(1) by (auto simp: drain_deliver_def f results_def [symmetric] rs ds Let_def split: option.splits)
  have ring: "(if ?ds = [] then Some (dr_ring d) else notify_delivered_grouped ?bs ?ds results (dr_ring d)) =
      Some (fold try_notify (notifications ?bs (sent results ?ds)) (dr_ring d))"
    using notify_delivered_grouped_eq [OF assms(2)] by (auto simp: notifications_def group_of_def)
  have "d' = \<lparr>dr_counters = advance_cursor r s', dr_books = books', dr_scratch = s\<lparr>ds_stalled := filter (keep_stalled results) (ds_stalled s), ds_dead := []\<rparr>,
      dr_ring = report_dead_connections (ds_dead s) (fold try_notify (notifications ?bs (sent results ?ds)) (dr_ring d)),
      dr_gate = reopen_if_pending (close_window r) (dr_gate d)\<rparr>"
    using assms(1) unfolding drain_deliver_def f option.case prod.case Let_def results_def [symmetric] rs ds' rec ring by simp
  then show ?thesis using that [OF rec, of r "ds_dead s"] by (simp add: report_dead_connections_def fold_map comp_def)
qed

lemma drain_deliver_ok:
  assumes ok: "worker_ok hash F L w" and d: "drain_deliver wire net clock snap stall result d = Some d'"
    and shared: "dr_counters d = cw_counters w" "nr_queue (dr_ring d) = cw_notify w"
    and kept: "nr_dropped (dr_ring d') = nr_dropped (dr_ring d)"
    and del: "deliverable (ec_catalog (cw_engine w)) (sn_bindings snap) (ds_deliveries (dr_scratch d))"
    and room: "\<And>sc k. k < slots \<Longrightarrow> shared_get (cw_counters w) sc k + length (ds_deliveries (dr_scratch d)) < 2 ^ 32"
  shows "worker_ok hash F L (w\<lparr>cw_counters := dr_counters d', cw_notify := nr_queue (dr_ring d')\<rparr>)"
proof -
  let ?ds = "ds_deliveries (dr_scratch d)" and ?bs = "sn_bindings snap" and ?c = "ec_catalog (cw_engine w)"
  have l: "list_all (listed ?bs) ?ds" using del by (simp add: deliverable_def)
  then have idx: "\<forall>x \<in> set ?ds. pn_binding_idx x < length ?bs" and ids: "\<forall>x \<in> set ?ds. pn_consumer_id x < slots \<and> pn_queue_id x < slots"
    by (auto simp: list_all_iff listed_def)
  obtain results s' books' dead r where p:
    "record_deliveries ?ds results (cw_counters w, dr_books d) = Some (s', books')" "dr_counters d' = advance_cursor r s'"
    "dr_ring d' = fold try_notify (notifications ?bs (sent results ?ds) @ map NotifyDead dead) (dr_ring d)"
    using drain_deliver_parts [OF d idx] shared(1) by metis
  let ?ns = "notifications ?bs (sent results ?ds) @ map NotifyDead dead"
  have q: "nr_queue (dr_ring d') = cw_notify w @ ?ns"
    using try_notify_all [of "dr_ring d" ?ns] kept shared(2) by (simp add: p(3))
  have sz: "sized (cw_counters w)" using ok by (simp add: worker_ok_def)
  have s': "sized s'" "\<And>sc k. k < slots \<Longrightarrow> shared_get s' sc k = shared_get (cw_counters w) sc k + counted sc k (sent results ?ds)"
    using record_deliveries_get [OF sz ids room, of results "dr_books d"] p(1) by auto
  have cur: "shared_get (advance_cursor r s') = shared_get s'" "sized (advance_cursor r s') = sized s'"
    by (simp_all add: advance_cursor_def set_cursor_def shared_get_def sized_def fun_eq_iff split: inflight_scope.split)
  have "undelivered sc k (map NotifyDead dead) = 0" for sc k by (induction dead) simp_all
  then have und: "undelivered sc k ?ns = counted sc k (sent results ?ds)" for sc k
    using undelivered_notifications [of ?bs "sent results ?ds" sc k] l
    by (simp add: undelivered_append list_all_iff)
  have "in_sync (cw_engine w) (dr_counters d') (cw_notify w @ ?ns)"
    unfolding in_sync_def
  proof (intro allI impI)
    fix sc k
    assume k: "k < slots"
    have "counted sc k (sent results ?ds) \<le> length ?ds"
      unfolding counted_def by (rule le_trans [OF length_filter_le length_filter_le])
    moreover have "shared_get (cw_counters w) sc k = inflight_get (ec_inflight (cw_engine w)) sc k + undelivered sc k (cw_notify w)"
      using ok k by (simp add: worker_ok_def in_sync_def)
    ultimately show "shared_get (dr_counters d') sc k = inflight_get (ec_inflight (cw_engine w)) sc k + undelivered sc k (cw_notify w @ ?ns) \<and>
        inflight_get (ec_inflight (cw_engine w)) sc k + undelivered sc k (cw_notify w @ ?ns) < 2 ^ 32"
      using s'(2) [OF k, of sc] room [OF k, of sc] unfolding undelivered_append [of sc k "cw_notify w" ?ns] und p(2) cur by linarith
  qed
  moreover have "list_all (note_ok ?c) (map NotifyDead dead)" by (simp add: list_all_iff note_ok_def)
  moreover have "list_all (note_ok ?c) (notifications ?bs (sent results ?ds))" by (rule notifications_ok [OF del])
  ultimately show ?thesis using ok s'(1) by (simp add: worker_ok_def q p(2) cur)
qed

section \<open>Runs of a shard\<close>

text \<open>The retries stop for one of two reasons: nothing is left, or the ring is full.\<close>

lemma retry_acks_stops:
  assumes "length (cw_pending_acks w) \<le> n"
  shows "cw_pending_acks (snd (retry_acks n m w)) = [] \<or> drain_event_cap \<le> length (cw_events (snd (retry_acks n m w)))"
  using assms
proof (induction n arbitrary: m w)
  case (Suc n)
  show ?case
  proof (cases "cw_pending_acks w")
    case (Cons e es)
    then show ?thesis
      using Suc.prems Suc.IH [of "w\<lparr>cw_events := cw_events w @ [e], cw_pending_acks := if es = [] then [] else last es # butlast es\<rparr>"]
      by (auto simp: try_send_def split: drain_event.split suppress_op.split)
  qed simp
qed simp

lemma near_retry_acks: "near w (snd (retry_acks n m w))"
proof (induction n arbitrary: m w)
  case (Suc n)
  have "near w (w'\<lparr>cw_pending_acks := es\<rparr>)" if "try_send e w = Some w'" for e w' es
    using that by (auto simp: try_send_def near_def split: if_splits)
  then show ?case by (auto split: list.split option.split intro!: near_trans [OF _ Suc.IH])
qed simp

lemma near_retry_removes: "near w (retry_removes n i w)"
proof (induction n arbitrary: i w)
  case (Suc n)
  have "near w (w'\<lparr>cw_pending_remove := cs\<rparr>)" if "try_send e w = Some w'" for e w' cs
    using that by (auto simp: try_send_def near_def split: if_splits)
  then show ?case by (auto split: option.split intro: Suc.IH near_trans [OF _ Suc.IH])
qed simp

lemma near_retry_pending: "near w (retry_pending_acks w)"
proof -
  obtain m w1 where e: "retry_acks (length (cw_pending_acks w)) None w = (m, w1)" by fastforce
  have "near w w1" using near_retry_acks [of w "length (cw_pending_acks w)" None] by (simp add: e)
  then show ?thesis by (simp add: retry_pending_acks_def e Let_def split: option.split)
qed

lemma loop_head_ok:
  assumes "worker_ok hash F L w"
  shows "\<exists>w'. loop_head now w = Some w' \<and> worker_ok hash F L w'"
proof -
  obtain w1 where w1: "drain_notifications now w = Some w1" "worker_ok hash F L w1"
    using drain_notifications_ok [OF assms, of now] by (auto simp: handled_def)
  then show ?thesis
    using worker_near [OF w1(2) near_trans [OF near_retry_pending near_retry_removes]] by (simp add: loop_head_def Let_def)
qed

definition worker_new :: "name_registry \<Rightarrow> command_worker" where
  "worker_new names = \<lparr>cw_engine = engine_new, cw_counters = counters_new, cw_snapshot = snapshot_empty, cw_gate = False,
     cw_names = names, cw_notify = [], cw_events = [], cw_retention = [], cw_bindings = [], cw_wheel = None, cw_drops = 0,
     cw_pending_remove = [], cw_pending_acks = [], cw_floors = [], cw_nack_counts = []\<rparr>"

lemma inflight_new_get [simp]: "inflight_get inflight_new sc k = 0"
  by (simp add: inflight_new_def inflight_get_def vec_count_def vec_get_def split: inflight_scope.split)

lemma worker_new_ok: "worker_ok hash F no_slack (worker_new names)"
  using eng_inv_new [of hash F]
  by (auto simp: worker_ok_def worker_new_def sized_def counters_new_def in_sync_def shared_get_def cons_ok_def
      engine_new_def catalog_new_def slot_get_def split: inflight_scope.split)

text \<open>
  A step is a handler of the command thread, the head of its loop, or the delivery of a drain cycle
  whose notifications all fit into the ring.  The numbers in a configuration come from the slot pools,
  so they are below the size of the counters; a subscription names the stream of its consumer.
\<close>

inductive shard_step :: "(bytes \<Rightarrow> u32) \<Rightarrow> bytes set \<Rightarrow> command_worker \<Rightarrow> command_worker \<Rightarrow> bool"
  for hash F where
  run_ack: "handle_ack now acmd w = Some (r, w') \<Longrightarrow> shard_step hash F w w'"
| run_nack: "handle_nack now delay acmd w = Some (r, w') \<Longrightarrow> shard_step hash F w w'"
| run_subscribe: "subscribe_ok F cmd (cw_engine w) \<Longrightarrow> handle_subscribe hash connected cmd w = Some (ok, w') \<Longrightarrow> shard_step hash F w w'"
| run_unsubscribe: "handle_unsubscribe sub w = Some w' \<Longrightarrow> shard_step hash F w w'"
| run_create_stream: "shard_step hash F w (snd (handle_create_stream last_seq replaying cfg age w))"
| run_delete_stream: "handle_delete_stream sid w = Some w' \<Longrightarrow> shard_step hash F w w'"
| run_create_consumer: "config_ok ccfg \<Longrightarrow> shard_step hash F w (snd (handle_create_consumer hash last_seq ccfg limits w))"
| run_delete_consumer: "handle_delete_consumer cid w = Some w' \<Longrightarrow> shard_step hash F w w'"
| run_open_connection: "shard_step hash F w (handle_open_connection conn node w)"
| run_drain_connection: "handle_drain_connection now conn w = Some w' \<Longrightarrow> shard_step hash F w w'"
| run_pause: "handle_pause_consumer cid w = Some (ok, w') \<Longrightarrow> shard_step hash F w w'"
| run_resume: "handle_resume_consumer cid w = Some (ok, w') \<Longrightarrow> shard_step hash F w w'"
| run_timers: "wheel_advance now w = Some w' \<Longrightarrow> shard_step hash F w w'"
| run_loop_head: "loop_head now w = Some w' \<Longrightarrow> shard_step hash F w w'"
| run_drain: "drain_deliver wire net clock snap stall result d = Some d' \<Longrightarrow> dr_counters d = cw_counters w \<Longrightarrow>
    nr_queue (dr_ring d) = cw_notify w \<Longrightarrow> nr_dropped (dr_ring d') = nr_dropped (dr_ring d) \<Longrightarrow>
    deliverable (ec_catalog (cw_engine w)) (sn_bindings snap) (ds_deliveries (dr_scratch d)) \<Longrightarrow>
    (\<And>sc k. k < slots \<Longrightarrow> shared_get (cw_counters w) sc k + length (ds_deliveries (dr_scratch d)) < 2 ^ 32) \<Longrightarrow>
    shard_step hash F w (w\<lparr>cw_counters := dr_counters d', cw_notify := nr_queue (dr_ring d')\<rparr>)"

inductive shard_run :: "(bytes \<Rightarrow> u32) \<Rightarrow> bytes set \<Rightarrow> command_worker \<Rightarrow> bool"
  for hash F where
  run_new: "shard_run hash F (worker_new names)"
| run_step: "shard_run hash F w \<Longrightarrow> shard_step hash F w w' \<Longrightarrow> shard_run hash F w'"

lemma shard_step_ok:
  assumes "shard_step hash F w w'" "worker_ok hash F L w"
  shows "\<exists>L'. worker_ok hash F L' w'"
  using assms(1)
proof cases
  case (run_ack now acmd r)
  then show ?thesis using handle_ack_ok [OF assms(2), of now acmd] by auto
next
  case (run_nack now delay acmd r)
  then show ?thesis using handle_nack_ok [OF assms(2), of now delay acmd] by auto
next
  case (run_subscribe cmd connected ok)
  then show ?thesis using handle_subscribe_ok [OF assms(2), of cmd connected] by auto
next
  case (run_unsubscribe sub)
  then show ?thesis using handle_unsubscribe_ok [OF assms(2), of sub] by auto
next
  case (run_delete_stream sid)
  then show ?thesis using handle_delete_stream_ok [OF assms(2), of sid] by auto
next
  case (run_create_consumer ccfg last_seq limits)
  then show ?thesis using handle_create_consumer_ok [OF assms(2)] by auto
next
  case (run_delete_consumer cid)
  then show ?thesis using handle_delete_consumer_ok [OF assms(2), of cid] by auto
next
  case (run_drain_connection now conn)
  then show ?thesis using handle_drain_connection_ok [OF assms(2), of now conn] by auto
next
  case (run_pause cid ok)
  then show ?thesis using handle_pause_ok [OF assms(2), of cid] by auto
next
  case (run_resume cid ok)
  then show ?thesis using handle_resume_ok [OF assms(2), of cid] by auto
next
  case (run_timers now)
  then show ?thesis using wheel_advance_ok [OF assms(2), of now] by auto
next
  case (run_loop_head now)
  then show ?thesis using loop_head_ok [OF assms(2), of now] by auto
next
  case (run_drain wire net clock snap stall result d d')
  from drain_deliver_ok [OF assms(2) run_drain(2-7)] show ?thesis unfolding run_drain(1) by blast
qed (use assms(2) handle_create_stream_ok handle_open_connection_ok in blast)+

lemma shard_run_ok: "shard_run hash F w \<Longrightarrow> \<exists>L. worker_ok hash F L w"
  by (induction rule: shard_run.induct) (use worker_new_ok shard_step_ok in blast)+

section \<open>Two steps of a shard\<close>

text \<open>A client subscribes on a fresh shard, and the drain sends it a message.\<close>

definition demo_subscribe :: subscribe_cmd where
  "demo_subscribe = \<lparr>sb_stream_config = demo_stream, sb_consumer_config = demo_consumer, sb_subscription_config = demo_sub,
     sb_connection_id = 9, sb_deliver_policy = 3, sb_start_seq = 0\<rparr>"

definition demo_active :: active_binding where
  "demo_active = active_binding_for (ec_catalog demo2) demo_subscribe 1"

definition demo_pending :: pending_notify where
  "demo_pending = \<lparr>pn_conn = 9, pn_stream = 1, pn_binding_idx = 0, pn_seq = 4, pn_subject_hash = 7, pn_consumer_id = 2, pn_queue_id = 3\<rparr>"

definition demo_acc :: accumulator where
  "demo_acc = the (acc_add 9 1 2 4 demo_subject 6 [] [] acc_new)"

definition demo_shard_drain :: "command_worker \<Rightarrow> drain_state" where
  "demo_shard_drain w = \<lparr>dr_counters = cw_counters w, dr_books = [],
     dr_scratch = scratch_new\<lparr>ds_acc := demo_acc, ds_deliveries := [demo_pending]\<rparr>,
     dr_ring = \<lparr>nr_queue = cw_notify w, nr_dropped = 0\<rparr>, dr_gate = False\<rparr>"

definition demo_shard_snapshot :: drain_snapshot where
  "demo_shard_snapshot = \<lparr>sn_bindings = [demo_active], sn_writers = [9], sn_match_tables = [], sn_max_age_ms = [], sn_created_at_seq = []\<rparr>"

lemma demo_active_eval: "ab_binding_id demo_active = 1" "ab_consumer_id demo_active = 2" "ab_queue_id demo_active = 3" "ab_stream_id demo_active = 1"
  by code_simp+

lemma demo_ensure: "ensure_entities demo_hash demo_subscribe engine_new = (True, demo1)"
proof -
  have "fst (ensure_entities demo_hash demo_subscribe engine_new)" by code_simp
  moreover have "snd (ensure_entities demo_hash demo_subscribe engine_new) = demo1"
    by (simp add: ensure_entities_def demo_subscribe_def demo1_def case_prod_beta Let_def)
  ultimately show ?thesis by (cases "ensure_entities demo_hash demo_subscribe engine_new") simp
qed

lemma demo_subscribed: "engine_subscribe 9 5 demo1 = (Inr 1, demo2, snd (snd (engine_subscribe 9 5 demo1)))"
proof -
  have "fst (engine_subscribe 9 5 demo1) = Inr 1" by code_simp
  then show ?thesis by (simp add: demo2_def prod_eq_iff)
qed

lemma demo_subscribe_ok: "subscribe_ok {demo_subject} demo_subscribe engine_new"
proof -
  have "config_ok demo_consumer" "next_binding_id (ec_catalog engine_new) = 1" by code_simp+
  moreover have "sub_ok {demo_subject} demo_sub (ec_catalog demo0)" by (rule demo_sub_ok)
  ultimately show ?thesis by (simp add: subscribe_ok_def demo_subscribe_def demo0_def)
qed

lemma attach_engine:
  "attach_binding connected cmd bid w = Some w' \<Longrightarrow> cw_engine w' = cw_engine w \<and> cw_notify w' = cw_notify w \<and>
     sh_total_demand (cw_counters w') = u32_add (sh_total_demand (cw_counters w)) 1"
  by (auto simp: attach_binding_def sh_inc_demand_def Let_def)

lemma rewind_total [simp]: "sh_total_demand (rewind_released q s) = sh_total_demand s"
  by (simp add: rewind_released_def signal_rewind_def set_cursor_def)

lemma demo_shard_subscribed:
  assumes "handle_subscribe demo_hash connected demo_subscribe (worker_new names) = Some (r, w)"
  shows "cw_engine w = demo2" "cw_notify w = []" "sh_total_demand (cw_counters w) = 1"
proof -
  have e: "ensure_entities demo_hash demo_subscribe (cw_engine (worker_new names)) = (True, demo1)"
    using demo_ensure by (simp add: worker_new_def)
  have s: "engine_subscribe (sb_connection_id demo_subscribe) (uc_id (sb_subscription_config demo_subscribe)) demo1 =
      (Inr 1, demo2, snd (snd (engine_subscribe 9 5 demo1)))"
    using demo_subscribed by (simp add: demo_subscribe_def demo_sub_def)
  obtain w2 where a: "attach_binding connected demo_subscribe 1 (worker_new names\<lparr>cw_engine := demo2\<rparr>) = Some w2"
    and w: "w = gate_release (rebuild_and_swap_snapshot (position_cursor demo_subscribe
      (w2\<lparr>cw_bindings := filter (\<lambda>b. ab_binding_id b \<notin> set (bindings_retired (snd (snd (engine_subscribe 9 5 demo1))))) (cw_bindings w2)\<rparr>)))"
    using assms unfolding handle_subscribe_def e Let_def prod.case s by auto
  have "cw_engine w = cw_engine w2" "cw_notify w = cw_notify w2" "sh_total_demand (cw_counters w) = sh_total_demand (cw_counters w2)"
    by (simp_all add: w rebuild_and_swap_snapshot_def position_cursor_def Let_def)
  moreover have "cw_engine w2 = demo2" "cw_notify w2 = []" "sh_total_demand (cw_counters w2) = u32_add (sh_total_demand counters_new) 1"
    using attach_engine [OF a] by (simp_all add: worker_new_def)
  moreover have "u32_add (sh_total_demand counters_new) 1 = 1" by (simp add: counters_new_def u32_add_def)
  ultimately show "cw_engine w = demo2" "cw_notify w = []" "sh_total_demand (cw_counters w) = 1" by simp_all
qed

lemma demo_flush: "case acc_for_each (\<lambda>_. None) demo_acc of Some (fs, _) \<Rightarrow> flush [9] (\<lambda>_ _. Accepted) fs = [(9, FlushOk)] | None \<Rightarrow> False"
  by code_simp

lemma demo_inflight: "ec_inflight demo2 = inflight_new"
  by code_simp

lemma demo_deliverable: "deliverable (ec_catalog demo2) [demo_active] [demo_pending]"
proof -
  have "next_binding_id (ec_catalog demo2) = 2" "2 < slots" "3 < slots" by code_simp+
  then show ?thesis
    by (simp add: deliverable_def listed_def group_of_def demo_pending_def demo_active_eval notify_binding_def note_ok_def
        delivered_of_def demo_eval live_simps hm_get_single demo_binding_def)
qed

lemma demo_delivers:
  assumes "sized (cw_counters w)" "cw_notify w = []" "\<forall>sc k. k < slots \<longrightarrow> shared_get (cw_counters w) sc k = 0"
  shows "\<exists>d'. drain_deliver (\<lambda>_. None) (\<lambda>_ _. Accepted) clock demo_shard_snapshot stall result (demo_shard_drain w) = Some d' \<and>
    dr_ring d' = \<lparr>nr_queue = [NotifyDelivered 1 2 3 [\<lparr>de_seq = 4, de_subject_hash = 7\<rparr>]], nr_dropped = 0\<rparr>"
proof -
  obtain fs acc where f: "acc_for_each (\<lambda>_. None) demo_acc = Some (fs, acc)" "flush [9] (\<lambda>_ _. Accepted) fs = [(9, FlushOk)]"
    using demo_flush by (auto split: option.splits)
  have ids: "\<forall>d \<in> set [demo_pending]. pn_consumer_id d < slots \<and> pn_queue_id d < slots" by code_simp
  obtain s' books' where r: "record_deliveries [demo_pending] [(9, FlushOk)] (cw_counters w, []) = Some (s', books')"
    using record_deliveries_get [OF assms(1) ids, of "[(9, FlushOk)]" "[]"] assms(3) by auto
  have "frame_ok_for [(9, FlushOk)] 9" by code_simp
  then have n: "notify_delivered_grouped [demo_active] [demo_pending] [(9, FlushOk)] \<lparr>nr_queue = [], nr_dropped = 0\<rparr> =
      Some \<lparr>nr_queue = [NotifyDelivered 1 2 3 [\<lparr>de_seq = 4, de_subject_hash = 7\<rparr>]], nr_dropped = 0\<rparr>"
    by (simp add: notify_delivered_grouped_def demo_pending_def vec_get_def try_notify_def notify_capacity_def notify_binding_def
        delivered_of_def demo_active_eval)
  show ?thesis
    by (simp add: drain_deliver_def demo_shard_drain_def demo_shard_snapshot_def scratch_new_def f note_outcome_def r n assms(2)
        report_dead_connections_def)
qed

lemma demo_stage:
  obtains w where "shard_run demo_hash {demo_subject} w" "cw_engine w = demo2" "cw_notify w = []" "sh_total_demand (cw_counters w) = 1"
    "sized (cw_counters w)" "\<forall>sc k. k < slots \<longrightarrow> shared_get (cw_counters w) sc k = 0"
proof -
  let ?h = demo_hash and ?F = "{demo_subject}" and ?w0 = "worker_new demo_reg"
  have sub: "subscribe_ok ?F demo_subscribe (cw_engine ?w0)" using demo_subscribe_ok by (simp add: worker_new_def)
  obtain r w where w: "handle_subscribe ?h (\<lambda>_. True) demo_subscribe ?w0 = Some (r, w)"
    using handle_subscribe_ok [OF worker_new_ok sub] by blast
  have run: "shard_run ?h ?F w" by (rule run_step [OF run_new run_subscribe [OF sub w]])
  note e = demo_shard_subscribed [OF w]
  obtain L where ok: "worker_ok ?h ?F L w" using shard_run_ok [OF run] by blast
  then have "\<forall>sc k. k < slots \<longrightarrow> shared_get (cw_counters w) sc k = 0"
    by (simp add: worker_ok_def in_sync_def e demo_inflight)
  moreover have "sized (cw_counters w)" using ok by (simp add: worker_ok_def)
  ultimately show ?thesis using that run e by blast
qed

abbreviation demo_fed :: drain_read_result where
  "demo_fed \<equiv> \<lparr>rr_start = 4, rr_end = 5, rr_more_pending = False, rr_lowest_skipped = None, rr_last_seq = 4\<rparr>"

lemma demo_drained:
  assumes "shard_run demo_hash {demo_subject} w" "cw_engine w = demo2" "\<forall>sc k. k < slots \<longrightarrow> shared_get (cw_counters w) sc k = 0"
    and d: "drain_deliver wire net clock demo_shard_snapshot stall demo_fed (demo_shard_drain w) = Some d'" "nr_dropped (dr_ring d') = 0"
  shows "shard_run demo_hash {demo_subject} (w\<lparr>cw_counters := dr_counters d', cw_notify := nr_queue (dr_ring d')\<rparr>)"
  by (rule run_step [OF assms(1) run_drain [OF d(1)]])
    (use demo_deliverable assms(2,3) d(2) in \<open>simp_all add: demo_shard_drain_def demo_shard_snapshot_def scratch_new_def\<close>)

lemma demo_run:
  "\<exists>w. shard_run demo_hash {demo_subject} w \<and> cw_engine w = demo2 \<and>
    cw_notify w = [NotifyDelivered 1 2 3 [\<lparr>de_seq = 4, de_subject_hash = 7\<rparr>]]"
proof -
  obtain w where w: "shard_run demo_hash {demo_subject} w" "cw_engine w = demo2" "cw_notify w = []" "sh_total_demand (cw_counters w) = 1"
    "sized (cw_counters w)" "\<forall>sc k. k < slots \<longrightarrow> shared_get (cw_counters w) sc k = 0"
    by (rule demo_stage) blast
  obtain d' where d: "drain_deliver (\<lambda>_. None) (\<lambda>_ _. Accepted) (\<lambda>_. 0) demo_shard_snapshot 0 demo_fed (demo_shard_drain w) = Some d'"
    "dr_ring d' = \<lparr>nr_queue = [NotifyDelivered 1 2 3 [\<lparr>de_seq = 4, de_subject_hash = 7\<rparr>]], nr_dropped = 0\<rparr>"
    using demo_delivers [OF w(5,3,6), of "\<lambda>_. 0" 0 demo_fed] by blast
  have "nr_dropped (dr_ring d') = 0" by (simp add: d(2))
  from demo_drained [OF w(1,2,6) d(1) this]
  have "shard_run demo_hash {demo_subject} (w\<lparr>cw_counters := dr_counters d', cw_notify := nr_queue (dr_ring d')\<rparr>)" .
  moreover have "cw_engine (w\<lparr>cw_counters := dr_counters d', cw_notify := nr_queue (dr_ring d')\<rparr>) = demo2" by (simp add: w(2))
  moreover have "cw_notify (w\<lparr>cw_counters := dr_counters d', cw_notify := nr_queue (dr_ring d')\<rparr>) =
    [NotifyDelivered 1 2 3 [\<lparr>de_seq = 4, de_subject_hash = 7\<rparr>]]" by (simp add: d(2))
  ultimately show ?thesis by blast
qed

section \<open>What the shards keep\<close>





section \<open>Demand after the death of a connection\<close>

text \<open>Applying events moves no demand counter: the handlers that retire bindings do that themselves.\<close>

definition same_demand :: "command_worker \<Rightarrow> command_worker \<Rightarrow> bool" where
  "same_demand w w' \<longleftrightarrow> cw_engine w' = cw_engine w \<and> sh_demand (cw_counters w') = sh_demand (cw_counters w) \<and>
     sh_total_demand (cw_counters w') = sh_total_demand (cw_counters w)"

lemma same_demand_fold: "(\<And>x w. same_demand w (f x w)) \<Longrightarrow> same_demand w (fold f xs w)"
  by (induction xs arbitrary: w) (auto simp: same_demand_def)

lemma same_demand_drop: "same_demand w (fold drop_consumer_state cids w)"
  by (rule same_demand_fold) (auto simp: same_demand_def drop_consumer_state_def send_removed_def try_send_def Let_def)

lemma same_demand_push: "same_demand w (fold (push_release acks) xs w)"
  by (rule same_demand_fold) (auto simp: same_demand_def push_release_def send_ack_def try_send_def Let_def)

lemma bulk_demand:
  "ofold (\<lambda>(c, q, n). dec_inflight_bulk c q n) xs s = Some s' \<Longrightarrow> sh_demand s' = sh_demand s \<and> sh_total_demand s' = sh_total_demand s"
  by (induction xs arbitrary: s) (auto simp: dec_inflight_bulk_def on_inflight_def split: option.splits)

lemma settle_demand:
  assumes "apply_delta_and_sync delta acks w = Some w'"
  shows "same_demand w w'"
proof -
  define w1 where "w1 = (if demand_became_available delta \<noteq> [] then gate_release w else w)"
  define w2 where "w2 = (if subject_hashes_acked delta \<noteq> [] then gate_release (fold (push_release acks) (subject_hashes_acked delta) w1) else w1)"
  define w3 where "w3 = (if pending_seqs_released delta \<noteq> [] then gate_release (rewind (Min (set (pending_seqs_released delta))) w2) else w2)"
  have "same_demand w w1" by (simp add: same_demand_def w1_def)
  then have "same_demand w w2" using same_demand_push [of w1 acks "subject_hashes_acked delta"] by (simp add: same_demand_def w2_def)
  then have w3: "same_demand w w3" by (simp add: same_demand_def rewind_released_def signal_rewind_def set_cursor_def w3_def)
  note settle = assms [unfolded apply_delta_and_sync_def Let_def, folded w1_def, folded w2_def, folded w3_def]
  obtain s where s: "ofold (\<lambda>(c, q, n). dec_inflight_bulk c q n) (inflight_released delta) (cw_counters w3) = Some s"
    using settle by (cases "ofold (\<lambda>(c, q, n). dec_inflight_bulk c q n) (inflight_released delta) (cw_counters w3)") simp_all
  have "same_demand w (w3\<lparr>cw_counters := s\<rparr>)" using w3 bulk_demand [OF s] by (simp add: same_demand_def)
  moreover have "same_demand (w3\<lparr>cw_counters := s\<rparr>) w'"
    using settle same_demand_drop [of "w3\<lparr>cw_counters := s\<rparr>" "consumers_removed delta"]
    by (auto simp: s same_demand_def rebuild_and_swap_snapshot_def split: if_splits)
  ultimately show ?thesis by (simp add: same_demand_def)
qed

lemma demo_flush_dead:
  "case acc_for_each (\<lambda>_. None) demo_acc of Some (fs, _) \<Rightarrow> flush [9] (\<lambda>_ _. WriteFailed) fs = [(9, WriterGone 4)] | None \<Rightarrow> False"
  by code_simp

lemma demo_fails:
  assumes "cw_notify w = []"
  shows "\<exists>d'. drain_deliver (\<lambda>_. None) (\<lambda>_ _. WriteFailed) clock demo_shard_snapshot stall demo_fed (demo_shard_drain w) = Some d' \<and>
    dr_ring d' = \<lparr>nr_queue = [NotifyDead 9], nr_dropped = 0\<rparr> \<and> sh_total_demand (dr_counters d') = sh_total_demand (cw_counters w)"
proof -
  obtain fs acc where f: "acc_for_each (\<lambda>_. None) demo_acc = Some (fs, acc)" "flush [9] (\<lambda>_ _. WriteFailed) fs = [(9, WriterGone 4)]"
    using demo_flush_dead by (auto split: option.splits)
  have "\<not> frame_ok_for [(9, WriterGone 4)] 9" by code_simp
  then have r: "record_deliveries [demo_pending] [(9, WriterGone 4)] cb = Some cb"
    and n: "notify_delivered_grouped [demo_active] [demo_pending] [(9, WriterGone 4)] ring = Some ring" for cb ring
    by (simp_all add: record_deliveries_def record_delivery_def notify_delivered_grouped_def demo_pending_def)
  show ?thesis
    by (simp add: drain_deliver_def demo_shard_drain_def demo_shard_snapshot_def scratch_new_def f note_outcome_def r n assms
        report_dead_connections_def try_notify_def notify_capacity_def advance_cursor_def set_cursor_def)
qed

text \<open>C21. When the drain reports a dead connection, the command thread retires every binding of the
  connection and lowers no demand counter: demand that only the dead connection asked for stays, and
  the later drain of the connection finds no binding to lower it for.\<close>

theorem dead_connection_keeps_demand:
  assumes "shard_run hash F w" "cw_notify w = NotifyDead conn # ns"
  shows "\<exists>w'. handle_notification now (NotifyDead conn) (w\<lparr>cw_notify := ns\<rparr>) = Some w' \<and>
    (\<forall>bid b. live (ec_catalog (cw_engine w')) bid = Some b \<longleftrightarrow> live (ec_catalog (cw_engine w)) bid = Some b \<and> b_connection_id b \<noteq> conn) \<and>
    sh_demand (cw_counters w') = sh_demand (cw_counters w) \<and> sh_total_demand (cw_counters w') = sh_total_demand (cw_counters w)"
proof -
  obtain L where ok: "worker_ok hash F L w" using shard_run_ok [OF assms(1)] by blast
  obtain w' where w': "handle_notification now (NotifyDead conn) (w\<lparr>cw_notify := ns\<rparr>) = Some w'"
    using handle_notification_ok [OF ok assms(2), of now] by (auto simp: handled_def)
  obtain ctx delta where e: "mark_connection_dead conn (cw_engine w) = (ctx, delta)" by fastforce
  have "same_demand (w\<lparr>cw_notify := ns, cw_engine := ctx\<rparr>) w'"
    using w' settle_demand [of delta False "w\<lparr>cw_notify := ns, cw_engine := ctx\<rparr>" w'] by (simp add: e)
  moreover note mark_connection_dead(2) [OF worker_engine [OF ok], of conn]
  ultimately show ?thesis using w' by (simp add: same_demand_def e)
qed

theorem dead_connection_keeps_demand_witness:
  "\<exists>w w'. shard_run demo_hash {demo_subject} w \<and> live (ec_catalog (cw_engine w)) 1 \<noteq> None \<and> cw_notify w = [NotifyDead 9] \<and>
     handle_notification 0 (NotifyDead 9) (w\<lparr>cw_notify := []\<rparr>) = Some w' \<and> live (ec_catalog (cw_engine w')) 1 = None \<and>
     sh_total_demand (cw_counters w') = 1"
proof -
  obtain w where w: "shard_run demo_hash {demo_subject} w" "cw_engine w = demo2" "cw_notify w = []" "sh_total_demand (cw_counters w) = 1"
    "sized (cw_counters w)" "\<forall>sc k. k < slots \<longrightarrow> shared_get (cw_counters w) sc k = 0"
    by (rule demo_stage) blast
  obtain d' where d: "drain_deliver (\<lambda>_. None) (\<lambda>_ _. WriteFailed) (\<lambda>_. 0) demo_shard_snapshot 0 demo_fed (demo_shard_drain w) = Some d'"
    "dr_ring d' = \<lparr>nr_queue = [NotifyDead 9], nr_dropped = 0\<rparr>" "sh_total_demand (dr_counters d') = 1"
    using demo_fails [OF w(3), of "\<lambda>_. 0" 0] w(4) by auto
  let ?w = "w\<lparr>cw_counters := dr_counters d', cw_notify := nr_queue (dr_ring d')\<rparr>"
  have run: "shard_run demo_hash {demo_subject} ?w" by (rule demo_drained [OF w(1,2,6) d(1)]) (simp add: d(2))
  have live: "live (ec_catalog demo2) 1 = Some (demo_binding 1 [])" by (simp add: live_simps demo_eval hm_get_single)
  have "cw_notify ?w = [NotifyDead 9]" by (simp add: d(2))
  from dead_connection_keeps_demand [OF run this, of 0] obtain w' where
    w': "handle_notification 0 (NotifyDead 9) (?w\<lparr>cw_notify := []\<rparr>) = Some w'" "sh_total_demand (cw_counters w') = 1"
      "\<And>b. live (ec_catalog (cw_engine w')) 1 = Some b \<longleftrightarrow> live (ec_catalog (cw_engine ?w)) 1 = Some b \<and> b_connection_id b \<noteq> 9"
    using d(3) by auto
  have "live (ec_catalog (cw_engine w')) 1 = None"
    using w'(3) live w(2) by (cases "live (ec_catalog (cw_engine w')) 1") (auto simp: demo_binding_def)
  moreover have "live (ec_catalog (cw_engine ?w)) 1 \<noteq> None" using w(2) live by simp
  ultimately show ?thesis using run w'(1,2) \<open>cw_notify ?w = [NotifyDead 9]\<close> by blast
qed

end
