(* ===== verification/Spec2Isabelle.thy ===== *)
theory Spec2Isabelle
  imports Match_Queries Engine_Safety Timing_Wheel Hier_Wheel Registry_Inv Memory_Contract Consumer_Subjects Eviction Drain_Limits Drain_Notify Shard_Run
begin

text \<open>
  A verification development of the arbitro message broker.

  \<^bold>\<open>The program.\<close>  Clients publish messages under dotted subjects into streams; a stream keeps them in a
  journal, and consumers receive the messages that match the filters of their subscriptions, up to a
  limit of unacknowledged deliveries.  A server consists of shards.  Each shard has two threads.  The
  command thread owns the engine, which knows the streams, consumers, subscriptions and bindings, and
  handles subscriptions, acks, nacks, timers and deletions.  The drain thread walks the journal behind a
  cursor, routes every message through the match tables of a snapshot the command thread gave it, packs
  the deliveries into frames and sends them.  The threads share a set of atomic counters, and two rings:
  the drain reports deliveries and dead connections, the command thread reports acks, releases and
  removed consumers.  A registry translates names and 32-bit wire numbers into dense slots for all
  shards, after the admission rules have accepted them.

  \<^bold>\<open>Reading the model.\<close>  Integers of the sources are \<open>nat\<close> with the wrap-around or the saturation written
  out where the code has it, and bytes are \<open>8 word\<close>.  A \<^verbatim>\<open>Vec\<close> is a list, a \<^verbatim>\<open>HashMap\<close> an association list
  under the \<open>hm_\<close> operations.  An index out of range, an \<^verbatim>\<open>unwrap\<close> or a slice that panics gives \<open>None\<close>; an
  error of the code is a value of a sum type.  Loops are structural recursion, folds (\<open>ofold\<close> where a step
  can panic) or functions with a termination measure: the token-wise tests on subjects, insertion and work
  list of the trie, the growth of the levels of a wheel.  The retry loops at the head of the command loop take the length of
  their queue as fuel; every turn removes an event, passes one or stops, so this is enough.  The names of definitions
  are those of the code, with a prefix where two components use one name: \<open>hw_\<close> and \<open>tw_\<close> for the wheels,
  \<open>mt_\<close> and \<open>cat_\<close> for match table and catalog, \<open>engine_\<close> for the facade, \<open>mem_\<close> for the journal, \<open>cs_\<close> for
  the book of the drain, \<open>sh_\<close> for the shared counters, \<open>acc_\<close> for the accumulator.

  \<^bold>\<open>The theories.\<close>  All paths are below \<^verbatim>\<open>src/crates\<close>.

  \<^item> \<open>Arbitro_Prelude\<close>: machine types, \<^verbatim>\<open>Vec\<close> and \<^verbatim>\<open>HashMap\<close> operations and their laws.
  \<^item> \<open>Subject\<close>, \<open>Subject_Trie\<close>: \<^verbatim>\<open>arbitro-engine/src/common/subject.rs\<close> and \<^verbatim>\<open>trie.rs\<close>.  The token-wise
    tests decide inclusion and intersection of the sets of subjects that patterns match; the arena trie
    finds exactly the matching patterns.  The locale \<open>subject_index\<close> is what the match table uses of it.
  \<^item> \<open>Match_Table\<close>, \<open>Match_Queries\<close>: \<^verbatim>\<open>arbitro-engine/src/catalog/match_table.rs\<close>.  The table stands for
    a list of filters; its lookups, its resolved limits and the effect of a hash collision.
  \<^item> \<open>Inflight\<close>, \<open>Catalog\<close>, \<open>Catalog_Inv\<close>, \<open>Catalog_Routes\<close>: \<^verbatim>\<open>arbitro-engine/src/inflight/mod.rs\<close>,
    \<^verbatim>\<open>catalog/mod.rs\<close>, \<^verbatim>\<open>events.rs\<close>, \<^verbatim>\<open>error.rs\<close>.  Counters (locale \<open>credit_counters\<close>), entities, indices
    of the bindings, and that the match tables hold exactly the filters of the subscriptions.
  \<^item> \<open>Engine\<close>, \<open>Engine_Inv\<close>, \<open>Engine_Steps\<close>, \<open>Engine_Safety\<close>: \<^verbatim>\<open>arbitro-engine/src/lib.rs\<close>, \<^verbatim>\<open>command.rs\<close>,
    \<^verbatim>\<open>context.rs\<close>, \<^verbatim>\<open>metrics.rs\<close>, \<^verbatim>\<open>runtime/execute.rs\<close>, \<^verbatim>\<open>runtime/retire.rs\<close>, and the ownership guard of
    \<^verbatim>\<open>arbitro-server/src/shard/handlers.rs\<close>.  The engine as a transition system (\<open>reach\<close>): counters equal
    pending deliveries plus the credit that re-subscriptions drop, routes equal subscriptions, demand
    equals bindings, deletions leave nothing behind, and an ack touches only what its connection holds.
  \<^item> \<open>Timing_Wheel\<close>, \<open>Hier_Wheel\<close>: \<^verbatim>\<open>arbitro-common/src/wheel.rs\<close> (locale \<open>tick_wheel\<close>) and
    \<^verbatim>\<open>hierarchical_wheel.rs\<close>.  Timers fire once, never early and at most one tick late.
  \<^item> \<open>Id_Pool\<close>: \<^verbatim>\<open>arbitro-common/src/id_pool.rs\<close> (locale \<open>id_allocator\<close>).  Slots are exclusive, handles are
    never reused before the generation wraps, and a pool is rebuilt from its snapshot.
  \<^item> \<open>Validate\<close>, \<open>Proto_Codes\<close>, \<open>Delivery_Wire\<close>: \<^verbatim>\<open>arbitro-proto/src/validate.rs\<close>, \<^verbatim>\<open>action.rs\<close>, \<^verbatim>\<open>error.rs\<close>,
    \<^verbatim>\<open>wire/envelope.rs\<close>, \<^verbatim>\<open>wire/delivery.rs\<close>.  Validation against the patterns of the engine, codes and
    their decoding, frames as bytes.
  \<^item> \<open>Admission_Rules\<close>, \<open>Name_Registry\<close>, \<open>Registry_Inv\<close>: \<^verbatim>\<open>arbitro-server/src/transport/rules\<close> and
    \<^verbatim>\<open>arbitro-common/src/name_registry.rs\<close>.  In every run of the registry the filters of streams are
    disjoint, the two directions of the translation agree, and subscription numbers are unique.
  \<^item> \<open>Memory_Store\<close>, \<open>Memory_Journal\<close>, \<open>Memory_Contract\<close>: \<^verbatim>\<open>arbitro-store/src/store.rs\<close> and \<^verbatim>\<open>memory.rs\<close>.
    The segments and the index refine a list of entries (\<open>journal_of\<close>); the locale \<open>journal_contract\<close> is
    the \<^verbatim>\<open>Store\<close> trait, on which the default methods and the eviction are verified.
  \<^item> \<open>Ack_Floor\<close>, \<open>Consumer_Subjects\<close>: \<^verbatim>\<open>arbitro-server/src/shard/ack_floor.rs\<close>, \<^verbatim>\<open>consumer_subjects.rs\<close>,
    \<^verbatim>\<open>drain_events.rs\<close>.  The floor is below every message still owed, and the book of the drain suppresses
    no message that is owed.
  \<^item> \<open>Eviction\<close>: \<^verbatim>\<open>evict_expired\<close> of \<^verbatim>\<open>handlers.rs\<close>.  A pass from the front removes expired messages
    only; a resumed pass does not keep this.
  \<^item> \<open>Shared_Counters\<close>, \<open>Accumulator\<close>, \<open>Drain_Cycle\<close>, \<open>Drain_Safety\<close>, \<open>Drain_Limits\<close>, \<open>Drain_Notify\<close>:
    \<^verbatim>\<open>arbitro-server/src/shard/shared.rs\<close>, \<^verbatim>\<open>accumulator.rs\<close>, \<^verbatim>\<open>drain.rs\<close> and the drain loop of \<^verbatim>\<open>worker.rs\<close>.
    The frames carry exactly the accumulated entries, the cursor passes no message that was held back,
    the recipients are within their limits, and the notifications are the deliveries by binding.  The
    locale \<open>ordered_source\<close> is what the drain needs of a journal; every \<open>journal_contract\<close> provides it.
  \<^item> \<open>Shard_Worker\<close>, \<open>Shard_Sync\<close>, \<open>Shard_Run\<close>: the command loop of \<^verbatim>\<open>worker.rs\<close> and the handlers of
    \<^verbatim>\<open>handlers.rs\<close>, on the engine, the wheel, the floors, the registry and the counters above.
    \<open>shard_run\<close> interleaves the handlers with deliveries of the drain.  In every run the shared counters
    are the counters of the engine plus the deliveries still in the ring, and no handler panics.

  \<^bold>\<open>Parameters and conditions.\<close>  The subject hash, the clock, the outcome of a write to a connection, the
  wire number of a slot and the presence of a writer are arguments of the definitions.  Where a
  property of routing needs the hash to be injective, it is so on the set \<open>F\<close> of literal filters in use;
  \<open>add_exact_collision\<close> shows what happens otherwise.  Steps that would overflow a 32-bit counter (more
  than four thousand million deliveries or bindings of one engine) are outside the runs.  A run of
  a shard further asks that the configurations carry slots below the size of the counters, as the
  slot pools give them out, that a subscription names the stream of its consumer, that the drain reports
  no message twice in one notification, and that no notification is dropped; a dropped one breaks the
  equation for good.

  \<^bold>\<open>Not modelled.\<close>  Sockets, TLS, tasks and channels of the transport, and the decoding of request frames
  that only reads fields at fixed offsets; the process start, configuration and metrics; authentication
  and the cluster, which rest on cryptographic and consensus libraries outside the sources; the journal
  and the command log on disk, whose content is the business of the file system and of \<^verbatim>\<open>mmap\<close>; delayed
  messages, cron and idempotency windows, which are timers around publishing; the client library and
  the end-to-end programs.  Of the shard: \<^verbatim>\<open>handle_bind\<close>, the handlers that only read or only call the
  journal, the sidecar file of stream lifecycles, and the scheduling of timers.  Memory ordering is not
  modelled either: an atomic access is one step, and a handler sees the notifications queued when it
  starts.
\<close>

end
